(* ===== verification/Prelude.thy ===== *)
theory Prelude imports Main "HOL-Library.Word"
begin

text \<open>
  Shared ground of the development: the faults of the C++ sources as values, the result type
  every fallible operation returns, the machine integer types, and the generic facts on results,
  lists and vectors that the component theories use.

  A run of the program that reaches an \<^verbatim>\<open>assert\<close> that fails, an \<^verbatim>\<open>exit\<close> or an operation
  whose behaviour the language leaves undefined is a value \<open>Inl f\<close> here. \<^verbatim>\<open>CMakeLists.txt\<close>
  sets \<^verbatim>\<open>DEBUG\<close> to 1 and defines \<^verbatim>\<open>NDEBUG\<close> only when \<^verbatim>\<open>DEBUG\<close> is unset, so assertions are live.
\<close>

named_theorems res_simps \<open>rewrite rules of the result type\<close>

section \<open>Faults and results\<close>

datatype fault =
    Assertion_Failed
  | Null_Deref
  | Wild_Pointer
  | Use_After_Free
  | Double_Free
  | Out_Of_Range
  | Uninitialised
  | Bad_Conversion
  | Signed_Overflow
  | Diverges
  | Exited
  | Division_By_Zero

type_synonym 'a res = "fault + 'a"

definition rbind :: "'a res \<Rightarrow> ('a \<Rightarrow> 'b res) \<Rightarrow> 'b res" where
  "rbind m f = (case m of Inl e \<Rightarrow> Inl e | Inr x \<Rightarrow> f x)"

definition assertc :: "bool \<Rightarrow> unit res" where
  "assertc b = (if b then Inr () else Inl Assertion_Failed)"

lemma rbind_Inl [simp, res_simps]: "rbind (Inl e) f = Inl e"
  by (simp add: rbind_def)

lemma rbind_Inr [simp, res_simps]: "rbind (Inr x) f = f x"
  by (simp add: rbind_def)

lemma rbind_eq_Inr [res_simps]: "rbind m f = Inr y \<longleftrightarrow> (\<exists>x. m = Inr x \<and> f x = Inr y)"
  by (cases m) auto

lemma rbind_eq_Inl [res_simps]:
  "rbind m f = Inl e \<longleftrightarrow> m = Inl e \<or> (\<exists>x. m = Inr x \<and> f x = Inl e)"
  by (cases m) auto

lemma rbind_assoc: "rbind (rbind m f) g = rbind m (\<lambda>x. rbind (f x) g)"
  by (cases m) auto

lemma rbind_cong [fundef_cong]:
  "m = m' \<Longrightarrow> (\<And>x. m' = Inr x \<Longrightarrow> f x = f' x) \<Longrightarrow> rbind m f = rbind m' f'"
  by (cases m') auto

lemma assertc_True [simp, res_simps]: "assertc True = Inr ()"
  by (simp add: assertc_def)

lemma assertc_eq_Inr [simp, res_simps]: "assertc b = Inr u \<longleftrightarrow> b"
  by (simp add: assertc_def)

lemma assertc_False [simp, res_simps]: "assertc False = Inl Assertion_Failed"
  by (simp add: assertc_def)

section \<open>Machine integers\<close>

type_synonym uint = "32 word"
type_synonym size_t = "64 word"
type_synonym uchar = "8 word"

text \<open>Conversions between the integer types of the sources: \<^verbatim>\<open>int\<close> is read by \<open>sint\<close>.\<close>

definition int_min :: int where "int_min = - (2 ^ 31)"
definition int_max :: int where "int_max = 2 ^ 31 - 1"

text \<open>The result of a signed \<^verbatim>\<open>int\<close> operation, undefined outside the range of the type.\<close>

definition signed_int :: "int \<Rightarrow> int res" where
  "signed_int x = (if int_min \<le> x \<and> x \<le> int_max then Inr x else Inl Signed_Overflow)"

lemma signed_int_eq_Inr [res_simps]:
  "signed_int x = Inr y \<longleftrightarrow> y = x \<and> int_min \<le> x \<and> x \<le> int_max"
  by (auto simp: signed_int_def)

lemma signed_int_ok: "int_min \<le> x \<Longrightarrow> x \<le> int_max \<Longrightarrow> signed_int x = Inr x"
  by (simp add: signed_int_def)

lemma sint_eq_unat:
  fixes w :: uint
  assumes "unat w < 2 ^ 31"
  shows "sint w = int (unat w)"
proof -
  have "uint w < 2 ^ 31" using assms by (metis of_nat_less_iff of_nat_numeral of_nat_power of_nat_unat)
  then have "signed_take_bit 31 (uint w) = uint w"
    by (intro signed_take_bit_int_eq_self) (simp_all add: order_trans [OF _ uint_ge_0])
  then show ?thesis by (simp add: sint_uint)
qed

section \<open>Vectors\<close>

text \<open>\<^verbatim>\<open>std::vector::operator[]\<close> is undefined outside the vector.\<close>

definition vec_get :: "'a list \<Rightarrow> nat \<Rightarrow> 'a res" where
  "vec_get xs i = (if i < length xs then Inr (xs ! i) else Inl Out_Of_Range)"

definition vec_set :: "'a list \<Rightarrow> nat \<Rightarrow> 'a \<Rightarrow> 'a list res" where
  "vec_set xs i x = (if i < length xs then Inr (xs[i := x]) else Inl Out_Of_Range)"

lemma vec_get_ok [simp]: "i < length xs \<Longrightarrow> vec_get xs i = Inr (xs ! i)"
  by (simp add: vec_get_def)

lemma vec_set_ok [simp]: "i < length xs \<Longrightarrow> vec_set xs i x = Inr (xs[i := x])"
  by (simp add: vec_set_def)

lemma vec_get_eq_Inr [res_simps]: "vec_get xs i = Inr x \<longleftrightarrow> i < length xs \<and> x = xs ! i"
  by (auto simp: vec_get_def)

lemma vec_set_eq_Inr [res_simps]: "vec_set xs i x = Inr ys \<longleftrightarrow> i < length xs \<and> ys = xs[i := x]"
  by (auto simp: vec_set_def)

text \<open>A \<^verbatim>\<open>std::map\<close> as the list of its pairs in key order; \<open>map_put\<close> is \<^verbatim>\<open>m[k] = v\<close>.\<close>

fun map_put :: "'k::linorder \<Rightarrow> 'v \<Rightarrow> ('k \<times> 'v) list \<Rightarrow> ('k \<times> 'v) list" where
  "map_put k v [] = [(k, v)]"
| "map_put k v ((k', v') # m) =
     (if k = k' then (k, v) # m else if k < k' then (k, v) # (k', v') # m else (k', v') # map_put k v m)"

lemma map_put_keys: "fst ` set (map_put k v m) = insert k (fst ` set m)"
  by (induction m rule: map_put.induct) auto

lemma map_put_sorted: "sorted_wrt (<) (map fst m) \<Longrightarrow> sorted_wrt (<) (map fst (map_put k v m))"
proof (induction m rule: map_put.induct)
  case (2 k v k' v' m)
  then show ?case using map_put_keys [of k v m] by auto
qed simp

lemma map_of_map_put: "sorted_wrt (<) (map fst m) \<Longrightarrow> map_of (map_put k v m) = (map_of m)(k \<mapsto> v)"
  by (induction m rule: map_put.induct) (auto simp: fun_upd_twist)

text \<open>A loop over a list whose body may fail.\<close>

fun rfold :: "('b \<Rightarrow> 'a \<Rightarrow> 'b res) \<Rightarrow> 'b \<Rightarrow> 'a list \<Rightarrow> 'b res" where
  "rfold f s [] = Inr s"
| "rfold f s (x # xs) = rbind (f s x) (\<lambda>s'. rfold f s' xs)"

lemma rfold_append: "rfold f s (xs @ ys) = rbind (rfold f s xs) (\<lambda>s'. rfold f s' ys)"
  by (induction xs arbitrary: s) (auto simp: rbind_assoc)

lemma rfold_cong:
  "xs = ys \<Longrightarrow> (\<And>s x. x \<in> set ys \<Longrightarrow> f s x = g s x) \<Longrightarrow> rfold f s xs = rfold g s ys"
  by (induction xs arbitrary: s ys) (auto intro!: rbind_cong)

lemma rfold_pure:
  assumes "\<And>s x. x \<in> set xs \<Longrightarrow> f s x = Inr (g x s)"
  shows "rfold f s xs = Inr (fold g xs s)"
  using assms by (induction xs arbitrary: s) auto

lemma rfold_invariant:
  assumes "rfold f s xs = Inr t" and "P s"
    and "\<And>s x s'. P s \<Longrightarrow> x \<in> set xs \<Longrightarrow> f s x = Inr s' \<Longrightarrow> P s'"
  shows "P t"
  using assms
proof (induction xs arbitrary: s)
  case (Cons x xs)
  from Cons.prems(1) obtain s' where "f s x = Inr s'" and "rfold f s' xs = Inr t"
    by (auto simp: res_simps)
  with Cons.prems(2,3) show ?case by (intro Cons.IH [of s']) auto
qed simp

end
