(* ===== verification/Fifo.thy ===== *)
theory Fifo imports Prelude
begin

text \<open>
  The interface between \<^verbatim>\<open>queue_t.c\<close> and its clients (the breadth-first search of
  \<^verbatim>\<open>find_value\<close>, the buffer queue of \<^verbatim>\<open>socket_t.c\<close>, the destructor): the three operations a
  client calls, the laws it relies on, and what follows from the laws for any client. The theory
  of the linked queue interprets the locale with the C functions.
\<close>

record ('s, 'a) queue_ops =
  op_is_empty :: "'s \<Rightarrow> (bool \<times> 's) res"
  op_push :: "'s \<Rightarrow> 'a \<Rightarrow> 's res"
  op_take :: "'s \<Rightarrow> ('a \<times> 's) res"

text \<open>The client loop \<^verbatim>\<open>while (!queue_is_empty(q)) { x = queue_front(q); queue_pop(q); ... }\<close>.\<close>

fun drain :: "('s, 'a) queue_ops \<Rightarrow> nat \<Rightarrow> 's \<Rightarrow> 'a list \<Rightarrow> ('a list \<times> 's) res" where
  "drain ops 0 s acc =
     rbind (op_is_empty ops s) (\<lambda>(e, s1). if e then Inr (acc, s1) else Inl Diverges)"
| "drain ops (Suc n) s acc =
     rbind (op_is_empty ops s) (\<lambda>(e, s1).
     if e then Inr (acc, s1)
     else rbind (op_take ops s1) (\<lambda>(x, s2). drain ops n s2 (acc @ [x])))"

locale fifo =
  fixes ops :: "('s, 'a) queue_ops"
    and invar :: "'s \<Rightarrow> bool"
    and contents :: "'s \<Rightarrow> 'a list"
  assumes is_empty_law: "invar s \<Longrightarrow>
      \<exists>s'. op_is_empty ops s = Inr (contents s = [], s') \<and> invar s' \<and> contents s' = contents s"
    and push_law: "invar s \<Longrightarrow>
      \<exists>s'. op_push ops s x = Inr s' \<and> invar s' \<and> contents s' = contents s @ [x]"
    and take_law: "invar s \<Longrightarrow> contents s = x # xs \<Longrightarrow>
      \<exists>s'. op_take ops s = Inr (x, s') \<and> invar s' \<and> contents s' = xs"
begin

lemma push_all:
  "invar s \<Longrightarrow> \<exists>s'. rfold (op_push ops) s xs = Inr s' \<and> invar s' \<and> contents s' = contents s @ xs"
proof (induction xs arbitrary: s)
  case (Cons x xs)
  from push_law [OF Cons.prems, of x] obtain s1 where s1: "op_push ops s x = Inr s1" "invar s1"
      "contents s1 = contents s @ [x]" by blast
  from Cons.IH [OF s1(2)] s1 show ?case by auto
qed auto

lemma drain_contents:
  "invar s \<Longrightarrow> length (contents s) \<le> n \<Longrightarrow>
     \<exists>s'. drain ops n s acc = Inr (acc @ contents s, s') \<and> invar s' \<and> contents s' = []"
proof (induction n arbitrary: s acc)
  case 0
  with is_empty_law [of s] show ?case by auto
next
  case (Suc n)
  from is_empty_law [OF Suc.prems(1)] obtain s1 where
    s1: "op_is_empty ops s = Inr (contents s = [], s1)" "invar s1" "contents s1 = contents s"
    by blast
  show ?case
  proof (cases "contents s")
    case Nil
    with s1 show ?thesis by auto
  next
    case (Cons x xs)
    with s1 take_law [of s1 x xs] obtain s2 where
      s2: "op_take ops s1 = Inr (x, s2)" "invar s2" "contents s2 = xs" by auto
    from Suc.IH [of s2 "acc @ [x]"] Suc.prems(2) Cons s1 s2 show ?thesis by auto
  qed
qed

text \<open>First in, first out: what a client pushes it takes out again in the same order.\<close>

lemma push_all_drain:
  assumes "invar s" and "contents s = []" and "length xs \<le> n"
  shows "\<exists>s'. rbind (rfold (op_push ops) s xs) (\<lambda>s1. drain ops n s1 []) = Inr (xs, s')
     \<and> contents s' = []"
proof -
  from push_all [OF assms(1), of xs] assms(2) obtain s1 where
    "rfold (op_push ops) s xs = Inr s1" "invar s1" "contents s1 = xs" by auto
  with drain_contents [of s1 n "[]"] assms(3) show ?thesis by auto
qed

end

end
