(* ===== verification/Queue.thy ===== *)
theory Queue imports Fifo
begin

text \<open>
  The thread-safe FIFO queue of \<^verbatim>\<open>queue_t.c\<close>: a singly linked list of heap cells with a head and
  a tail pointer and a size counter, guarded by a read-write lock and announced on a condition
  variable. The first part translates the C functions over an explicit heap; the second part
  states what they promise, over lists, and proves that they keep the promise.
\<close>

section \<open>Heap, items and the queue object\<close>

text \<open>
  A pointer is an \<open>addr option\<close>, \<open>None\<close> being \<^verbatim>\<open>NULL\<close>. Every item is allocated at a fresh
  address \<open>brk\<close>; \<open>live\<close> tells the cells that have not been freed. The flag \<open>tolerant\<close>
  describes the C library: with \<open>tolerant = False\<close> a read of a freed cell and a read past an
  allocation of size zero are faults, as the language says; with \<open>tolerant = True\<close> the freed
  cell still holds its \<^verbatim>\<open>next\<close> field and the zero-sized block reads as zeros.
\<close>

type_synonym addr = nat

record 'a item_t =
  it_d :: 'a
  it_next :: "addr option"

record 'a heap_t =
  mem :: "addr \<Rightarrow> 'a item_t option"
  live :: "addr \<Rightarrow> bool"
  brk :: addr
  tolerant :: bool

text \<open>The calls on the queue's lock and condition variable, kept in the order they are made.\<close>

datatype pcall = Rdlock | Wrlock | Unlock | Broadcast

record 'a queue_t =
  q_size :: size_t
  q_head :: "addr option"
  q_tail :: "addr option"
  q_heap :: "'a heap_t"
  q_calls :: "pcall list"

definition call :: "bool \<Rightarrow> pcall \<Rightarrow> 'a queue_t \<Rightarrow> 'a queue_t" where
  "call b c q = (if b then q\<lparr>q_calls := q_calls q @ [c]\<rparr> else q)"

definition deref :: "'a heap_t \<Rightarrow> addr option \<Rightarrow> 'a item_t res" where
  "deref h p = (case p of None \<Rightarrow> Inl Null_Deref
     | Some a \<Rightarrow> (case mem h a of None \<Rightarrow> Inl Wild_Pointer
        | Some it \<Rightarrow> if live h a \<or> tolerant h then Inr it else Inl Use_After_Free))"

definition store_next :: "'a heap_t \<Rightarrow> addr option \<Rightarrow> addr option \<Rightarrow> 'a heap_t res" where
  "store_next h p n = (case p of None \<Rightarrow> Inl Null_Deref
     | Some a \<Rightarrow> (case mem h a of None \<Rightarrow> Inl Wild_Pointer
        | Some it \<Rightarrow> if live h a then Inr (h\<lparr>mem := (mem h)(a := Some (it\<lparr>it_next := n\<rparr>))\<rparr>)
                      else Inl Use_After_Free))"

definition free_item :: "'a heap_t \<Rightarrow> addr \<Rightarrow> 'a heap_t res" where
  "free_item h a = (if live h a then Inr (h\<lparr>live := (live h)(a := False)\<rparr>) else Inl Double_Free)"

definition malloc_item :: "'a heap_t \<Rightarrow> 'a \<Rightarrow> addr \<times> 'a heap_t" where
  "malloc_item h x = (brk h, h\<lparr>mem := (mem h)(brk h := Some \<lparr>it_d = x, it_next = None\<rparr>),
     live := (live h)(brk h := True), brk := Suc (brk h)\<rparr>)"

section \<open>Operations\<close>

text \<open>
  The constructor allocates the object, its lock, its condition variable and its mutex and
  initialises the three; \<open>oks\<close> holds the outcomes of those seven calls. It returns \<^verbatim>\<open>NULL\<close> as
  soon as one of them fails.
\<close>

definition empty_heap :: "bool \<Rightarrow> 'a heap_t" where
  "empty_heap t = \<lparr>mem = (\<lambda>_. None), live = (\<lambda>_. False), brk = 0, tolerant = t\<rparr>"

definition fresh_queue :: "bool \<Rightarrow> 'a queue_t" where
  "fresh_queue t = \<lparr>q_size = 0, q_head = None, q_tail = None, q_heap = empty_heap t, q_calls = []\<rparr>"

definition queue_constructor :: "bool \<Rightarrow> bool list \<Rightarrow> 'a queue_t option" where
  "queue_constructor t oks = (if list_all id oks then Some (fresh_queue t) else None)"

definition queue_is_empty_custom :: "'a queue_t \<Rightarrow> bool \<Rightarrow> (bool \<times> 'a queue_t) res" where
  "queue_is_empty_custom q lock =
     (let q1 = call lock Rdlock q in
      rbind (assertc (q_head q1 \<noteq> None \<or> q_head q1 = q_tail q1)) (\<lambda>_.
      Inr (q_head q1 = None, call lock Unlock q1)))"

definition queue_is_empty :: "'a queue_t \<Rightarrow> (bool \<times> 'a queue_t) res" where
  "queue_is_empty q = queue_is_empty_custom q True"

text \<open>The value returned for \<^verbatim>\<open>NULL\<close> is the argument \<open>null\<close>.\<close>

definition queue_front_custom :: "'a \<Rightarrow> 'a queue_t \<Rightarrow> bool \<Rightarrow> ('a \<times> 'a queue_t) res" where
  "queue_front_custom null q lock =
     (let q1 = call lock Rdlock q in
      if q_head q1 \<noteq> None
      then rbind (deref (q_heap q1) (q_head q1)) (\<lambda>it. Inr (it_d it, call True Unlock q1))
      else Inr (null, call lock Unlock q1))"

definition queue_front :: "'a \<Rightarrow> 'a queue_t \<Rightarrow> ('a \<times> 'a queue_t) res" where
  "queue_front null q = queue_front_custom null q True"

definition queue_back_custom :: "'a \<Rightarrow> 'a queue_t \<Rightarrow> bool \<Rightarrow> ('a \<times> 'a queue_t) res" where
  "queue_back_custom null q lock =
     (let q1 = call lock Rdlock q in
      if q_tail q1 \<noteq> None
      then rbind (deref (q_heap q1) (q_tail q1)) (\<lambda>it. Inr (it_d it, call True Unlock q1))
      else Inr (null, call lock Unlock q1))"

definition queue_back :: "'a \<Rightarrow> 'a queue_t \<Rightarrow> ('a \<times> 'a queue_t) res" where
  "queue_back null q = queue_back_custom null q True"

definition queue_front_and_pop_custom ::
    "'a \<Rightarrow> 'a queue_t \<Rightarrow> bool \<Rightarrow> bool \<Rightarrow> ('a \<times> 'a queue_t) res" where
  "queue_front_and_pop_custom null q notify lock =
     (let q1 = call lock Wrlock q in
      rbind
        (case q_head q1 of
           Some t \<Rightarrow>
             rbind (deref (q_heap q1) (Some t)) (\<lambda>it.
             let q2 = q1\<lparr>q_head := it_next it\<rparr> in
             rbind (if Some t = q_tail q2
                    then rbind (assertc (q_head q2 = None)) (\<lambda>_. Inr (q2\<lparr>q_tail := None\<rparr>))
                    else Inr q2) (\<lambda>q3.
             rbind (free_item (q_heap q3) t) (\<lambda>h.
             Inr (it_d it, q3\<lparr>q_heap := h, q_size := q_size q3 - 1\<rparr>))))
         | None \<Rightarrow> rbind (assertc (q_tail q1 = None)) (\<lambda>_. Inr (null, q1)))
        (\<lambda>(d, q4). Inr (d, call notify Broadcast (call lock Unlock q4))))"

definition queue_front_and_pop :: "'a \<Rightarrow> 'a queue_t \<Rightarrow> ('a \<times> 'a queue_t) res" where
  "queue_front_and_pop null q = queue_front_and_pop_custom null q True True"

definition queue_pop_custom :: "'a queue_t \<Rightarrow> bool \<Rightarrow> bool \<Rightarrow> 'a queue_t res" where
  "queue_pop_custom q notify lock =
     (let q1 = call lock Wrlock q in
      rbind
        (case q_head q1 of
           Some t \<Rightarrow>
             rbind (deref (q_heap q1) (Some t)) (\<lambda>it.
             let q2 = q1\<lparr>q_head := it_next it\<rparr> in
             rbind (if Some t = q_tail q2
                    then rbind (assertc (q_head q2 = None)) (\<lambda>_. Inr (q2\<lparr>q_tail := None\<rparr>))
                    else Inr q2) (\<lambda>q3.
             rbind (free_item (q_heap q3) t) (\<lambda>h.
             Inr (q3\<lparr>q_heap := h, q_size := q_size q3 - 1\<rparr>))))
         | None \<Rightarrow> rbind (assertc (q_tail q1 = None)) (\<lambda>_. Inr q1))
        (\<lambda>q4. Inr (call notify Broadcast (call lock Unlock q4))))"

definition queue_pop :: "'a queue_t \<Rightarrow> 'a queue_t res" where
  "queue_pop q = queue_pop_custom q True True"

text \<open>The outcome of the \<^verbatim>\<open>malloc\<close> of the new item is the argument \<open>ok\<close>.\<close>

definition queue_push_custom ::
    "bool \<Rightarrow> 'a queue_t \<Rightarrow> 'a \<Rightarrow> bool \<Rightarrow> bool \<Rightarrow> 'a queue_t res" where
  "queue_push_custom ok q d notify lock =
     (let q1 = call lock Wrlock q in
      if \<not> ok then Inr (call lock Unlock q1)
      else
        (let (a, h) = malloc_item (q_heap q1) d; q2 = q1\<lparr>q_heap := h\<rparr> in
         rbind
           (if q_tail q2 = None
            then rbind (assertc (q_head q2 = None)) (\<lambda>_.
                 Inr (q2\<lparr>q_head := Some a, q_tail := Some a\<rparr>))
            else rbind (store_next (q_heap q2) (q_tail q2) (Some a)) (\<lambda>h'.
                 Inr (q2\<lparr>q_heap := h', q_tail := Some a\<rparr>)))
           (\<lambda>q3. Inr (call notify Broadcast (call lock Unlock
                        (q3\<lparr>q_size := q_size q3 + 1\<rparr>))))))"

definition queue_push :: "'a queue_t \<Rightarrow> 'a \<Rightarrow> 'a queue_t res" where
  "queue_push q d = queue_push_custom True q d True True"

definition queue_broadcast :: "'a queue_t \<Rightarrow> 'a queue_t" where
  "queue_broadcast q = call True Broadcast q"

text \<open>\<^verbatim>\<open>int r = q->size\<close>, returned as a \<^verbatim>\<open>size_t\<close>.\<close>

definition queue_size_custom :: "'a queue_t \<Rightarrow> bool \<Rightarrow> size_t \<times> 'a queue_t" where
  "queue_size_custom q lock =
     (let q1 = call lock Rdlock q; r = (ucast (q_size q1) :: uint) in
      (scast r, call lock Unlock q1))"

definition queue_size :: "'a queue_t \<Rightarrow> size_t \<times> 'a queue_t" where
  "queue_size q = queue_size_custom q True"

text \<open>
  The traversals follow \<^verbatim>\<open>next\<close> until \<^verbatim>\<open>NULL\<close>. A chain visits at most \<open>brk\<close> different cells, so
  a traversal that makes more steps than that runs in a circle for ever: this is what the value
  \<open>Diverges\<close> stands for, and \<open>Suc brk\<close> is the fuel of every loop below.
\<close>

fun dump_loop :: "nat \<Rightarrow> 'a heap_t \<Rightarrow> ('a \<Rightarrow> 's \<Rightarrow> 's) \<Rightarrow> addr option \<Rightarrow> 's \<Rightarrow> 's res" where
  "dump_loop n h f None dest = Inr dest"
| "dump_loop 0 h f (Some a) dest = Inl Diverges"
| "dump_loop (Suc n) h f (Some a) dest =
     rbind (deref h (Some a)) (\<lambda>it. dump_loop n h f (it_next it) (f (it_d it) dest))"

definition queue_print_func_dump_custom ::
    "'a queue_t \<Rightarrow> ('a \<Rightarrow> 's \<Rightarrow> 's) \<Rightarrow> 's \<Rightarrow> bool \<Rightarrow> ('s \<times> 'a queue_t) res" where
  "queue_print_func_dump_custom q f dest lock =
     (let q1 = call lock Rdlock q in
      rbind (dump_loop (Suc (brk (q_heap q1))) (q_heap q1) f (q_head q1) dest) (\<lambda>dest'.
      Inr (dest', call lock Unlock q1)))"

definition queue_print_func_dump ::
    "'a queue_t \<Rightarrow> ('a \<Rightarrow> 's \<Rightarrow> 's) \<Rightarrow> 's \<Rightarrow> ('s \<times> 'a queue_t) res" where
  "queue_print_func_dump q f dest = queue_print_func_dump_custom q f dest True"

text \<open>\<^verbatim>\<open>queue_print_func\<close>: the same traversal, always under the lock.\<close>

definition queue_print_func :: "'a queue_t \<Rightarrow> ('a \<Rightarrow> 's \<Rightarrow> 's) \<Rightarrow> 's \<Rightarrow> ('s \<times> 'a queue_t) res" where
  "queue_print_func q f out =
     (let q1 = call True Rdlock q in
      rbind (dump_loop (Suc (brk (q_heap q1))) (q_heap q1) f (q_head q1) out) (\<lambda>out'.
      Inr (out', call True Unlock q1)))"

text \<open>
  \<^verbatim>\<open>queue_selective_remove\<close>. The callback \<open>del\<close> keeps state \<open>c\<close> between its calls. The loop
  frees a deleted item and only then reads its \<^verbatim>\<open>next\<close> field; the items to keep are linked anew
  afterwards.
\<close>

fun remove_loop ::
    "nat \<Rightarrow> ('c \<Rightarrow> bool \<Rightarrow> 'a \<Rightarrow> bool \<times> 'c) \<Rightarrow> 'a heap_t \<Rightarrow> addr option \<Rightarrow> bool \<Rightarrow> 'c
      \<Rightarrow> 'a list \<Rightarrow> addr list \<Rightarrow> ('a heap_t \<times> 'c \<times> 'a list \<times> addr list) res" where
  "remove_loop n del h None first c dels pres = Inr (h, c, dels, pres)"
| "remove_loop 0 del h (Some a) first c dels pres = Inl Diverges"
| "remove_loop (Suc n) del h (Some a) first c dels pres =
     rbind (deref h (Some a)) (\<lambda>it.
     case del c first (it_d it) of (dl, c') \<Rightarrow>
     if dl
     then rbind (free_item h a) (\<lambda>h'.
          rbind (deref h' (Some a)) (\<lambda>it'.
          remove_loop n del h' (it_next it') False c' (dels @ [it_d it]) pres))
     else remove_loop n del h (it_next it) False c' dels (pres @ [a]))"

fun relink :: "'a heap_t \<Rightarrow> addr list \<Rightarrow> 'a heap_t res" where
  "relink h [] = Inr h"
| "relink h [a] = store_next h (Some a) None"
| "relink h (a # b # as) = rbind (store_next h (Some a) (Some b)) (\<lambda>h'. relink h' (b # as))"

text \<open>
  \<open>ok1\<close> and \<open>ok2\<close> are the outcomes of the two \<^verbatim>\<open>calloc\<close> calls; the first is made only with
  \<open>deallocate\<close>, and the jump to \<^verbatim>\<open>error\<close> when it fails skips the initialisation of
  \<^verbatim>\<open>to_preserve\<close>, which is then tested. The result holds the number of deletions, the state of
  the callback, the payloads passed to \<^verbatim>\<open>free\<close> and the queue. With an empty queue
  \<^verbatim>\<open>to_preserve[0]\<close> lies outside the block of size zero.
\<close>

definition queue_selective_remove ::
    "bool \<Rightarrow> bool \<Rightarrow> ('c \<Rightarrow> bool \<Rightarrow> 'a \<Rightarrow> bool \<times> 'c) \<Rightarrow> 'c \<Rightarrow> 'a queue_t \<Rightarrow> bool \<Rightarrow> bool
      \<Rightarrow> (nat \<times> 'c \<times> 'a list \<times> 'a queue_t) res" where
  "queue_selective_remove ok1 ok2 del c q deallocate lock =
     (let q1 = call lock Wrlock q in
      if deallocate \<and> \<not> ok1 then Inl Uninitialised
      else if \<not> ok2 then Inr (0, c, [], call lock Unlock q1)
      else
        rbind (remove_loop (Suc (brk (q_heap q1))) del (q_heap q1) (q_head q1) True c [] [])
          (\<lambda>(h, c', dels, pres).
        rbind (if q_size q1 = 0 \<and> \<not> tolerant h then Inl Out_Of_Range else Inr ()) (\<lambda>_.
        rbind (relink h pres) (\<lambda>h'.
        rbind (assertc (of_nat (length pres + length dels) = q_size q1)) (\<lambda>_.
        Inr (length dels, c', (if deallocate then dels else []),
             call lock Unlock
               (q1\<lparr>q_heap := h',
                   q_head := (case pres of [] \<Rightarrow> None | a # _ \<Rightarrow> Some a),
                   q_tail := (if pres = [] then None else Some (last pres)),
                   q_size := of_nat (length pres)\<rparr>)))))))"

text \<open>
  \<^verbatim>\<open>queue_destructor\<close>: pop until the queue is empty, passing each payload to \<^verbatim>\<open>free\<close> when asked to.
  The result lists the freed payloads and the emptied queue, whose lock, condition variable and
  object are then released.
\<close>

fun destroy_loop :: "nat \<Rightarrow> 'a \<Rightarrow> bool \<Rightarrow> 'a queue_t \<Rightarrow> 'a list \<Rightarrow> ('a list \<times> 'a queue_t) res" where
  "destroy_loop 0 null deallocate q freed =
     rbind (queue_is_empty q) (\<lambda>(e, q1). if e then Inr (freed, q1) else Inl Diverges)"
| "destroy_loop (Suc n) null deallocate q freed =
     rbind (queue_is_empty q) (\<lambda>(e, q1).
     if e then Inr (freed, q1)
     else
       rbind (if deallocate
              then rbind (queue_front null q1) (\<lambda>(d, q2). Inr (freed @ [d], q2))
              else Inr (freed, q1)) (\<lambda>(freed', q2).
       rbind (queue_pop q2) (\<lambda>q3.
       destroy_loop n null deallocate q3 freed')))"

definition queue_destructor :: "'a \<Rightarrow> 'a queue_t \<Rightarrow> bool \<Rightarrow> ('a list \<times> 'a queue_t) res" where
  "queue_destructor null q deallocate =
     destroy_loop (Suc (brk (q_heap q))) null deallocate q []"

text \<open>
  \<^verbatim>\<open>queue_wait_change\<close> and \<^verbatim>\<open>queue_wait_change_timed\<close>: \<open>trylock\<close> and \<open>wait\<close> are the outcomes of
  \<^verbatim>\<open>pthread_mutex_trylock\<close> and of the wait. The result is the returned flag and whether the mutex
  was given back.
\<close>

definition queue_wait_change :: "bool \<Rightarrow> bool \<Rightarrow> bool \<times> bool" where
  "queue_wait_change trylock wait = (if trylock then (wait, True) else (False, False))"

definition queue_wait_change_timed :: "bool \<Rightarrow> bool \<Rightarrow> bool \<times> bool" where
  "queue_wait_change_timed trylock wait = (if trylock then (wait, True) else (False, False))"

section \<open>What the queue promises: lists\<close>

text \<open>\<open>lseg h p as r\<close>: from \<open>p\<close> the live cells \<open>as\<close> are chained up to \<open>r\<close>.\<close>

fun lseg :: "'a heap_t \<Rightarrow> addr option \<Rightarrow> addr list \<Rightarrow> addr option \<Rightarrow> bool" where
  "lseg h p [] r \<longleftrightarrow> p = r"
| "lseg h p (a # as) r \<longleftrightarrow> p = Some a \<and> live h a
     \<and> (\<exists>it. mem h a = Some it \<and> lseg h (it_next it) as r)"

definition payload :: "'a heap_t \<Rightarrow> addr \<Rightarrow> 'a" where
  "payload h a = it_d (the (mem h a))"

definition heap_inv :: "'a heap_t \<Rightarrow> bool" where
  "heap_inv h \<longleftrightarrow> (\<forall>a. live h a \<longrightarrow> a < brk h)"

definition queue_cells :: "'a queue_t \<Rightarrow> addr list \<Rightarrow> bool" where
  "queue_cells q as \<longleftrightarrow> heap_inv (q_heap q) \<and> distinct as
     \<and> lseg (q_heap q) (q_head q) as None
     \<and> q_tail q = (if as = [] then None else Some (last as))
     \<and> q_size q = of_nat (length as)"

text \<open>The representation relation: the queue object \<open>q\<close> holds the list \<open>xs\<close>.\<close>

definition queue_rep :: "'a queue_t \<Rightarrow> 'a list \<Rightarrow> bool" where
  "queue_rep q xs \<longleftrightarrow> (\<exists>as. queue_cells q as \<and> xs = map (payload (q_heap q)) as)"

text \<open>The list specification of \<^verbatim>\<open>queue_selective_remove\<close>: (kept, deleted, state).\<close>

fun selective_remove_spec ::
    "('c \<Rightarrow> bool \<Rightarrow> 'a \<Rightarrow> bool \<times> 'c) \<Rightarrow> bool \<Rightarrow> 'c \<Rightarrow> 'a list \<Rightarrow> 'a list \<times> 'a list \<times> 'c" where
  "selective_remove_spec del first c [] = ([], [], c)"
| "selective_remove_spec del first c (x # xs) =
     (case del c first x of (dl, c') \<Rightarrow>
      case selective_remove_spec del False c' xs of (ks, ds, c'') \<Rightarrow>
        if dl then (ks, x # ds, c'') else (x # ks, ds, c''))"

text \<open>The heap after the cells \<open>ds\<close> have been freed.\<close>

definition freed :: "'a heap_t \<Rightarrow> addr list \<Rightarrow> 'a heap_t" where
  "freed h ds = h\<lparr>live := (\<lambda>a. live h a \<and> a \<notin> set ds)\<rparr>"

text \<open>The interface of the clients, and the list a queue object holds, by traversal.\<close>

definition queue_take :: "'a \<Rightarrow> 'a queue_t \<Rightarrow> ('a \<times> 'a queue_t) res" where
  "queue_take null q = rbind (queue_front null q) (\<lambda>(d, q1). rbind (queue_pop q1) (\<lambda>q2. Inr (d, q2)))"

definition linked_ops :: "'a \<Rightarrow> ('a queue_t, 'a) queue_ops" where
  "linked_ops null = \<lparr>op_is_empty = queue_is_empty, op_push = queue_push, op_take = queue_take null\<rparr>"

definition queue_list :: "'a queue_t \<Rightarrow> 'a list" where
  "queue_list q = (case queue_print_func_dump q (\<lambda>x xs. xs @ [x]) [] of
     Inr (xs, _) \<Rightarrow> xs | Inl _ \<Rightarrow> [])"

definition queue_wf :: "'a queue_t \<Rightarrow> bool" where
  "queue_wf q \<longleftrightarrow> (\<exists>xs. queue_rep q xs)"

section \<open>Chains of cells\<close>

lemma lseg_append: "lseg h p (as @ bs) r \<longleftrightarrow> (\<exists>m. lseg h p as m \<and> lseg h m bs r)"
  by (induction as arbitrary: p) auto

lemma lseg_cong:
  assumes "\<And>a. a \<in> set as \<Longrightarrow> mem h' a = mem h a \<and> live h' a = live h a"
  shows "lseg h' p as r = lseg h p as r"
  using assms by (induction as arbitrary: p) auto

lemma lseg_mem: "lseg h p as r \<Longrightarrow> a \<in> set as \<Longrightarrow> live h a \<and> (\<exists>it. mem h a = Some it)"
  by (induction as arbitrary: p) auto

lemma lseg_unique: "lseg h p as None \<Longrightarrow> lseg h p bs None \<Longrightarrow> as = bs"
proof (induction as arbitrary: p bs)
  case Nil
  then show ?case by (cases bs) auto
next
  case (Cons a as)
  then show ?case by (cases bs) auto
qed

lemma lseg_fresh: "heap_inv h \<Longrightarrow> lseg h p as r \<Longrightarrow> a \<in> set as \<Longrightarrow> a < brk h"
  by (auto simp: heap_inv_def dest: lseg_mem)

lemma cells_bound:
  assumes "heap_inv h" and "lseg h p as r" and "distinct as"
  shows "length as \<le> brk h"
proof -
  from assms(1,2) have "set as \<subseteq> {..<brk h}" by (auto dest: lseg_fresh)
  then have "card (set as) \<le> card {..<brk h}" by (rule card_mono [rotated]) simp
  with assms(3) show ?thesis by (simp add: distinct_card)
qed

lemma queue_rep_unique: "queue_rep q xs \<Longrightarrow> queue_rep q ys \<Longrightarrow> xs = ys"
  by (auto simp: queue_rep_def queue_cells_def dest: lseg_unique)

section \<open>The operations on the represented list\<close>

lemma call_simps [simp]:
  "q_size (call b c q) = q_size q" "q_head (call b c q) = q_head q"
  "q_tail (call b c q) = q_tail q" "q_heap (call b c q) = q_heap q"
  "q_calls (call b c q) = (if b then q_calls q @ [c] else q_calls q)"
  by (simp_all add: call_def)

lemma queue_cells_call [simp]: "queue_cells (call b c q) as = queue_cells q as"
  by (simp add: queue_cells_def)

lemma queue_rep_call [simp]: "queue_rep (call b c q) xs = queue_rep q xs"
  by (simp add: queue_rep_def)

lemma queue_cells_calls [simp]: "queue_cells (q\<lparr>q_calls := cs\<rparr>) as = queue_cells q as"
  by (simp add: queue_cells_def)

lemma fresh_queue_rep: "queue_rep (fresh_queue t) []"
  by (auto simp: fresh_queue_def queue_rep_def queue_cells_def heap_inv_def empty_heap_def)

lemma queue_cells_push:
  assumes "queue_cells q as"
  shows "\<exists>q' a. queue_push_custom True q d notify lock = Inr q' \<and> a = brk (q_heap q)
     \<and> queue_cells q' (as @ [a]) \<and> payload (q_heap q') a = d
     \<and> (\<forall>b \<in> set as. payload (q_heap q') b = payload (q_heap q) b)
     \<and> tolerant (q_heap q') = tolerant (q_heap q) \<and> brk (q_heap q') = Suc (brk (q_heap q))
     \<and> q_calls q' = q_calls q @ (if lock then [Wrlock, Unlock] else [])
         @ (if notify then [Broadcast] else [])"
proof (cases as rule: rev_cases)
  case Nil
  with assms show ?thesis
    by (auto simp: queue_push_custom_def malloc_item_def queue_cells_def heap_inv_def payload_def
        split: if_splits)
next
  case (snoc bs b)
  let ?h = "q_heap q"
  from assms have inv: "heap_inv ?h" and dist: "distinct as"
    and seg: "lseg ?h (q_head q) as None" by (auto simp: queue_cells_def)
  then have fresh: "brk ?h \<notin> set as" by (auto dest: lseg_fresh)
  from seg snoc obtain it where b: "live ?h b" "mem ?h b = Some it"
    and bs: "lseg ?h (q_head q) bs (Some b)" by (auto simp: lseg_append)
  let ?a = "brk ?h"
  define h' where "h' = ?h\<lparr>mem := (mem ?h)(?a \<mapsto> \<lparr>it_d = d, it_next = None\<rparr>, b \<mapsto> it\<lparr>it_next := Some ?a\<rparr>),
     live := (live ?h)(?a := True), brk := Suc ?a\<rparr>"
  from fresh dist snoc have ne: "?a \<noteq> b" "?a \<notin> set bs" "b \<notin> set bs" by auto
  have "lseg h' (q_head q) bs (Some b)"
    using bs ne by (subst lseg_cong [of _ _ ?h]) (auto simp: h'_def)
  with ne b have seg': "lseg h' (q_head q) (as @ [?a]) None"
    by (auto simp: lseg_append snoc h'_def)
  have "heap_inv h'" using inv by (auto simp: heap_inv_def h'_def)
  moreover have "\<forall>c \<in> set as. payload h' c = payload ?h c"
    using ne b snoc by (auto simp: payload_def h'_def)
  moreover have "payload h' ?a = d" using ne by (simp add: payload_def h'_def)
  moreover have "queue_push_custom True q d notify lock = Inr
     (call notify Broadcast (call lock Unlock ((call lock Wrlock q)\<lparr>q_heap := h', q_tail := Some ?a,
        q_size := q_size q + 1\<rparr>)))"
    using assms b ne snoc
    by (simp add: queue_push_custom_def malloc_item_def queue_cells_def store_next_def h'_def Let_def)
  ultimately show ?thesis
    using assms seg' fresh by (auto simp: queue_cells_def h'_def)
qed

lemma queue_rep_push:
  assumes "queue_rep q xs"
  shows "\<exists>q'. queue_push_custom True q d notify lock = Inr q' \<and> queue_rep q' (xs @ [d])
     \<and> tolerant (q_heap q') = tolerant (q_heap q)
     \<and> q_calls q' = q_calls q @ (if lock then [Wrlock, Unlock] else [])
         @ (if notify then [Broadcast] else [])"
proof -
  from assms obtain as where as: "queue_cells q as" and xs: "xs = map (payload (q_heap q)) as"
    by (auto simp: queue_rep_def)
  from queue_cells_push [OF as, of d notify lock] obtain q' where
    q': "queue_push_custom True q d notify lock = Inr q'"
    and *: "queue_cells q' (as @ [brk (q_heap q)])" "payload (q_heap q') (brk (q_heap q)) = d"
      "\<forall>b \<in> set as. payload (q_heap q') b = payload (q_heap q) b"
      "tolerant (q_heap q') = tolerant (q_heap q)"
    and calls: "q_calls q' = q_calls q @ (if lock then [Wrlock, Unlock] else [])
         @ (if notify then [Broadcast] else [])"
    by auto
  from * have "queue_rep q' (xs @ [d])"
    unfolding queue_rep_def xs by (intro exI [of _ "as @ [brk (q_heap q)]"]) auto
  with q' *(4) calls show ?thesis by blast
qed

lemma front_and_pop_pop:
  "queue_pop_custom q notify lock = rbind (queue_front_and_pop_custom null q notify lock) (\<lambda>(d, q'). Inr q')"
  by (auto simp: queue_pop_custom_def queue_front_and_pop_custom_def Let_def rbind_assoc
      intro!: rbind_cong split: option.splits)

lemma queue_cells_front_and_pop:
  assumes "queue_cells q as"
  shows "\<exists>q'. queue_front_and_pop_custom null q notify lock =
       Inr (if as = [] then null else payload (q_heap q) (hd as), q')
     \<and> queue_cells q' (tl as) \<and> payload (q_heap q') = payload (q_heap q)
     \<and> tolerant (q_heap q') = tolerant (q_heap q) \<and> brk (q_heap q') = brk (q_heap q)
     \<and> q_calls q' = q_calls q @ (if lock then [Wrlock, Unlock] else [])
         @ (if notify then [Broadcast] else [])"
proof (cases as)
  case Nil
  with assms show ?thesis
    by (auto simp: queue_front_and_pop_custom_def queue_cells_def Let_def)
next
  case (Cons a bs)
  let ?h = "q_heap q"
  from assms Cons obtain it where it: "mem ?h a = Some it" "live ?h a" "q_head q = Some a"
      "lseg ?h (it_next it) bs None" and inv: "heap_inv ?h" and dist: "a \<notin> set bs" "distinct bs"
    by (auto simp: queue_cells_def)
  define h' where "h' = ?h\<lparr>live := (live ?h)(a := False)\<rparr>"
  have seg: "lseg h' (it_next it) bs None"
    using it(4) dist by (subst lseg_cong [of _ _ ?h]) (auto simp: h'_def)
  have tail: "(q_tail q = Some a) = (bs = [])"
    using assms Cons dist by (auto simp: queue_cells_def)
  have nil: "bs = [] \<Longrightarrow> it_next it = None" using it(4) by simp
  have "queue_front_and_pop_custom null q notify lock = Inr (it_d it,
     call notify Broadcast (call lock Unlock ((call lock Wrlock q)\<lparr>q_head := it_next it,
        q_tail := (if bs = [] then None else q_tail q), q_heap := h', q_size := q_size q - 1\<rparr>)))"
    using it tail nil
    by (cases "bs = []") (auto simp: queue_front_and_pop_custom_def deref_def free_item_def h'_def Let_def)
  with assms Cons it seg inv dist show ?thesis
    by (auto simp: queue_cells_def h'_def heap_inv_def payload_def fun_eq_iff)
qed

lemma queue_rep_front_and_pop:
  assumes "queue_rep q xs"
  shows "\<exists>q'. queue_front_and_pop_custom null q notify lock = Inr (if xs = [] then null else hd xs, q')
     \<and> queue_rep q' (tl xs) \<and> tolerant (q_heap q') = tolerant (q_heap q)
     \<and> brk (q_heap q') = brk (q_heap q)
     \<and> q_calls q' = q_calls q @ (if lock then [Wrlock, Unlock] else [])
         @ (if notify then [Broadcast] else [])"
proof -
  from assms obtain as where as: "queue_cells q as" and xs: "xs = map (payload (q_heap q)) as"
    by (auto simp: queue_rep_def)
  have "xs = [] \<longleftrightarrow> as = []" "as \<noteq> [] \<Longrightarrow> hd xs = payload (q_heap q) (hd as)"
    "tl xs = map (payload (q_heap q)) (tl as)" by (auto simp: xs hd_map map_tl)
  with queue_cells_front_and_pop [OF as, of null notify lock] show ?thesis
    by (auto simp: queue_rep_def split: if_splits)
qed

lemma queue_rep_pop:
  assumes "queue_rep q xs"
  shows "\<exists>q'. queue_pop_custom q notify lock = Inr q' \<and> queue_rep q' (tl xs)
     \<and> tolerant (q_heap q') = tolerant (q_heap q) \<and> brk (q_heap q') = brk (q_heap q)
     \<and> q_calls q' = q_calls q @ (if lock then [Wrlock, Unlock] else [])
         @ (if notify then [Broadcast] else [])"
  using queue_rep_front_and_pop [OF assms, of "hd xs" notify lock]
  by (auto simp: front_and_pop_pop [where null = "hd xs"])

lemma queue_rep_head: "queue_rep q xs \<Longrightarrow> (q_head q = None) = (xs = [])"
  by (auto simp: queue_rep_def queue_cells_def neq_Nil_conv)
    (metis lseg.simps(1) list.exhaust lseg.simps(2) option.distinct(1))

lemma queue_rep_tail: "queue_rep q xs \<Longrightarrow> (q_tail q = None) = (xs = [])"
  by (auto simp: queue_rep_def queue_cells_def split: if_splits)

lemma queue_rep_is_empty:
  "queue_rep q xs \<Longrightarrow> queue_is_empty_custom q lock =
     Inr (xs = [], call lock Unlock (call lock Rdlock q))"
  using queue_rep_head [of q xs] queue_rep_tail [of q xs]
  by (cases "xs = []") (auto simp: queue_is_empty_custom_def Let_def)

lemma queue_rep_front:
  assumes "queue_rep q xs"
  shows "queue_front_custom null q lock = Inr (if xs = [] then null else hd xs,
     call (lock \<or> xs \<noteq> []) Unlock (call lock Rdlock q))"
proof (cases xs)
  case Nil
  with assms show ?thesis using queue_rep_head [of q xs] by (auto simp: queue_front_custom_def Let_def)
next
  case (Cons x ys)
  with assms obtain a it where "q_head q = Some a" "live (q_heap q) a" "mem (q_heap q) a = Some it" "it_d it = x"
    by (auto simp: queue_rep_def queue_cells_def payload_def Cons_eq_map_conv)
  with Cons show ?thesis by (simp add: queue_front_custom_def deref_def Let_def)
qed

lemma queue_rep_back:
  assumes "queue_rep q xs"
  shows "queue_back_custom null q lock = Inr (if xs = [] then null else last xs,
     call (lock \<or> xs \<noteq> []) Unlock (call lock Rdlock q))"
proof (cases xs rule: rev_cases)
  case Nil
  with assms show ?thesis using queue_rep_tail [of q xs] by (auto simp: queue_back_custom_def Let_def)
next
  case (snoc ys x)
  with assms obtain as where as: "queue_cells q as" "ys @ [x] = map (payload (q_heap q)) as"
    by (auto simp: queue_rep_def)
  then obtain bs a where "as = bs @ [a]" by (cases as rule: rev_cases) auto
  with as obtain it where "q_tail q = Some a" "live (q_heap q) a" "mem (q_heap q) a = Some it" "it_d it = x"
    by (auto simp: queue_cells_def payload_def lseg_append)
  with snoc show ?thesis by (simp add: queue_back_custom_def deref_def Let_def)
qed

lemma dump_loop_lseg:
  "lseg h p as None \<Longrightarrow> length as \<le> n \<Longrightarrow>
     dump_loop n h f p dest = Inr (fold f (map (payload h) as) dest)"
proof (induction as arbitrary: n p dest)
  case (Cons a as)
  then obtain m where "n = Suc m" by (cases n) auto
  with Cons show ?case by (auto simp: deref_def payload_def)
qed simp

lemma queue_rep_dump:
  assumes "queue_rep q xs"
  shows "queue_print_func_dump_custom q f dest lock =
     Inr (fold f xs dest, call lock Unlock (call lock Rdlock q))"
proof -
  from assms obtain as where as: "queue_cells q as" and xs: "xs = map (payload (q_heap q)) as"
    by (auto simp: queue_rep_def)
  then have "length as \<le> Suc (brk (q_heap q))"
    using cells_bound [of "q_heap q" "q_head q" as None] by (auto simp: queue_cells_def)
  with as xs show ?thesis
    using dump_loop_lseg [of "q_heap q" "q_head q" as "Suc (brk (q_heap q))" f dest]
    by (simp add: queue_print_func_dump_custom_def queue_cells_def Let_def del: dump_loop.simps)
qed

lemma queue_rep_size:
  assumes "queue_rep q xs" and "length xs < 2 ^ 31"
  shows "queue_size_custom q lock = (of_nat (length xs), call lock Unlock (call lock Rdlock q))"
proof -
  from assms(1) have size: "q_size q = of_nat (length xs)"
    by (auto simp: queue_rep_def queue_cells_def)
  let ?w = "of_nat (length xs) :: uint"
  from assms(2) have "unat ?w = length xs" by (simp add: unat_of_nat)
  with assms(2) have "sint ?w = int (length xs)" by (simp add: sint_eq_unat)
  then have "(scast ?w :: size_t) = of_nat (length xs)" by (simp add: scast_eq)
  moreover from assms(2) have "take_bit 64 (length xs) = length xs"
    by (simp add: take_bit_nat_eq_self)
  ultimately show ?thesis using size by (simp add: queue_size_custom_def Let_def unsigned_of_nat)
qed

section \<open>Selective removal\<close>

lemma selective_remove_spec_map:
  "selective_remove_spec del first c (map g as) =
     (case selective_remove_spec (\<lambda>c f a. del c f (g a)) first c as of
        (ks, ds, c') \<Rightarrow> (map g ks, map g ds, c'))"
  by (induction as arbitrary: first c) (auto split: prod.splits)

lemma selective_remove_spec_set:
  "selective_remove_spec del first c xs = (ks, ds, c') \<Longrightarrow> set xs = set ks \<union> set ds"
  by (induction xs arbitrary: first c ks ds) (auto split: prod.splits if_splits)

lemma selective_remove_spec_length:
  "selective_remove_spec del first c xs = (ks, ds, c') \<Longrightarrow> length xs = length ks + length ds"
  by (induction xs arbitrary: first c ks ds) (auto split: prod.splits if_splits)

lemma selective_remove_spec_distinct:
  "selective_remove_spec del first c xs = (ks, ds, c') \<Longrightarrow> distinct xs \<Longrightarrow>
     distinct ks \<and> set ks \<inter> set ds = {}"
proof (induction xs arbitrary: first c ks ds)
  case (Cons x xs)
  obtain dl c1 where del: "del c first x = (dl, c1)" by fastforce
  obtain ks1 ds1 c2 where rec: "selective_remove_spec del False c1 xs = (ks1, ds1, c2)"
    by (rule prod_cases3)
  have "distinct ks1 \<and> set ks1 \<inter> set ds1 = {}" using Cons.IH [of False c1 ks1 ds1] Cons.prems del rec
    by (auto split: if_splits)
  moreover have "x \<notin> set ks1 \<union> set ds1"
    using Cons.prems(2) selective_remove_spec_set [OF rec] by simp
  ultimately show ?case using Cons.prems(1) del rec by (auto split: if_splits)
qed simp

lemma freed_simps [simp]:
  "mem (freed h ds) = mem h" "brk (freed h ds) = brk h" "tolerant (freed h ds) = tolerant h"
  "live (freed h ds) a = (live h a \<and> a \<notin> set ds)"
  by (simp_all add: freed_def)

lemma freed_Nil [simp]: "freed h [] = h"
  by (simp add: freed_def)

lemma freed_Cons: "live h a \<Longrightarrow> freed (h\<lparr>live := (live h)(a := False)\<rparr>) ds = freed h (a # ds)"
  by (rule heap_t.equality) (auto simp: freed_def fun_eq_iff)

lemma remove_loop_lseg:
  assumes "lseg h p as None" and "length as \<le> n" and "distinct as" and "tolerant h"
    and "selective_remove_spec (\<lambda>c f a. del c f (payload h a)) first c as = (ks, ds, c')"
  shows "remove_loop n del h p first c dels pres =
     Inr (freed h ds, c', dels @ map (payload h) ds, pres @ ks)"
  using assms
proof (induction as arbitrary: n h p first c dels pres ks ds)
  case (Cons a as)
  then obtain m it where n: "n = Suc m" and it: "mem h a = Some it" "live h a" "p = Some a"
      "lseg h (it_next it) as None" and a: "a \<notin> set as" "distinct as" by (cases n) auto
  obtain dl c1 where del: "del c first (payload h a) = (dl, c1)" by fastforce
  obtain ks1 ds1 c2 where rec: "selective_remove_spec (\<lambda>c f a. del c f (payload h a)) False c1 as = (ks1, ds1, c2)"
    by (rule prod_cases3)
  from Cons.prems(5) del rec have c2: "c2 = c'" by (auto split: if_splits)
  let ?h = "h\<lparr>live := (live h)(a := False)\<rparr>"
  have pl: "payload ?h = payload h" by (simp add: payload_def fun_eq_iff)
  have it_d: "it_d it = payload h a" by (simp add: payload_def it)
  show ?case
  proof (cases dl)
    case True
    have "lseg ?h (it_next it) as None" using it(4) a by (subst lseg_cong [of _ _ h]) auto
    then have "remove_loop m del ?h (it_next it) False c1 (dels @ [payload h a]) pres =
       Inr (freed ?h ds1, c2, (dels @ [payload h a]) @ map (payload h) ds1, pres @ ks1)"
      using Cons.IH [of ?h "it_next it" m False c1 ks1 ds1 "dels @ [payload h a]" pres]
        Cons.prems n rec a c2 by (simp add: pl)
    then show ?thesis
      using True Cons.prems del rec it n it_d
      by (auto simp: deref_def free_item_def freed_Cons)
  next
    case False
    then show ?thesis
      using Cons.IH [of h "it_next it" m False c1 ks1 ds1 dels "pres @ [a]"] Cons.prems n rec a it del it_d c2
      by (auto simp: deref_def)
  qed
qed simp

lemma remove_loop_strict:
  assumes "lseg h p as None" and "length as \<le> n" and "distinct as" and "\<not> tolerant h"
    and "selective_remove_spec (\<lambda>c f a. del c f (payload h a)) first c as = (ks, ds, c')"
  shows "remove_loop n del h p first c dels pres =
     (if ds = [] then Inr (h, c', dels, pres @ ks) else Inl Use_After_Free)"
  using assms
proof (induction as arbitrary: n p first c dels pres ks ds)
  case (Cons a as)
  then obtain m it where n: "n = Suc m" and it: "mem h a = Some it" "live h a" "p = Some a"
      "lseg h (it_next it) as None" by (cases n) auto
  have it_d: "it_d it = payload h a" by (simp add: payload_def it)
  obtain ks1 ds1 c2 where rec: "selective_remove_spec (\<lambda>c f a. del c f (payload h a)) False
       (snd (del c first (payload h a))) as = (ks1, ds1, c2)"
    by (rule prod_cases3)
  show ?case
    using Cons.IH [of "it_next it" m False _ ks1 ds1 dels "pres @ [a]"] Cons.prems n it it_d rec
    by (auto simp: deref_def free_item_def split: prod.splits if_splits)
qed simp

lemma relink_lseg:
  assumes "distinct as" and "\<And>a. a \<in> set as \<Longrightarrow> live h a \<and> (\<exists>it. mem h a = Some it)"
  shows "\<exists>h'. relink h as = Inr h' \<and> lseg h' (case as of [] \<Rightarrow> None | a # _ \<Rightarrow> Some a) as None
     \<and> live h' = live h \<and> brk h' = brk h \<and> tolerant h' = tolerant h
     \<and> payload h' = payload h \<and> (\<forall>a. a \<notin> set as \<longrightarrow> mem h' a = mem h a)"
  using assms
proof (induction h as rule: relink.induct)
  case (2 h a)
  then show ?case by (auto simp: store_next_def payload_def fun_eq_iff)
next
  case (3 h a b as)
  from 3(3) [of a] obtain it where it: "live h a" "mem h a = Some it" by auto
  define h1 where "h1 = h\<lparr>mem := (mem h)(a \<mapsto> it\<lparr>it_next := Some b\<rparr>)\<rparr>"
  have st: "store_next h (Some a) (Some b) = Inr h1" using it by (simp add: store_next_def h1_def)
  have "\<exists>it. mem h1 c = Some it" if "c \<in> set (b # as)" for c
    using 3(3) [of c] that by (auto simp: h1_def)
  then have "\<exists>h'. relink h1 (b # as) = Inr h' \<and> lseg h' (Some b) (b # as) None
     \<and> live h' = live h1 \<and> brk h' = brk h1 \<and> tolerant h' = tolerant h1
     \<and> payload h' = payload h1 \<and> (\<forall>a. a \<notin> set (b # as) \<longrightarrow> mem h' a = mem h1 a)"
    using 3 st by (auto simp: h1_def)
  moreover have "payload h1 = payload h" using it by (auto simp: h1_def payload_def fun_eq_iff)
  moreover have "a \<notin> set (b # as)" using 3(2) by simp
  ultimately show ?case using st it by (auto simp: h1_def)
qed simp

lemma queue_rep_selective_remove:
  assumes "queue_rep q xs" and tol: "tolerant (q_heap q)"
    and spec: "selective_remove_spec del True c xs = (ks, ds, c')" and ok: "deallocate \<longrightarrow> ok1"
  shows "\<exists>q'. queue_selective_remove ok1 True del c q deallocate lock =
       Inr (length ds, c', if deallocate then ds else [], q')
     \<and> queue_rep q' ks \<and> tolerant (q_heap q')
     \<and> q_calls q' = q_calls q @ (if lock then [Wrlock, Unlock] else [])"
proof -
  let ?h = "q_heap q"
  from assms(1) obtain as where as: "queue_cells q as" and xs: "xs = map (payload ?h) as"
    by (auto simp: queue_rep_def)
  obtain kas das where sp: "selective_remove_spec (\<lambda>c f a. del c f (payload ?h a)) True c as = (kas, das, c')"
    and ks: "ks = map (payload ?h) kas" and ds: "ds = map (payload ?h) das"
    using spec by (auto simp: xs selective_remove_spec_map split: prod.splits)
  from as have inv: "heap_inv ?h" and dist: "distinct as" and seg: "lseg ?h (q_head q) as None"
    and size: "q_size q = of_nat (length as)" by (auto simp: queue_cells_def)
  from selective_remove_spec_set [OF sp] selective_remove_spec_length [OF sp]
    selective_remove_spec_distinct [OF sp dist] have
    parts: "set as = set kas \<union> set das" "length as = length kas + length das"
      "distinct kas" "set kas \<inter> set das = {}" by auto
  have "length as \<le> Suc (brk ?h)" using cells_bound [OF inv seg dist] by simp
  from remove_loop_lseg [OF seg this dist tol sp]
  have loop: "remove_loop (Suc (brk ?h)) del ?h (q_head q) True c [] [] =
      Inr (freed ?h das, c', ds, kas)" by (simp add: ds del: remove_loop.simps)
  have "live (freed ?h das) a \<and> (\<exists>it. mem (freed ?h das) a = Some it)" if "a \<in> set kas" for a
    using that parts lseg_mem [OF seg, of a] by auto
  from relink_lseg [OF parts(3) this] obtain h' where h': "relink (freed ?h das) kas = Inr h'"
      "lseg h' (case kas of [] \<Rightarrow> None | a # _ \<Rightarrow> Some a) kas None"
      "live h' = live (freed ?h das)" "brk h' = brk ?h" "tolerant h'"
      "payload h' = payload (freed ?h das)" using tol by auto
  have pl: "payload h' = payload ?h" by (simp add: h'(6) payload_def fun_eq_iff)
  have "heap_inv h'" using inv h'(3,4) by (auto simp: heap_inv_def)
  moreover have "of_nat (length kas + length das) = q_size q" using parts(2) size by simp
  ultimately show ?thesis
    using ok loop h' parts(3) pl tol
    by (auto simp: queue_selective_remove_def queue_rep_def queue_cells_def ks ds Let_def
        simp del: remove_loop.simps of_nat_add)
qed

lemma queue_selective_remove_strict:
  assumes "queue_rep q xs" and "\<not> tolerant (q_heap q)"
    and spec: "selective_remove_spec del True c xs = (ks, ds, c')" and "ds \<noteq> []"
  shows "queue_selective_remove True True del c q deallocate lock = Inl Use_After_Free"
proof -
  let ?h = "q_heap q"
  from assms(1) obtain as where as: "queue_cells q as" and xs: "xs = map (payload ?h) as"
    by (auto simp: queue_rep_def)
  obtain kas das where sp: "selective_remove_spec (\<lambda>c f a. del c f (payload ?h a)) True c as = (kas, das, c')"
    and ds: "ds = map (payload ?h) das"
    using spec by (auto simp: xs selective_remove_spec_map split: prod.splits)
  from as have inv: "heap_inv ?h" and dist: "distinct as" and seg: "lseg ?h (q_head q) as None"
    by (auto simp: queue_cells_def)
  have "length as \<le> Suc (brk ?h)" using cells_bound [OF inv seg dist] by simp
  from remove_loop_strict [OF seg this dist assms(2) sp] assms(4) show ?thesis
    by (simp add: queue_selective_remove_def ds Let_def del: remove_loop.simps)
qed

section \<open>The destructor\<close>

lemma destroy_loop_rep:
  assumes "queue_rep q xs" and "length xs \<le> n"
  shows "\<exists>q'. destroy_loop n null deallocate q fr = Inr (fr @ (if deallocate then xs else []), q')
     \<and> queue_rep q' []"
  using assms
proof (induction n arbitrary: q xs fr)
  case 0
  then show ?case by (auto simp: queue_is_empty_def queue_rep_is_empty)
next
  case (Suc n)
  let ?q1 = "call True Unlock (call True Rdlock q)"
  let ?q2 = "call True Unlock (call True Rdlock ?q1)"
  show ?case
  proof (cases xs)
    case Nil
    with Suc.prems show ?thesis by (auto simp: queue_is_empty_def queue_rep_is_empty)
  next
    case (Cons x ys)
    define q2 where "q2 = (if deallocate then ?q2 else ?q1)"
    have rep: "queue_rep ?q1 xs" "queue_rep q2 xs" using Suc.prems(1) by (simp_all add: q2_def)
    from queue_rep_pop [OF rep(2), of True True] Cons obtain q3 where
      q3: "queue_pop q2 = Inr q3" "queue_rep q3 ys" by (auto simp: queue_pop_def)
    have front: "(if deallocate then rbind (queue_front null ?q1) (\<lambda>(d, q2). Inr (fr @ [d], q2))
        else Inr (fr, ?q1)) = Inr (fr @ (if deallocate then [x] else []), q2)"
      using Cons queue_rep_front [OF rep(1), of null True] by (simp add: queue_front_def q2_def)
    from Suc.IH [OF q3(2), of "fr @ (if deallocate then [x] else [])"] Suc.prems Cons q3(1) front
    show ?thesis by (auto simp: queue_is_empty_def queue_rep_is_empty)
  qed
qed

lemma queue_rep_length: "queue_rep q xs \<Longrightarrow> length xs \<le> brk (q_heap q)"
  by (auto simp: queue_rep_def queue_cells_def intro: cells_bound)

lemma queue_rep_destructor:
  "queue_rep q xs \<Longrightarrow> \<exists>q'. queue_destructor null q deallocate = Inr (if deallocate then xs else [], q')
     \<and> queue_rep q' []"
  unfolding queue_destructor_def
  using destroy_loop_rep [of q xs "Suc (brk (q_heap q))" null deallocate "[]"] queue_rep_length [of q xs]
  by (simp del: destroy_loop.simps)

section \<open>The linked queue implements the interface\<close>

lemma queue_list_rep: "queue_rep q xs \<Longrightarrow> queue_list q = xs"
proof -
  have "fold (\<lambda>x xs. xs @ [x]) xs ys = ys @ xs" for ys :: "'a list" by (induction xs arbitrary: ys) auto
  then show "queue_rep q xs \<Longrightarrow> queue_list q = xs"
    by (simp add: queue_list_def queue_print_func_dump_def queue_rep_dump)
qed

lemma queue_wf_rep: "queue_wf q \<longleftrightarrow> queue_rep q (queue_list q)"
  by (auto simp: queue_wf_def queue_list_rep)

lemma queue_repI: "queue_rep q xs \<Longrightarrow> queue_wf q \<and> queue_list q = xs"
  by (auto simp: queue_wf_def queue_list_rep)

interpretation linked: fifo "linked_ops null" queue_wf queue_list
proof unfold_locales
  fix q :: "'a queue_t" and x xs
  assume "queue_wf q"
  then obtain ys where rep: "queue_rep q ys" and ys: "queue_list q = ys"
    by (auto simp: queue_wf_def queue_list_rep)
  let ?q1 = "call True Unlock (call True Rdlock q)"
  have rep1: "queue_rep ?q1 ys" using rep by simp
  show "\<exists>q'. op_is_empty (linked_ops null) q = Inr (queue_list q = [], q') \<and> queue_wf q'
      \<and> queue_list q' = queue_list q"
    using queue_repI [OF rep1] by (simp add: linked_ops_def queue_is_empty_def queue_rep_is_empty [OF rep] ys)
  show "\<exists>q'. op_push (linked_ops null) q x = Inr q' \<and> queue_wf q' \<and> queue_list q' = queue_list q @ [x]"
    using queue_rep_push [OF rep, of x True True]
    by (auto simp: linked_ops_def queue_push_def ys dest!: queue_repI)
  assume xs: "queue_list q = x # xs"
  from queue_rep_pop [OF rep1, of True True] xs ys obtain q2 where
    "queue_pop ?q1 = Inr q2" "queue_rep q2 xs" by (auto simp: queue_pop_def)
  then show "\<exists>q'. op_take (linked_ops null) q = Inr (x, q') \<and> queue_wf q' \<and> queue_list q' = xs"
    using queue_rep_front [OF rep, of null True] xs ys
    by (auto simp: linked_ops_def queue_take_def queue_front_def dest!: queue_repI)
qed

lemma queue_rep_exists: "\<exists>q. queue_rep q xs \<and> tolerant (q_heap q) = t"
proof (induction xs rule: rev_induct)
  case Nil
  have "tolerant (q_heap (fresh_queue t)) = t" by (simp add: fresh_queue_def empty_heap_def)
  with fresh_queue_rep show ?case by blast
next
  case (snoc x xs)
  then obtain q where "queue_rep q xs" "tolerant (q_heap q) = t" by blast
  with queue_rep_push [of q xs x True True] show ?case by auto
qed

section \<open>Properties\<close>

text \<open>
  C12. \<^verbatim>\<open>queue_push_custom\<close> on a queue that holds \<open>xs\<close> leaves a queue that holds \<open>xs @ [d]\<close>; it
  takes and returns the write lock exactly when asked to and then announces the change.
\<close>

theorem queue_push_refines:
  assumes "queue_rep q xs"
  shows "\<exists>q'. queue_push_custom True q d notify lock = Inr q' \<and> queue_rep q' (xs @ [d])
     \<and> q_calls q' = q_calls q @ (if lock then [Wrlock, Unlock] else [])
         @ (if notify then [Broadcast] else [])"
  using queue_rep_push [OF assms, of d notify lock] by blast

theorem queue_push_refines_witness:
  "\<exists>q q'. queue_rep q [1, 2::nat] \<and> queue_push_custom True q 3 True False = Inr q'
     \<and> queue_rep q' [1, 2, 3] \<and> q_calls q' = q_calls q @ [Broadcast]"
proof -
  obtain q where q: "queue_rep q [1, 2::nat]" using queue_rep_exists by blast
  from queue_push_refines [OF q, of 3 True False] q show ?thesis by auto
qed

text \<open>
  \<^verbatim>\<open>queue_front_and_pop_custom\<close> returns and removes the oldest element; on an empty queue it
  returns \<^verbatim>\<open>NULL\<close> and leaves it empty. Neither assertion of the function can fail, no freed cell
  is read and none is freed twice.
\<close>

theorem queue_front_and_pop_refines:
  assumes "queue_rep q xs"
  shows "\<exists>q'. queue_front_and_pop_custom null q notify lock = Inr (if xs = [] then null else hd xs, q')
     \<and> queue_rep q' (tl xs)
     \<and> q_calls q' = q_calls q @ (if lock then [Wrlock, Unlock] else [])
         @ (if notify then [Broadcast] else [])"
  using queue_rep_front_and_pop [OF assms, of null notify lock] by blast

theorem queue_front_and_pop_refines_witness:
  "\<exists>q q'. queue_rep q [4, 5::nat] \<and> queue_front_and_pop_custom 0 q True True = Inr (4, q')
     \<and> queue_rep q' [5] \<and> q_calls q' = q_calls q @ [Wrlock, Unlock, Broadcast]"
proof -
  obtain q where q: "queue_rep q [4, 5::nat]" using queue_rep_exists by blast
  from queue_front_and_pop_refines [OF q, of 0 True True] q show ?thesis by auto
qed

text \<open>
  C17. On a C library where a freed cell keeps its \<^verbatim>\<open>next\<close> field and a block of size zero reads as
  \<^verbatim>\<open>NULL\<close>, \<^verbatim>\<open>queue_selective_remove\<close> keeps exactly the elements its callback spares, in order,
  reports how many it deleted, hands the deleted payloads to \<^verbatim>\<open>free\<close> when asked to, and rebuilds a
  well-formed list: the assertion on the size cannot fail.
\<close>

theorem queue_selective_remove_refines:
  assumes "queue_rep q xs" and "tolerant (q_heap q)"
    and "selective_remove_spec del True c xs = (ks, ds, c')" and "deallocate \<longrightarrow> ok1"
  shows "\<exists>q'. queue_selective_remove ok1 True del c q deallocate lock =
       Inr (length ds, c', if deallocate then ds else [], q') \<and> queue_rep q' ks
     \<and> q_calls q' = q_calls q @ (if lock then [Wrlock, Unlock] else [])"
  using queue_rep_selective_remove [OF assms, of lock] by blast

theorem queue_selective_remove_refines_witness:
  "\<exists>q q'. queue_rep q [1, 2, 3, 4::nat]
     \<and> queue_selective_remove True True (\<lambda>c f x. (even x, c + x)) (0::nat) q True True =
         Inr (2, 10, [2, 4], q')
     \<and> queue_rep q' [1, 3] \<and> q_calls q' = q_calls q @ [Wrlock, Unlock]"
proof -
  obtain q where q: "queue_rep q [1, 2, 3, 4::nat]" "tolerant (q_heap q)"
    using queue_rep_exists [of _ True] by blast
  have "selective_remove_spec (\<lambda>c f x. (even x, c + x)) True (0::nat) [1, 2, 3, 4::nat] =
      ([1, 3], [2, 4], 10)" by simp
  from queue_selective_remove_refines [OF q this, of True True True] q show ?thesis by auto
qed

text \<open>
  \<^verbatim>\<open>queue_selective_remove\<close> frees an item and then reads its \<^verbatim>\<open>next\<close> field in the loop header:
  as soon as the callback deletes one element, the function reads memory after it was freed.
\<close>

theorem queue_selective_remove_use_after_free:
  assumes "queue_rep q xs" and "\<not> tolerant (q_heap q)"
    and "selective_remove_spec del True c xs = (ks, ds, c')" and "ds \<noteq> []"
  shows "queue_selective_remove True True del c q deallocate lock = Inl Use_After_Free"
  by (rule queue_selective_remove_strict [OF assms])

theorem queue_selective_remove_use_after_free_witness:
  "\<exists>q. queue_rep q [7::nat] \<and>
     queue_selective_remove True True (\<lambda>c f x. (True, c)) () q False True = Inl Use_After_Free"
proof -
  obtain q where q: "queue_rep q [7::nat]" "\<not> tolerant (q_heap q)"
    using queue_rep_exists [of _ False] by blast
  have "selective_remove_spec (\<lambda>c f x. (True, c)) True () [7::nat] = ([], [7], ())" by simp
  from queue_selective_remove_use_after_free [OF q this, of False True] q show ?thesis by auto
qed

text \<open>
  \<^verbatim>\<open>queue_front_custom\<close> and \<^verbatim>\<open>queue_back_custom\<close> return the oldest and the newest element; but
  when the queue is not empty they release the lock even if they were told not to take it: called
  with \<open>lock = False\<close> they unlock a lock that the caller holds.
\<close>

theorem queue_front_back_unlock:
  assumes "queue_rep q xs" and "xs \<noteq> []"
  shows "\<exists>q1 q2. queue_front_custom null q lock = Inr (hd xs, q1)
     \<and> queue_back_custom null q lock = Inr (last xs, q2)
     \<and> q_calls q1 = q_calls q @ (if lock then [Rdlock] else []) @ [Unlock] \<and> q_calls q2 = q_calls q1"
  using assms queue_rep_front [OF assms(1), of null lock] queue_rep_back [OF assms(1), of null lock]
  by auto

theorem queue_front_back_unlock_witness:
  "\<exists>q q1. queue_rep q [8, 9::nat] \<and> queue_front_custom 0 q False = Inr (8, q1)
     \<and> q_calls q1 = q_calls q @ [Unlock]"
proof -
  obtain q where q: "queue_rep q [8, 9::nat]" using queue_rep_exists by blast
  from queue_front_back_unlock [OF q, of 0 False] q show ?thesis by auto
qed

text \<open>
  \<^verbatim>\<open>queue_destructor\<close> terminates on every well-formed queue, empties it, and with \<open>deallocate\<close>
  passes every payload to \<^verbatim>\<open>free\<close> exactly once, oldest first.
\<close>

theorem queue_destructor_frees_all:
  assumes "queue_rep q xs"
  shows "\<exists>q'. queue_destructor null q deallocate = Inr (if deallocate then xs else [], q')
     \<and> queue_rep q' []"
  using assms by (rule queue_rep_destructor)

theorem queue_destructor_frees_all_witness:
  "\<exists>q q'. queue_rep q [6, 6, 7::nat] \<and> queue_destructor 0 q True = Inr ([6, 6, 7], q') \<and> queue_rep q' []"
proof -
  obtain q where q: "queue_rep q [6, 6, 7::nat]" using queue_rep_exists by blast
  from queue_destructor_frees_all [OF q, of 0 True] q show ?thesis by auto
qed

text \<open>
  First in, first out: pushing a list into a new queue and then running the loop
  \<^verbatim>\<open>while (!queue_is_empty(q)) { queue_front(q); queue_pop(q); }\<close> yields the list again and ends
  after as many rounds as there are elements.
\<close>

theorem queue_fifo_roundtrip:
  "\<exists>q. rbind (rfold queue_push (fresh_queue t) xs) (\<lambda>q1. drain (linked_ops null) (length xs) q1 []) =
     Inr (xs, q) \<and> queue_list q = []"
proof -
  from queue_repI [OF fresh_queue_rep] have "queue_wf (fresh_queue t)" "queue_list (fresh_queue t) = []"
    by blast+
  from linked.push_all_drain [OF this order_refl, of null xs] show ?thesis
    by (simp add: linked_ops_def)
qed

end
