(* ===== verification/Float32.thy ===== *)
theory Float32 imports Prelude Complex_Main
begin

text \<open>
  The binary32 arithmetic that \<^verbatim>\<open>calc_tier_number\<close>, \<^verbatim>\<open>calc_quantum_times\<close> and the simulator use
  (\<^verbatim>\<open>float\<close>, \<^verbatim>\<open>ceilf\<close>): a non-negative finite \<^verbatim>\<open>float\<close> is the rational number it denotes, and the
  result of an operation is the exact result rounded to 24 significant bits, ties to even. All
  operands of the sources are converted from \<^verbatim>\<open>unsigned int\<close>, so no operation overflows or
  underflows: results lie between \<open>2 ^ -64\<close> and \<open>2 ^ 64\<close>.
\<close>

section \<open>Rounding\<close>

definition rne :: "rat \<Rightarrow> int" where
  "rne x = (let f = \<lfloor>x\<rfloor>; r = x - of_int f in
     if r < 1 / 2 then f else if 1 / 2 < r then f + 1 else if even f then f else f + 1)"

text \<open>The position of the leading bit of a positive integer.\<close>

function int_log2 :: "int \<Rightarrow> int" where
  "int_log2 n = (if n \<le> 1 then 0 else 1 + int_log2 (n div 2))"
  by pat_completeness auto
termination
  by (relation "measure nat") auto

text \<open>The exponent \<open>e\<close> with \<open>2 ^ 23 \<le> x / 2 ^ e < 2 ^ 24\<close>.\<close>

definition f32_exp :: "rat \<Rightarrow> int" where
  "f32_exp x = (case quotient_of x of (n, d) \<Rightarrow>
     let k = int_log2 n - int_log2 d in if 2 powi k \<le> x then k - 23 else k - 24)"

definition f32 :: "rat \<Rightarrow> rat" where
  "f32 x = (if x \<le> 0 then 0 else of_int (rne (x / 2 powi f32_exp x)) * 2 powi f32_exp x)"

text \<open>Conversions from and to \<^verbatim>\<open>unsigned int\<close> and \<^verbatim>\<open>int\<close>; out of range they are undefined.\<close>

definition uint_to_f32 :: "uint \<Rightarrow> rat" where
  "uint_to_f32 w = f32 (of_int (uint w))"

definition int_of_f32 :: "int \<Rightarrow> int res" where
  "int_of_f32 c = (if int_min \<le> c \<and> c \<le> int_max then Inr c else Inl Bad_Conversion)"

definition uint_of_f32 :: "int \<Rightarrow> uint res" where
  "uint_of_f32 c = (if 0 \<le> c \<and> c < 2 ^ 32 then Inr (of_int c) else Inl Bad_Conversion)"

section \<open>Round to nearest\<close>

lemma rne_cases: "rne x = \<lfloor>x\<rfloor> \<or> rne x = \<lfloor>x\<rfloor> + 1"
  by (auto simp: rne_def Let_def)

lemma rne_of_int [simp]: "rne (of_int k) = k"
  by (simp add: rne_def)

lemma rne_error: "\<bar>of_int (rne x) - x\<bar> \<le> 1 / 2"
proof -
  define f where "f = \<lfloor>x\<rfloor>"
  have "of_int f \<le> x" "x < of_int f + 1" unfolding f_def by linarith+
  then show ?thesis unfolding abs_le_iff by (auto simp: rne_def Let_def simp flip: f_def)
qed

lemma rne_le: "x \<le> of_int k \<Longrightarrow> rne x \<le> k"
proof (rule ccontr)
  assume "x \<le> of_int k" and "\<not> rne x \<le> k"
  then have "x \<le> of_int (rne x) - 1" by (auto simp flip: of_int_less_iff)
  with rne_error [of x] show False by (auto simp: abs_le_iff)
qed

lemma rne_ge: "of_int k \<le> x \<Longrightarrow> k \<le> rne x"
proof -
  assume "of_int k \<le> x"
  then have "k \<le> \<lfloor>x\<rfloor>" by (simp add: le_floor_iff)
  with rne_cases [of x] show ?thesis by auto
qed

lemma rne_mono: "x \<le> y \<Longrightarrow> rne x \<le> rne y"
proof -
  assume le: "x \<le> y"
  then have fl: "\<lfloor>x\<rfloor> \<le> \<lfloor>y\<rfloor>" by (rule floor_mono)
  show ?thesis
  proof (cases "\<lfloor>x\<rfloor> = \<lfloor>y\<rfloor>")
    case True
    with le show ?thesis by (auto simp: rne_def Let_def)
  next
    case False
    with fl rne_cases [of x] rne_cases [of y] show ?thesis by auto
  qed
qed

section \<open>The exponent\<close>

lemma powi_add_nat: "(2::rat) powi (k + int n) = 2 powi k * 2 ^ n"
  by (simp add: power_int_add)

declare int_log2.simps [simp del]

lemma int_log2_nonneg: "0 \<le> int_log2 n"
proof (induction n rule: int_log2.induct)
  case (1 n)
  then show ?case by (subst int_log2.simps) simp
qed

lemma int_log2_int_bounds: "0 < n \<Longrightarrow> 2 ^ nat (int_log2 n) \<le> n \<and> n < 2 * 2 ^ nat (int_log2 n)"
proof (induction n rule: int_log2.induct)
  case (1 n)
  show ?case
  proof (cases "n \<le> 1")
    case True
    with "1.prems" have "n = 1" by simp
    then show ?thesis by (simp add: int_log2.simps)
  next
    case False
    let ?m = "n div 2"
    from False have "int_log2 n = 1 + int_log2 ?m" by (subst int_log2.simps) simp
    then have step: "nat (int_log2 n) = Suc (nat (int_log2 ?m))" using int_log2_nonneg [of ?m] by simp
    from False have "0 < ?m" by simp
    with "1.IH" [OF False] have "2 ^ nat (int_log2 ?m) \<le> ?m" "?m < 2 * 2 ^ nat (int_log2 ?m)" by auto
    then show ?thesis unfolding step power_Suc by linarith
  qed
qed

lemma int_log2_bounds:
  assumes "0 < n"
  shows "2 powi int_log2 n \<le> (of_int n :: rat)" and "(of_int n :: rat) < 2 powi (int_log2 n + 1)"
proof -
  have e: "(2::rat) powi int_log2 n = of_int (2 ^ nat (int_log2 n))"
    using int_log2_nonneg [of n] by (simp add: power_int_def)
  show "2 powi int_log2 n \<le> (of_int n :: rat)"
    unfolding e of_int_le_iff using int_log2_int_bounds [OF assms] by simp
  have "(of_int n :: rat) < of_int (2 * 2 ^ nat (int_log2 n))"
    unfolding of_int_less_iff using int_log2_int_bounds [OF assms] by simp
  then show "(of_int n :: rat) < 2 powi (int_log2 n + 1)" by (simp add: power_int_add e)
qed

lemma f32_exp_bounds:
  assumes "0 < x"
  shows "2 powi f32_exp x * 2 ^ 23 \<le> x" and "x < 2 powi f32_exp x * 2 ^ 24"
proof -
  obtain n d where nd: "quotient_of x = (n, d)" by fastforce
  from quotient_of_denom_pos [OF nd] have d: "0 < d" .
  have x: "x = of_int n / of_int d" by (rule quotient_of_div [OF nd])
  with assms d have n: "0 < n" by (simp add: zero_less_divide_iff)
  let ?k = "int_log2 n - int_log2 d"
  have "x < 2 powi (int_log2 n + 1) / 2 powi int_log2 d"
    unfolding x by (rule frac_less) (use n d int_log2_bounds [OF n] int_log2_bounds [OF d] in auto)
  then have up: "x < 2 powi (?k + 1)" by (simp add: power_int_diff power_int_add)
  have "2 powi int_log2 n / 2 powi (int_log2 d + 1) \<le> x"
    unfolding x by (rule frac_le) (use n d int_log2_bounds [OF n] int_log2_bounds [OF d] in auto)
  then have lo: "2 powi (?k - 1) \<le> x" by (simp add: power_int_diff power_int_add)
  have "2 powi f32_exp x * 2 ^ 23 \<le> x \<and> x < 2 powi f32_exp x * 2 ^ 24"
    using up lo nd by (auto simp: f32_exp_def Let_def power_int_diff power_int_add mult.commute)
  then show "2 powi f32_exp x * 2 ^ 23 \<le> x" and "x < 2 powi f32_exp x * 2 ^ 24" by auto
qed

lemma powi_less_iff: "((2::rat) powi a < 2 powi b) = (a < b)"
  by (meson leD not_le one_le_numeral one_less_numeral_iff power_int_increasing
      power_int_strict_increasing semiring_norm(76))

lemma f32_exp_mono:
  assumes "0 < x" and "x \<le> y"
  shows "f32_exp x \<le> f32_exp y"
proof -
  have "2 powi f32_exp x * 2 ^ 23 < 2 powi f32_exp y * (2 ^ 24 :: rat)"
    using f32_exp_bounds [of x] f32_exp_bounds [of y] assms by linarith
  then have "(2::rat) powi f32_exp x < 2 powi (f32_exp y + 1)" by (simp add: power_int_add)
  then show ?thesis by (simp only: powi_less_iff)
qed

section \<open>Properties of the rounded value\<close>

lemma f32_pos: "0 < x \<Longrightarrow> f32 x = of_int (rne (x / 2 powi f32_exp x)) * 2 powi f32_exp x"
  by (simp add: f32_def)

lemma f32_0 [simp]: "f32 0 = 0"
  by (simp add: f32_def)

lemma f32_range:
  assumes "0 < x"
  shows "2 powi f32_exp x * 2 ^ 23 \<le> f32 x" and "f32 x \<le> 2 powi f32_exp x * 2 ^ 24"
proof -
  let ?e = "2 powi f32_exp x :: rat"
  have e: "0 < ?e" by simp
  have "of_int (2 ^ 23) \<le> x / ?e" "x / ?e \<le> of_int (2 ^ 24)"
    using f32_exp_bounds [OF assms] e by (simp_all add: field_simps)
  then have "2 ^ 23 \<le> rne (x / ?e)" "rne (x / ?e) \<le> 2 ^ 24" using rne_ge rne_le by blast+
  then have "of_int (2 ^ 23) * ?e \<le> of_int (rne (x / ?e)) * ?e"
    "of_int (rne (x / ?e)) * ?e \<le> of_int (2 ^ 24) * ?e"
    using e by (simp_all only: mult_le_cancel_right_pos of_int_le_iff)
  then show "?e * 2 ^ 23 \<le> f32 x" and "f32 x \<le> ?e * 2 ^ 24"
    by (simp_all add: f32_pos [OF assms] mult.commute)
qed

lemma f32_nonneg: "0 \<le> f32 x"
proof (cases "0 < x")
  case True
  have "0 \<le> 2 powi f32_exp x * (2 ^ 23 :: rat)" by simp
  with f32_range(1) [OF True] show ?thesis by linarith
qed (simp add: f32_def)

lemma f32_gt_0:
  assumes "0 < x"
  shows "0 < f32 x"
proof -
  have "0 < 2 powi f32_exp x * (2 ^ 23 :: rat)" by simp
  with f32_range(1) [OF assms] show ?thesis by linarith
qed

lemma f32_mono:
  assumes "x \<le> y"
  shows "f32 x \<le> f32 y"
proof (cases "0 < x")
  case False
  then show ?thesis using f32_nonneg [of y] by (simp add: f32_def)
next
  case True
  with assms have y: "0 < y" by simp
  from True assms have le: "f32_exp x \<le> f32_exp y" by (rule f32_exp_mono)
  show ?thesis
  proof (cases "f32_exp x = f32_exp y")
    case eq: True
    let ?e = "2 powi f32_exp y :: rat"
    from assms have "x / ?e \<le> y / ?e" by (simp add: divide_right_mono)
    then have "rne (x / ?e) \<le> rne (y / ?e)" by (rule rne_mono)
    then show ?thesis by (simp add: f32_pos True y eq)
  next
    case False
    with le have "f32_exp x + 1 \<le> f32_exp y" by simp
    then have "(2::rat) powi (f32_exp x + 1) \<le> 2 powi f32_exp y" by (intro power_int_increasing) auto
    then have "(2::rat) powi f32_exp x * 2 ^ 24 \<le> 2 powi f32_exp y * 2 ^ 23" by (simp add: power_int_add)
    with f32_range(2) [OF True] f32_range(1) [OF y] show ?thesis by linarith
  qed
qed

text \<open>The relative error of one rounding is at most \<open>2 ^ -24\<close>.\<close>

lemma f32_error:
  assumes "0 \<le> x"
  shows "\<bar>f32 x - x\<bar> \<le> x / 2 ^ 24"
proof (cases "0 < x")
  case False
  with assms show ?thesis by simp
next
  case True
  let ?e = "2 powi f32_exp x :: rat"
  have e: "0 < ?e" by simp
  have "f32 x - x = (of_int (rne (x / ?e)) - x / ?e) * ?e"
    using e by (simp add: f32_pos True left_diff_distrib)
  then have "\<bar>f32 x - x\<bar> = \<bar>of_int (rne (x / ?e)) - x / ?e\<bar> * ?e" using e by (simp add: abs_mult)
  also have "\<dots> \<le> 1 / 2 * ?e" using rne_error e by (intro mult_right_mono) auto
  also have "\<dots> \<le> x / 2 ^ 24" using f32_exp_bounds(1) [OF True] by (simp add: field_simps)
  finally show ?thesis .
qed

lemma powi_nonpos: "k \<le> 0 \<Longrightarrow> (2::rat) powi k = 1 / 2 ^ nat (- k)"
  by (cases "k = 0") (simp_all add: power_int_def inverse_eq_divide power_one_over)

text \<open>Integers of at most 24 bits are represented exactly.\<close>

lemma f32_nat_exact:
  assumes "n \<le> 2 ^ 24"
  shows "f32 (of_nat n) = of_nat n"
proof (cases "n = 0")
  case True
  then show ?thesis by simp
next
  case False
  let ?x = "of_nat n :: rat" and ?k = "f32_exp (of_nat n)"
  have pos: "0 < ?x" using False by simp
  show ?thesis
  proof (cases "?k \<le> 0")
    case True
    define m where "m = nat (- ?k)"
    have e: "(2::rat) powi ?k = 1 / 2 ^ m" unfolding m_def by (rule powi_nonpos [OF True])
    have "?x / (1 / 2 ^ m) = of_int (int n * 2 ^ m)" by simp
    then have "rne (?x / 2 powi ?k) = int n * 2 ^ m" unfolding e by (simp only: rne_of_int)
    then show ?thesis unfolding f32_pos [OF pos] by (simp only: e) simp
  next
    case big: False
    then have "(2::rat) powi 1 \<le> 2 powi ?k" by (intro power_int_increasing) auto
    then have ge: "(2::rat) ^ 24 \<le> 2 powi ?k * 2 ^ 23" by simp
    have "?x \<le> of_nat (2 ^ 24)" using assms by (simp only: of_nat_le_iff)
    then have le: "?x \<le> 2 ^ 24" by simp
    from ge le f32_exp_bounds(1) [OF pos] have eq: "?x = 2 ^ 24" by linarith
    from ge le f32_exp_bounds(1) [OF pos] have "2 powi ?k = (2::rat)" by simp
    note eq = eq this
    have "rne (2 ^ 24 / 2) = 2 ^ 23" using rne_of_int [of "2 ^ 23"] by simp
    then have "rne (?x / 2 powi ?k) = 2 ^ 23" unfolding eq(2) by (simp only: eq(1))
    then have "f32 ?x = of_int (2 ^ 23) * 2" unfolding f32_pos [OF pos] by (simp only: eq(2))
    also have "\<dots> = ?x" unfolding eq(1) by simp
    finally show ?thesis .
  qed
qed

lemma uint_to_f32_unat: "uint_to_f32 w = f32 (of_nat (unat w))"
proof -
  have "(of_int (uint w) :: rat) = of_int (int (unat w))" by (simp only: uint_nat)
  then show ?thesis by (simp only: uint_to_f32_def of_int_of_nat_eq)
qed

lemma uint_to_f32_exact: "unat w \<le> 2 ^ 24 \<Longrightarrow> uint_to_f32 w = of_nat (unat w)"
  by (simp only: uint_to_f32_unat f32_nat_exact)

lemma uint_to_f32_mono: "a \<le> b \<Longrightarrow> uint_to_f32 a \<le> uint_to_f32 b"
  unfolding uint_to_f32_unat word_le_nat_alt by (rule f32_mono) (simp only: of_nat_le_iff)

lemma uint_to_f32_pos: "w \<noteq> 0 \<Longrightarrow> 0 < uint_to_f32 w"
  unfolding uint_to_f32_unat by (rule f32_gt_0) (simp only: of_nat_0_less_iff unat_gt_0 not_False_eq_True)

text \<open>
  The ceiling of a rounded quotient is the ceiling of the quotient, as long as the dividend has at
  most 24 bits: the distance of a quotient that is no integer to the integer below it is at least
  one divisor, which is more than a rounding can bridge.
\<close>

lemma ceiling_f32_div:
  assumes "a < 2 ^ 24" and "0 < b"
  shows "\<lceil>f32 (of_nat a / of_nat b)\<rceil> = \<lceil>(of_nat a / of_nat b :: rat)\<rceil>"
proof -
  let ?x = "of_nat a / of_nat b :: rat"
  define k where "k = nat \<lceil>?x\<rceil>"
  have "0 \<le> \<lceil>?x\<rceil>" by (metis ceiling_mono ceiling_zero divide_nonneg_nonneg of_nat_0_le_iff)
  then have k: "\<lceil>?x\<rceil> = int k" by (simp add: k_def)
  have "?x \<le> of_nat a" using assms(2) by (simp add: divide_le_eq mult_le_cancel_left1)
  then have "int k \<le> int a" by (simp add: ceiling_le_iff flip: k)
  with assms(1) have "k \<le> 2 ^ 24" by simp
  then have exact: "f32 (of_nat k) = of_nat k" by (rule f32_nat_exact)
  have "?x \<le> of_nat k" using k by (metis le_of_int_ceiling of_int_of_nat_eq)
  then have up: "f32 ?x \<le> of_nat k" using f32_mono exact by metis
  have "of_nat k - 1 < f32 ?x"
  proof (cases "a = 0")
    case True
    with k show ?thesis by simp
  next
    case False
    have "of_nat k - 1 < ?x" using k by (simp add: ceiling_eq_iff)
    then have "(of_nat k - 1) * of_nat b < (of_nat a :: rat)" using assms(2) by (simp add: field_simps)
    then have "of_int ((int k - 1) * int b) < (of_int (int a) :: rat)" by simp
    then have "(int k - 1) * int b < int a" by (simp only: of_int_less_iff)
    then have "(int k - 1) * int b + 1 \<le> int a" by simp
    then have "of_int ((int k - 1) * int b + 1) \<le> (of_int (int a) :: rat)" by (simp only: of_int_le_iff)
    then have "(of_nat k - 1) * of_nat b + 1 \<le> (of_nat a :: rat)" by simp
    then have ge: "of_nat k - 1 + 1 / of_nat b \<le> ?x"
      using assms(2) by (subst pos_le_divide_eq) (simp_all add: distrib_right)
    have "(of_nat a :: rat) < of_nat (2 ^ 24)" using assms(1) by (simp only: of_nat_less_iff)
    then have "?x / 2 ^ 24 < 1 / of_nat b" using assms(2) by (simp add: field_simps)
    moreover have "\<bar>f32 ?x - ?x\<bar> \<le> ?x / 2 ^ 24" by (rule f32_error) simp
    ultimately show ?thesis using ge by (simp add: abs_le_iff)
  qed
  with up have "\<lceil>f32 ?x\<rceil> = int k" by (simp add: ceiling_eq_iff)
  with k show ?thesis by simp
qed

end
