(* ===== verification/Quantum.thy ===== *)
theory Quantum imports Queue Float32
begin

text \<open>
  The scheduling arithmetic of \<^verbatim>\<open>poet_shared_functions.cpp\<close>: the tier of a node and the quantum
  time of every node of the SGX table. \<^verbatim>\<open>std::vector<node_t *>\<close> is a list of nodes; its pointers
  are distinct, so comparing two of them compares positions.
\<close>

section \<open>Nodes\<close>

record node_t =
  node_id :: uint
  arrival_time :: uint
  sgx_time :: uint
  n_leadership :: uint
  time_left :: uint

section \<open>Tier number and quantum times\<close>

text \<open>
  \<^verbatim>\<open>(int) ceilf(((float) total_tiers * node.sgx_time) / (float) sgx_max) - 1\<close>. With
  \<^verbatim>\<open>sgx_max = 0\<close> the quotient is infinite or not a number and its conversion is undefined.
\<close>

definition calc_tier_number :: "node_t \<Rightarrow> uint \<Rightarrow> uint \<Rightarrow> int res" where
  "calc_tier_number nd total_tiers sgx_max =
     (if sgx_max = 0 then Inl Bad_Conversion
      else rbind (int_of_f32 \<lceil>f32 (f32 (uint_to_f32 total_tiers * uint_to_f32 (sgx_time nd))
                                    / uint_to_f32 sgx_max)\<rceil>) (\<lambda>c.
           let tier = c - 1 in
           rbind (assertc (0 \<le> tier \<and> tier < uint total_tiers)) (\<lambda>_. Inr tier)))"

text \<open>One round \<open>j\<close> of the inner loop of \<^verbatim>\<open>calc_quantum_times\<close>, for the node at position \<open>i\<close>.\<close>

definition quantum_inner ::
    "node_t list \<Rightarrow> uint \<Rightarrow> uint \<Rightarrow> nat \<Rightarrow> int \<Rightarrow> uint list \<times> uint list \<Rightarrow> nat
      \<Rightarrow> (uint list \<times> uint list) res" where
  "quantum_inner table ntiers sgx_max i tier_i s j =
     (if i = j then Inr s
      else rbind (calc_tier_number (table ! j) ntiers sgx_max) (\<lambda>tier_j.
        if tier_i = tier_j \<and> arrival_time (table ! j) \<le> arrival_time (table ! i)
        then (case s of (qts, act) \<Rightarrow>
          let k = unat (node_id (table ! i)) in
          rbind (vec_get qts k) (\<lambda>qt.
          rbind (vec_set qts k (qt + time_left (table ! j))) (\<lambda>qts'.
          rbind (vec_get act k) (\<lambda>nn.
          rbind (vec_set act k (nn + 1)) (\<lambda>act'. Inr (qts', act'))))))
        else Inr s))"

definition quantum_outer ::
    "node_t list \<Rightarrow> uint \<Rightarrow> uint \<Rightarrow> uint list \<times> uint list \<Rightarrow> nat \<Rightarrow> (uint list \<times> uint list) res" where
  "quantum_outer table ntiers sgx_max s i =
     rbind (calc_tier_number (table ! i) ntiers sgx_max) (\<lambda>tier_i.
     case s of (qts, act) \<Rightarrow>
     let k = unat (node_id (table ! i)) in
     rbind (vec_get qts k) (\<lambda>qt.
     rbind (vec_set qts k (qt + sgx_time (table ! i))) (\<lambda>qts'.
     rfold (quantum_inner table ntiers sgx_max i tier_i) (qts', act) [0..<length table])))"

text \<open>\<^verbatim>\<open>nn > 0 ? (uint) ceilf(((float) qt) / ((float) nn*nn)) : 0\<close>\<close>

definition quantum_of :: "uint \<Rightarrow> uint \<Rightarrow> uint res" where
  "quantum_of qt nn = (if nn > 0
     then uint_of_f32 \<lceil>f32 (uint_to_f32 qt / f32 (uint_to_f32 nn * uint_to_f32 nn))\<rceil>
     else Inr 0)"

definition quantum_final :: "uint list \<times> uint list \<Rightarrow> nat \<Rightarrow> (uint list \<times> uint list) res" where
  "quantum_final s i = (case s of (qts, act) \<Rightarrow>
     rbind (vec_get qts i) (\<lambda>qt.
     rbind (vec_get act i) (\<lambda>nn.
     rbind (quantum_of qt nn) (\<lambda>r.
     rbind (vec_set qts i r) (\<lambda>qts'. Inr (qts', act))))))"

definition calc_quantum_times :: "node_t list \<Rightarrow> uint \<Rightarrow> uint \<Rightarrow> uint list res" where
  "calc_quantum_times table ntiers sgx_max =
     rbind (assertc (ntiers > 0)) (\<lambda>_.
     rbind (assertc (sgx_max > 0)) (\<lambda>_.
     let n = length table in
     rbind (rfold (quantum_outer table ntiers sgx_max) (replicate n 0, replicate n 1) [0..<n]) (\<lambda>s.
     rbind (rfold quantum_final s [0..<n]) (\<lambda>(qts, act). Inr qts))))"

text \<open>\<^verbatim>\<open>calc_qt\<close> reads the vector of quantum times at the tier of the node.\<close>

definition calc_qt :: "node_t \<Rightarrow> uint list \<Rightarrow> uint \<Rightarrow> uint \<Rightarrow> uint res" where
  "calc_qt u quantum_times ntiers sgx_max =
     rbind (calc_tier_number u ntiers sgx_max) (\<lambda>tier. vec_get quantum_times (nat tier))"

text \<open>
  \<^verbatim>\<open>remaining_quantum_time\<close>: the vector is indexed by the id of the node; \<open>reps\<close> is the value
  of the \<^verbatim>\<open>int\<close> parameter.
\<close>

definition remaining_quantum_time :: "uint list \<Rightarrow> node_t \<Rightarrow> int \<Rightarrow> uint res" where
  "remaining_quantum_time quantum_times nd reps =
     rbind (assertc (0 \<le> reps)) (\<lambda>_.
     rbind (vec_get quantum_times (unat (node_id nd))) (\<lambda>q.
     let quantum_time = sint q; sgxt = sint (sgx_time nd) in
     rbind (signed_int (reps * quantum_time)) (\<lambda>p.
     rbind (signed_int (sgxt - p)) (\<lambda>d.
     Inr (of_int (min quantum_time (max d 0)))))))"

text \<open>The SGX table of \<^verbatim>\<open>test_leadership_time\<close> in \<^verbatim>\<open>poet_methods_test.cpp\<close>.\<close>

definition test_node :: "uint \<Rightarrow> uint \<Rightarrow> node_t" where
  "test_node i t = \<lparr>node_id = i, arrival_time = 0, sgx_time = t, n_leadership = 0, time_left = t\<rparr>"

definition test_table :: "node_t list" where
  "test_table = [test_node 0 10, test_node 1 4, test_node 2 2, test_node 3 9]"

section \<open>Specification: exact arithmetic\<close>

definition cdiv :: "nat \<Rightarrow> nat \<Rightarrow> nat" where
  "cdiv a b = (a + b - 1) div b"

definition tier_spec :: "nat \<Rightarrow> nat \<Rightarrow> nat \<Rightarrow> nat" where
  "tier_spec T m s = cdiv (T * s) m - 1"

abbreviation sgxt_of :: "node_t list \<Rightarrow> nat \<Rightarrow> nat" where
  "sgxt_of table i \<equiv> unat (sgx_time (table ! i))"

text \<open>The nodes whose remaining time counts for the quantum time of the node at position \<open>i\<close>.\<close>

definition peer :: "node_t list \<Rightarrow> nat \<Rightarrow> nat \<Rightarrow> nat \<Rightarrow> nat \<Rightarrow> bool" where
  "peer table T m i j \<longleftrightarrow> j \<noteq> i \<and> tier_spec T m (sgxt_of table j) = tier_spec T m (sgxt_of table i)
     \<and> arrival_time (table ! j) \<le> arrival_time (table ! i)"

definition peers :: "node_t list \<Rightarrow> nat \<Rightarrow> nat \<Rightarrow> nat \<Rightarrow> nat list" where
  "peers table T m i = filter (peer table T m i) [0..<length table]"

definition quantum_spec :: "node_t list \<Rightarrow> nat \<Rightarrow> nat \<Rightarrow> nat \<Rightarrow> nat" where
  "quantum_spec table T m i =
     (let ps = peers table T m i; nn = Suc (length ps) in
      cdiv (sgxt_of table i + sum_list (map (\<lambda>j. unat (time_left (table ! j))) ps)) (nn * nn))"

text \<open>
  The networks the exact results are about: every node sits at the position its id names, its SGX
  time lies within \<open>1 .. sgx_max\<close>, no more time is left than was drawn, and the products and
  sums the code forms stay below \<open>2 ^ 24\<close>, where \<^verbatim>\<open>float\<close> still counts in ones (with one tier this
  allows an \<^verbatim>\<open>sgx_max\<close> of half a year).
\<close>

definition net_ok :: "node_t list \<Rightarrow> uint \<Rightarrow> uint \<Rightarrow> bool" where
  "net_ok table T m \<longleftrightarrow> 0 < T \<and> unat T * unat m < 2 ^ 24 \<and> length table < 2 ^ 12
     \<and> sum_list (map (\<lambda>nd. unat (sgx_time nd)) table) < 2 ^ 24
     \<and> list_all (\<lambda>i. unat (node_id (table ! i)) = i \<and> 1 \<le> sgxt_of table i \<and> sgxt_of table i \<le> unat m
          \<and> unat (time_left (table ! i)) \<le> sgxt_of table i) [0..<length table]"

text \<open>The sums and counts the loops leave for the node at position \<open>i\<close>.\<close>

definition qt_sum :: "node_t list \<Rightarrow> uint \<Rightarrow> uint \<Rightarrow> nat \<Rightarrow> uint" where
  "qt_sum table T m i = sgx_time (table ! i)
     + sum_list (map (\<lambda>j. time_left (table ! j)) (peers table (unat T) (unat m) i))"

definition qt_active :: "node_t list \<Rightarrow> uint \<Rightarrow> uint \<Rightarrow> nat \<Rightarrow> uint" where
  "qt_active table T m i = 1 + of_nat (length (peers table (unat T) (unat m) i))"

section \<open>Rounded-up division\<close>

lemma cdiv_iff:
  assumes "0 < b" and "0 < a"
  shows "cdiv a b = k \<longleftrightarrow> a \<le> k * b \<and> (k - 1) * b < a \<and> 0 < k"
proof -
  have "cdiv a b = k \<longleftrightarrow> k * b \<le> a + b - 1 \<and> a + b - 1 < Suc k * b"
    unfolding cdiv_def using assms(1) by (metis div_nat_eqI dividend_less_times_div less_eq_div_iff_mult_less_eq
       mult.commute mult_Suc order_refl times_div_less_eq_dividend)
  also have "\<dots> \<longleftrightarrow> a \<le> k * b \<and> (k - 1) * b < a \<and> 0 < k"
    using assms by (cases k) (auto simp: algebra_simps)
  finally show ?thesis .
qed

lemma cdiv_0 [simp]: "0 < b \<Longrightarrow> cdiv 0 b = 0"
  by (simp add: cdiv_def)

lemma ceiling_cdiv:
  assumes "0 < b"
  shows "\<lceil>(of_nat a / of_nat b :: rat)\<rceil> = int (cdiv a b)"
proof (cases "a = 0")
  case False
  define k where "k = cdiv a b"
  from False assms k_def have k: "a \<le> k * b" "(k - 1) * b < a" "0 < k"
    using cdiv_iff [of b a k] by auto
  have "of_nat a \<le> (of_nat (k * b) :: rat)" "of_nat ((k - 1) * b) < (of_nat a :: rat)"
    using k by (simp_all only: of_nat_le_iff of_nat_less_iff)
  moreover have "(of_nat (k - 1) :: rat) = of_nat k - 1" using k(3) by (simp add: of_nat_diff)
  ultimately have "of_nat k - 1 < (of_nat a / of_nat b :: rat)" "(of_nat a / of_nat b :: rat) \<le> of_nat k"
    using assms by (simp_all add: pos_less_divide_eq pos_divide_le_eq)
  then show ?thesis by (simp add: ceiling_eq_iff flip: k_def)
qed (use assms in simp)

lemma cdiv_pos: "0 < a \<Longrightarrow> 0 < b \<Longrightarrow> 0 < cdiv a b"
  using cdiv_iff [of b a "cdiv a b"] by simp

lemma cdiv_le: "0 < b \<Longrightarrow> cdiv a b \<le> a"
proof (cases "a = 0")
  case False
  assume b: "0 < b"
  from False b have "(cdiv a b - 1) * b < a" using cdiv_iff [of b a "cdiv a b"] by simp
  moreover have "cdiv a b - 1 \<le> (cdiv a b - 1) * b" using b by simp
  ultimately have "cdiv a b - 1 < a" by linarith
  then show ?thesis by simp
qed simp

lemma cdiv_le_iff: "0 < b \<Longrightarrow> cdiv a b \<le> k \<longleftrightarrow> a \<le> k * b"
proof -
  assume b: "0 < b"
  have "cdiv a b \<le> k \<longleftrightarrow> a + b - 1 < Suc k * b" unfolding cdiv_def
    using b by (simp add: less_Suc_eq_le [symmetric] div_less_iff_less_mult)
  also have "\<dots> \<longleftrightarrow> a \<le> k * b" using b by auto
  finally show ?thesis .
qed

lemma cdiv_mono: "0 < b \<Longrightarrow> a \<le> a' \<Longrightarrow> cdiv a b \<le> cdiv a' b"
  unfolding cdiv_def by (intro div_le_mono) simp

section \<open>Tiers\<close>

lemma tier_spec_less:
  assumes "0 < T" and "0 < s" and "s \<le> m"
  shows "tier_spec T m s < T" and "0 < cdiv (T * s) m"
proof -
  have "cdiv (T * s) m \<le> T" using assms by (simp add: cdiv_le_iff)
  moreover show "0 < cdiv (T * s) m" using assms by (intro cdiv_pos) auto
  ultimately show "tier_spec T m s < T" by (simp add: tier_spec_def)
qed

lemma calc_tier_exact:
  assumes "0 < T" and "unat T * unat m < 2 ^ 24" and "1 \<le> unat (sgx_time nd)" and "unat (sgx_time nd) \<le> unat m"
  shows "calc_tier_number nd T m = Inr (int (tier_spec (unat T) (unat m) (unat (sgx_time nd))))"
proof -
  let ?T = "unat T" and ?m = "unat m" and ?s = "unat (sgx_time nd)"
  have pos: "0 < ?T" "0 < ?m" using assms by (auto simp: unat_gt_0)
  have "?T * 1 \<le> ?T * ?m" "1 * ?m \<le> ?T * ?m" "?T * ?s \<le> ?T * ?m"
    using pos assms(4) by (auto simp del: mult_1 mult_1_right intro!: mult_le_mono)
  with assms(2) have le: "?T < 2 ^ 24" "?m < 2 ^ 24" "?T * ?s < 2 ^ 24" by linarith+
  have "uint_to_f32 T * uint_to_f32 (sgx_time nd) = of_nat (?T * ?s)"
    using le assms(4) by (simp only: uint_to_f32_exact of_nat_mult)
  then have prod: "f32 (uint_to_f32 T * uint_to_f32 (sgx_time nd)) = of_nat (?T * ?s)"
    using le by (simp only: f32_nat_exact)
  have "\<lceil>f32 (of_nat (?T * ?s) / of_nat ?m)\<rceil> = int (cdiv (?T * ?s) ?m)"
    using ceiling_f32_div [OF le(3) pos(2)] ceiling_cdiv [OF pos(2)] by metis
  then have ceil: "\<lceil>f32 (f32 (uint_to_f32 T * uint_to_f32 (sgx_time nd)) / uint_to_f32 m)\<rceil> = int (cdiv (?T * ?s) ?m)"
    unfolding prod using le by (simp only: uint_to_f32_exact)
  have b: "0 < cdiv (?T * ?s) ?m" "tier_spec ?T ?m ?s < ?T"
    using tier_spec_less [of ?T ?s ?m] pos assms(3,4) by auto
  then have "cdiv (?T * ?s) ?m < 2 ^ 24 + 1" using le(1) by (simp add: tier_spec_def)
  then have conv: "int_of_f32 (int (cdiv (?T * ?s) ?m)) = Inr (int (cdiv (?T * ?s) ?m))"
    by (simp add: int_of_f32_def int_min_def int_max_def)
  have sub: "int (cdiv (?T * ?s) ?m) - 1 = int (tier_spec ?T ?m ?s)" using b(1) by (simp add: tier_spec_def)
  have "int (tier_spec ?T ?m ?s) < uint T" using b(2) by (simp only: uint_nat of_nat_less_iff)
  moreover have "m \<noteq> 0" using pos(2) by (simp only: unat_gt_0 not_False_eq_True)
  ultimately show ?thesis
    using b(1) by (simp add: calc_tier_number_def ceil conv sub Let_def)
qed

section \<open>Quantum times\<close>

lemma net_okD:
  assumes "net_ok table T m" and "i < length table"
  shows "unat (node_id (table ! i)) = i" "1 \<le> sgxt_of table i" "sgxt_of table i \<le> unat m"
    "unat (time_left (table ! i)) \<le> sgxt_of table i"
  using assms by (auto simp: net_ok_def list_all_iff)

lemma net_ok_tier:
  "net_ok table T m \<Longrightarrow> i < length table \<Longrightarrow>
     calc_tier_number (table ! i) T m = Inr (int (tier_spec (unat T) (unat m) (sgxt_of table i)))"
  by (intro calc_tier_exact net_okD) (auto simp: net_ok_def)

lemma quantum_inner_step:
  assumes ok: "net_ok table T m" and i: "i < length table" and j: "j < length table"
    and len: "length qts = length table" "length act = length table"
  shows "quantum_inner table T m i (int (tier_spec (unat T) (unat m) (sgxt_of table i))) (qts, act) j =
    Inr (if peer table (unat T) (unat m) i j
         then (qts[i := qts ! i + time_left (table ! j)], act[i := act ! i + 1]) else (qts, act))"
  using assms net_okD(1) [OF ok i]
  by (simp add: quantum_inner_def net_ok_tier [OF ok j] peer_def Let_def)

lemma quantum_inner_fold:
  assumes ok: "net_ok table T m" and i: "i < length table"
    and len: "length qts = length table" "length act = length table" and js: "set js \<subseteq> {..<length table}"
  shows "rfold (quantum_inner table T m i (int (tier_spec (unat T) (unat m) (sgxt_of table i)))) (qts, act) js =
    Inr (qts[i := qts ! i + sum_list (map (\<lambda>j. time_left (table ! j)) (filter (peer table (unat T) (unat m) i) js))],
         act[i := act ! i + of_nat (length (filter (peer table (unat T) (unat m) i) js))])"
  using len js
proof (induction js arbitrary: qts act)
  case (Cons j js)
  then have j: "j < length table" by simp
  have eq: "a + (b + c) = a + b + (c::uint)" for a b c by simp
  show ?case
    using Cons.prems i
    by (simp add: quantum_inner_step [OF ok i j] Cons.IH eq del: add.assoc)
qed simp

lemma quantum_outer_step:
  assumes ok: "net_ok table T m" and i: "i < length table"
    and len: "length qts = length table" "length act = length table" and "qts ! i = 0" "act ! i = 1"
  shows "quantum_outer table T m (qts, act) i = Inr (qts[i := qt_sum table T m i], act[i := qt_active table T m i])"
  using assms net_okD(1) [OF ok i] quantum_inner_fold [OF ok i, of "qts[i := sgx_time (table ! i)]" act "[0..<length table]"]
    atLeast0LessThan [of "length table"]
  by (auto simp: quantum_outer_def net_ok_tier [OF ok i] Let_def qt_sum_def qt_active_def peers_def)

lemma map_upt_update: "k < n \<Longrightarrow>
    (map (\<lambda>i. if i < k then f i else g i) [0..<n])[k := f k] = map (\<lambda>i. if i < Suc k then f i else g i) [0..<n]"
  by (rule nth_equalityI) (auto simp: nth_list_update less_Suc_eq)

lemma quantum_outer_fold:
  assumes ok: "net_ok table T m" and "k \<le> length table"
  shows "rfold (quantum_outer table T m) (replicate (length table) 0, replicate (length table) 1) [0..<k] =
    Inr (map (\<lambda>i. if i < k then qt_sum table T m i else 0) [0..<length table],
         map (\<lambda>i. if i < k then qt_active table T m i else 1) [0..<length table])"
  using assms(2)
proof (induction k)
  case 0
  show ?case by (simp add: map_replicate_const)
next
  case (Suc k)
  then have k: "k < length table" by simp
  show ?case
    using Suc.IH k map_upt_update [OF k, of "qt_sum table T m" "\<lambda>_. 0"]
      map_upt_update [OF k, of "qt_active table T m" "\<lambda>_. 1"]
    by (simp add: rfold_append quantum_outer_step [OF ok k])
qed

lemma quantum_final_fold:
  assumes "\<And>i. i < n \<Longrightarrow> quantum_of (f i) (g i) = Inr (r i)" and "k \<le> n"
  shows "rfold quantum_final (map f [0..<n], map g [0..<n]) [0..<k] =
    Inr (map (\<lambda>i. if i < k then r i else f i) [0..<n], map g [0..<n])"
  using assms(2)
proof (induction k)
  case (Suc k)
  then have k: "k < n" by simp
  with Suc assms(1) [OF k] show ?case
    by (simp add: rfold_append quantum_final_def map_upt_update)
qed simp

lemma sum_peers_le:
  assumes ok: "net_ok table T m" and i: "i < length table"
  shows "sgxt_of table i + sum_list (map (\<lambda>j. unat (time_left (table ! j))) (peers table (unat T) (unat m) i))
    \<le> sum_list (map (\<lambda>nd. unat (sgx_time nd)) table)"
proof -
  let ?ps = "peers table (unat T) (unat m) i"
  have "sum_list (map (\<lambda>j. unat (time_left (table ! j))) ?ps) \<le> sum_list (map (sgxt_of table) ?ps)"
    using net_okD(4) [OF ok] by (intro sum_list_mono) (auto simp: peers_def peer_def)
  moreover have dist: "distinct (i # ?ps)" by (auto simp: peers_def peer_def)
  have "sum_list (map (sgxt_of table) (i # ?ps)) = sum (sgxt_of table) (set (i # ?ps))"
    using dist by (rule sum_list_distinct_conv_sum_set)
  moreover have "\<dots> \<le> sum (sgxt_of table) {0..<length table}"
    using i by (intro sum_mono2) (auto simp: peers_def peer_def)
  moreover have "\<dots> = sum_list (map (\<lambda>nd. unat (sgx_time nd)) table)"
    by (simp add: sum_list_sum_nth)
  ultimately show ?thesis by simp
qed

lemma peers_length: "i < length table \<Longrightarrow> Suc (length (peers table T m i)) \<le> length table"
proof -
  assume i: "i < length table"
  have "distinct (i # peers table T m i)" "set (i # peers table T m i) \<subseteq> {0..<length table}"
    using i by (auto simp: peers_def peer_def)
  then have "card (set (i # peers table T m i)) \<le> card {0..<length table}" by (intro card_mono) auto
  with \<open>distinct (i # peers table T m i)\<close> show ?thesis by (metis card_atLeastLessThan diff_zero distinct_card length_Cons)
qed

lemma map_upt_full: "map (\<lambda>i. if i < n then f i else g i) [0..<n] = map f [0..<n]"
  by simp

lemma word_sum_list: "sum_list (map f xs) = (of_nat (sum_list (map (\<lambda>x. unat (f x)) xs)) :: uint)"
  by (induction xs) auto

lemma unat_of_nat_uint: "k < 2 ^ 32 \<Longrightarrow> unat (of_nat k :: uint) = k"
  by (simp add: unat_of_nat)

lemma quantum_of_exact:
  assumes "unat qt < 2 ^ 24" and "0 < nn" and "unat nn * unat nn < 2 ^ 24"
  shows "quantum_of qt nn = Inr (of_nat (cdiv (unat qt) (unat nn * unat nn)))"
proof -
  let ?q = "unat qt" and ?n = "unat nn"
  have pos: "0 < ?n" using assms(2) by (simp only: unat_gt_0 word_neq_0_conv)
  then have "?n * 1 \<le> ?n * ?n" by (intro mult_le_mono) auto
  with assms(3) have n: "?n \<le> 2 ^ 24" by linarith
  have "uint_to_f32 nn * uint_to_f32 nn = of_nat (?n * ?n)"
    using n by (simp only: uint_to_f32_exact of_nat_mult)
  then have sq: "f32 (uint_to_f32 nn * uint_to_f32 nn) = of_nat (?n * ?n)"
    using assms(3) by (simp only: f32_nat_exact)
  have "0 < ?n * ?n" using pos by simp
  then have "\<lceil>f32 (of_nat ?q / of_nat (?n * ?n))\<rceil> = int (cdiv ?q (?n * ?n))"
    using ceiling_f32_div [OF assms(1)] ceiling_cdiv by metis
  then have ceil: "\<lceil>f32 (uint_to_f32 qt / f32 (uint_to_f32 nn * uint_to_f32 nn))\<rceil> = int (cdiv ?q (?n * ?n))"
    unfolding sq using assms(1) by (simp only: uint_to_f32_exact)
  have "cdiv ?q (?n * ?n) \<le> ?q" using pos by (intro cdiv_le) simp
  with assms(1) have "int (cdiv ?q (?n * ?n)) < 2 ^ 32" by simp
  with assms(2) show ?thesis by (simp add: quantum_of_def ceil uint_of_f32_def)
qed

lemma unat_qt_sum:
  assumes ok: "net_ok table T m" and i: "i < length table"
  shows "unat (qt_sum table T m i) =
    sgxt_of table i + sum_list (map (\<lambda>j. unat (time_left (table ! j))) (peers table (unat T) (unat m) i))"
    (is "_ = ?s")
proof -
  have "qt_sum table T m i = of_nat ?s" unfolding qt_sum_def word_sum_list by simp
  moreover have "?s < 2 ^ 32" using sum_peers_le [OF ok i] ok by (simp add: net_ok_def)
  ultimately show ?thesis using unat_of_nat_uint by metis
qed

lemma unat_qt_active:
  assumes ok: "net_ok table T m" and i: "i < length table"
  shows "unat (qt_active table T m i) = Suc (length (peers table (unat T) (unat m) i))"
proof -
  have "qt_active table T m i = of_nat (Suc (length (peers table (unat T) (unat m) i)))"
    by (simp add: qt_active_def)
  moreover have "Suc (length (peers table (unat T) (unat m) i)) < 2 ^ 32"
    using peers_length [OF i, of "unat T" "unat m"] ok by (simp add: net_ok_def)
  ultimately show ?thesis using unat_of_nat_uint by metis
qed

lemma quantum_times_exact:
  assumes ok: "net_ok table T m" and ne: "table \<noteq> []"
  shows "calc_quantum_times table T m =
    Inr (map (\<lambda>i. of_nat (quantum_spec table (unat T) (unat m) i)) [0..<length table])"
proof -
  let ?n = "length table"
  have q: "quantum_of (qt_sum table T m i) (qt_active table T m i) =
     Inr (of_nat (quantum_spec table (unat T) (unat m) i))" if i: "i < ?n" for i
  proof -
    let ?a = "Suc (length (peers table (unat T) (unat m) i))"
    have "?a \<le> ?n" by (rule peers_length [OF i])
    then have "?a < 2 ^ 12" using ok by (simp add: net_ok_def)
    then have "?a * ?a < 2 ^ 12 * 2 ^ 12" by (intro mult_strict_mono) auto
    then have sq: "?a * ?a < 2 ^ 24" by simp
    have "0 < qt_active table T m i" using unat_qt_active [OF ok i] by (metis unat_0 word_neq_0_conv zero_less_Suc less_irrefl)
    moreover have "unat (qt_sum table T m i) < 2 ^ 24"
      using sum_peers_le [OF ok i] ok by (simp add: unat_qt_sum [OF ok i] net_ok_def)
    ultimately show ?thesis
      using sq quantum_of_exact [of "qt_sum table T m i" "qt_active table T m i"]
      by (simp only: unat_qt_active [OF ok i] unat_qt_sum [OF ok i] quantum_spec_def Let_def)
  qed
  have "0 < T" using ok by (simp add: net_ok_def)
  moreover have "0 < m"
  proof -
    from ne have "0 < ?n" by simp
    from net_okD(2,3) [OF ok this] have "0 < unat m" by linarith
    then show ?thesis by (metis unat_0 less_irrefl word_neq_0_conv)
  qed
  ultimately show ?thesis
    using quantum_outer_fold [OF ok order_refl, unfolded map_upt_full]
      quantum_final_fold [of ?n "qt_sum table T m" "qt_active table T m", OF q order_refl, unfolded map_upt_full]
    by (simp add: calc_quantum_times_def Let_def)
qed

lemma quantum_spec_bounds:
  assumes ok: "net_ok table T m" and i: "i < length table"
  shows "0 < quantum_spec table (unat T) (unat m) i"
    and "quantum_spec table (unat T) (unat m) i \<le> sum_list (map (\<lambda>nd. unat (sgx_time nd)) table)"
proof -
  let ?s = "sgxt_of table i + sum_list (map (\<lambda>j. unat (time_left (table ! j))) (peers table (unat T) (unat m) i))"
  let ?n = "Suc (length (peers table (unat T) (unat m) i))"
  have "0 < ?s" using net_okD(2) [OF ok i] by linarith
  then show "0 < quantum_spec table (unat T) (unat m) i" unfolding quantum_spec_def Let_def by (intro cdiv_pos) auto
  have "cdiv ?s (?n * ?n) \<le> ?s" by (rule cdiv_le) simp
  with sum_peers_le [OF ok i] show "quantum_spec table (unat T) (unat m) i \<le> sum_list (map (\<lambda>nd. unat (sgx_time nd)) table)"
    unfolding quantum_spec_def Let_def by linarith
qed

lemma net_ok_test: "net_ok test_table 2 10"
  by (simp add: net_ok_def test_table_def test_node_def upt_rec)

section \<open>Properties\<close>

text \<open>
  C18. As long as \<^verbatim>\<open>total_tiers * sgx_max < 2 ^ 24\<close>, the \<^verbatim>\<open>float\<close> computation of
  \<^verbatim>\<open>calc_tier_number\<close> is exact: a node with \<^verbatim>\<open>1 <= sgx_time <= sgx_max\<close> gets the tier
  \<open>\<lceil>total_tiers * sgx_time / sgx_max\<rceil> - 1\<close>, a valid index, and the assertion holds.
\<close>

theorem calc_tier_number_exact:
  assumes "0 < T" and "unat T * unat m < 2 ^ 24"
    and "1 \<le> unat (sgx_time nd)" and "unat (sgx_time nd) \<le> unat m"
  shows "calc_tier_number nd T m = Inr (int (cdiv (unat T * unat (sgx_time nd)) (unat m) - 1))
     \<and> cdiv (unat T * unat (sgx_time nd)) (unat m) - 1 < unat T"
proof -
  have "0 < unat T" using assms(1) by (simp only: unat_gt_0 word_neq_0_conv)
  then show ?thesis
    using calc_tier_exact [OF assms] tier_spec_less(1) [of "unat T" "unat (sgx_time nd)" "unat m"] assms(3,4)
    by (simp add: tier_spec_def)
qed

theorem calc_tier_number_exact_witness:
  "calc_tier_number \<lparr>node_id = 0, arrival_time = 0, sgx_time = 9, n_leadership = 0, time_left = 9\<rparr> 2 10 = Inr 1
     \<and> cdiv (2 * 9) 10 - 1 < (2::nat)"
  using calc_tier_number_exact [of 2 10 "\<lparr>node_id = 0, arrival_time = 0, sgx_time = 9, n_leadership = 0, time_left = 9\<rparr>"]
  by (simp add: cdiv_def)

text \<open>
  A longer SGX time never lands in a lower tier.
\<close>

theorem calc_tier_number_mono:
  assumes "0 < T" and "unat T * unat m < 2 ^ 24" and "1 \<le> unat (sgx_time a)"
    and "unat (sgx_time a) \<le> unat (sgx_time b)" and "unat (sgx_time b) \<le> unat m"
  shows "\<exists>ta tb. calc_tier_number a T m = Inr ta \<and> calc_tier_number b T m = Inr tb \<and> ta \<le> tb"
proof -
  have "0 < unat m" using assms(3-5) by linarith
  then have "tier_spec (unat T) (unat m) (unat (sgx_time a)) \<le> tier_spec (unat T) (unat m) (unat (sgx_time b))"
    unfolding tier_spec_def using assms(4) by (intro diff_le_mono cdiv_mono mult_le_mono2)
  moreover have "calc_tier_number a T m = Inr (int (tier_spec (unat T) (unat m) (unat (sgx_time a))))"
    using assms by (intro calc_tier_exact) linarith+
  moreover have "calc_tier_number b T m = Inr (int (tier_spec (unat T) (unat m) (unat (sgx_time b))))"
    using assms by (intro calc_tier_exact) linarith+
  ultimately show ?thesis by simp
qed

theorem calc_tier_number_mono_witness:
  "\<exists>ta tb. calc_tier_number \<lparr>node_id = 0, arrival_time = 0, sgx_time = 4, n_leadership = 0, time_left = 4\<rparr> 5 100 = Inr ta
     \<and> calc_tier_number \<lparr>node_id = 1, arrival_time = 0, sgx_time = 77, n_leadership = 0, time_left = 0\<rparr> 5 100 = Inr tb
     \<and> ta \<le> tb"
  by (rule calc_tier_number_mono) simp_all

text \<open>
  Above that bound rounding can push the quotient past the last tier: with three tiers and an
  upper bound of 5592409 seconds, which \<^verbatim>\<open>set_global_constants\<close> accepts, a node that draws the
  largest SGX time makes the assertion of \<^verbatim>\<open>calc_tier_number\<close> fail.
\<close>

theorem calc_tier_number_rounds_past_last_tier:
  "calc_tier_number \<lparr>node_id = 0, arrival_time = 0, sgx_time = 5592409, n_leadership = 0, time_left = 5592409\<rparr>
     3 5592409 = Inl Assertion_Failed"
  by code_simp

text \<open>
  C19. \<^verbatim>\<open>calc_quantum_times\<close> returns, for the node at position \<open>i\<close>, its SGX time plus the time left
  of the nodes of its tier that arrived no later, divided by the square of the number of those
  nodes (itself included) and rounded up; every quantum time is positive and none exceeds the sum
  of all SGX times.
\<close>

theorem calc_quantum_times_exact:
  assumes "net_ok table T m" and "table \<noteq> []"
  shows "\<exists>qts. calc_quantum_times table T m = Inr qts \<and> length qts = length table
     \<and> (\<forall>i < length table. unat (qts ! i) = quantum_spec table (unat T) (unat m) i \<and> 0 < unat (qts ! i)
          \<and> unat (qts ! i) \<le> sum_list (map (\<lambda>nd. unat (sgx_time nd)) table))"
proof -
  have "unat (of_nat (quantum_spec table (unat T) (unat m) i) :: uint) = quantum_spec table (unat T) (unat m) i"
    if "i < length table" for i
    using quantum_spec_bounds(2) [OF assms(1) that] assms(1) by (intro unat_of_nat_uint) (simp add: net_ok_def)
  then show ?thesis
    using quantum_times_exact [OF assms] quantum_spec_bounds [OF assms(1)] by simp
qed

theorem calc_quantum_times_exact_witness:
  "net_ok test_table 2 10 \<and> (\<exists>qts. calc_quantum_times test_table 2 10 = Inr qts
     \<and> map unat qts = [5, 2, 2, 5])"
proof -
  have ok: "net_ok test_table 2 10" by (rule net_ok_test)
  have ne: "test_table \<noteq> []" by (simp add: test_table_def)
  have spec: "map (quantum_spec test_table 2 10) [0..<4] = [5, 2, 2, 5]" by code_simp
  from calc_quantum_times_exact [OF ok ne] obtain qts where
    qts: "calc_quantum_times test_table 2 10 = Inr qts" "length qts = 4"
      "\<forall>i < 4. unat (qts ! i) = quantum_spec test_table 2 10 i" by (auto simp: test_table_def)
  have "map unat qts = map (quantum_spec test_table 2 10) [0..<4]"
    using qts(2,3) by (intro nth_equalityI) auto
  with ok qts(1) spec show ?thesis by auto
qed

end
