(* ===== verification/Leadership.thy ===== *)
theory Leadership imports Quantum
begin

text \<open>
  The round-robin look-ahead of \<^verbatim>\<open>poet_shared_functions.cpp\<close> that a node runs on the SGX table and
  the queue it received: \<^verbatim>\<open>calc_leadership_time\<close> (when its drawn time is used up),
  \<^verbatim>\<open>calc_notification_times\<close> (when it has to report that it is not finished) and
  \<^verbatim>\<open>calc_starting_time\<close>. Queue elements are node ids stored in \<^verbatim>\<open>void *\<close> fields.
\<close>

section \<open>The slices\<close>

definition copy_queuet_std_queue :: "size_t \<Rightarrow> uint list \<Rightarrow> uint list" where
  "copy_queuet_std_queue node_ptr q = q @ [ucast node_ptr]"

text \<open>
  One round of the \<^verbatim>\<open>while\<close> loops of \<^verbatim>\<open>calc_leadership_time\<close> and \<^verbatim>\<open>calc_notification_times\<close>, which
  agree up to the bookkeeping of their results: the state holds the queue without its front \<open>u\<close>,
  the repetitions, the bits of \<^verbatim>\<open>accumulated_time\<close> and the value of \<^verbatim>\<open>remaining_time\<close>.
\<close>

record slice_state =
  sl_q :: "uint list"
  sl_reps :: "uint list"
  sl_acc :: uint
  sl_rem :: int

definition slice_step ::
    "node_t list \<Rightarrow> uint list \<Rightarrow> node_t \<Rightarrow> uint \<Rightarrow> slice_state \<Rightarrow> slice_state res" where
  "slice_step table quantum_times cur u s =
     rbind (assertc (unat u < length table)) (\<lambda>_.
     rbind (vec_get (sl_reps s) (unat u)) (\<lambda>r.
     rbind (remaining_quantum_time quantum_times (table ! unat u) (sint r)) (\<lambda>qt.
     let reps = (sl_reps s)[unat u := r + 1];
         used = min qt (of_int (sl_rem s));
         acc = sl_acc s + used;
         rem = (if u = node_id cur then sint ((of_int (sl_rem s) :: uint) - used) else sl_rem s)
     in
     rbind (assertc (u = node_id cur \<longrightarrow> 0 \<le> rem)) (\<lambda>_.
     rbind (vec_get reps (unat u)) (\<lambda>r'.
     rbind (remaining_quantum_time quantum_times (table ! unat u) (sint r')) (\<lambda>qt'.
     Inr \<lparr>sl_q = (if qt' > 0 then sl_q s @ [u] else sl_q s), sl_reps = reps,
          sl_acc = acc, sl_rem = rem\<rparr>))))))"

text \<open>
  The loops themselves. \<open>None\<close> would be a run that never ends (which the code shows for quantum
  times above the range of \<^verbatim>\<open>int\<close>); for the networks of \<open>net_ok\<close> the loops are proved to end.
\<close>

partial_function (option) leadership_loop ::
    "node_t list \<Rightarrow> uint list \<Rightarrow> node_t \<Rightarrow> slice_state \<Rightarrow> bool \<Rightarrow> (slice_state \<times> bool) res option" where
  [code]: "leadership_loop table qts cur s found =
     (case sl_q s of
        [] \<Rightarrow> Some (Inr (s, found))
      | u # q \<Rightarrow>
          if sl_rem s > 0
          then (case slice_step table qts cur u (s\<lparr>sl_q := q\<rparr>) of
                  Inl e \<Rightarrow> Some (Inl e)
                | Inr s' \<Rightarrow> leadership_loop table qts cur s' (found \<or> u = node_id cur))
          else Some (Inr (s, found)))"

partial_function (option) notification_loop ::
    "node_t list \<Rightarrow> uint list \<Rightarrow> node_t \<Rightarrow> int \<Rightarrow> slice_state \<Rightarrow> int list \<Rightarrow> (slice_state \<times> int list) res option" where
  [code]: "notification_loop table qts cur delay s ntimes =
     (case sl_q s of
        [] \<Rightarrow> Some (Inr (s, ntimes))
      | u # q \<Rightarrow>
          if sl_rem s > 0
          then (case slice_step table qts cur u (s\<lparr>sl_q := q\<rparr>) of
                  Inl e \<Rightarrow> Some (Inl e)
                | Inr s' \<Rightarrow> notification_loop table qts cur delay s'
                    (if u = node_id cur \<and> sl_rem s' > 0
                     then ntimes @ [max (sint (sl_acc s') - delay) 0] else ntimes))
          else Some (Inr (s, ntimes)))"

definition minimum_arrival_time :: "node_t list \<Rightarrow> node_t \<Rightarrow> uint" where
  "minimum_arrival_time table cur = fold (\<lambda>nd a. min a (arrival_time nd)) table (arrival_time cur)"

definition slice_init :: "uint list \<Rightarrow> node_t list \<Rightarrow> node_t \<Rightarrow> slice_state" where
  "slice_init q table cur = \<lparr>sl_q = q, sl_reps = replicate (length table) 0, sl_acc = 0,
     sl_rem = sint (time_left cur)\<rparr>"

text \<open>\<^verbatim>\<open>time_t\<close> values are read as integers; the queue argument is copied first.\<close>

definition calc_leadership_time ::
    "size_t queue_t \<Rightarrow> node_t list \<Rightarrow> node_t \<Rightarrow> uint \<Rightarrow> uint \<Rightarrow> int \<Rightarrow> int res option" where
  "calc_leadership_time queue table cur tiers sgx_max now =
     (case rbind (queue_print_func_dump queue copy_queuet_std_queue []) (\<lambda>(q, _).
           rbind (calc_quantum_times table tiers sgx_max) (\<lambda>qts. Inr (q, qts))) of
        Inl e \<Rightarrow> Some (Inl e)
      | Inr (q, qts) \<Rightarrow>
          map_option (\<lambda>r. rbind r (\<lambda>(s, found).
            rbind (assertc (\<not> found \<or> sl_rem s = 0)) (\<lambda>_.
            let comm_delay = max (now - uint (minimum_arrival_time table cur)) 0 in
            Inr (if found then max (sint (sl_acc s) - comm_delay) 0 else - 1))))
          (leadership_loop table qts cur (slice_init q table cur) False))"

definition calc_notification_times ::
    "size_t queue_t \<Rightarrow> node_t list \<Rightarrow> node_t \<Rightarrow> uint \<Rightarrow> uint \<Rightarrow> int \<Rightarrow> int list res option" where
  "calc_notification_times queue table cur tiers sgx_max now =
     (case rbind (queue_print_func_dump queue copy_queuet_std_queue []) (\<lambda>(q, _).
           rbind (calc_quantum_times table tiers sgx_max) (\<lambda>qts.
           let comm_delay = now - uint (minimum_arrival_time table cur) in
           rbind (assertc (0 \<le> comm_delay)) (\<lambda>_. Inr (q, qts, comm_delay)))) of
        Inl e \<Rightarrow> Some (Inl e)
      | Inr (q, qts, comm_delay) \<Rightarrow>
          map_option (\<lambda>r. rbind r (\<lambda>(s, ntimes). Inr ntimes))
          (notification_loop table qts cur comm_delay (slice_init q table cur) []))"

text \<open>
  \<^verbatim>\<open>calc_starting_time\<close>. The debug output evaluates \<^verbatim>\<open>calc_qt\<close> for every node; the front of an
  empty \<^verbatim>\<open>std::queue\<close> is undefined; \<^verbatim>\<open>count_lowest_at\<close> may be zero, and the quotient is then not
  finite.
\<close>

fun starting_loop :: "node_t list \<Rightarrow> uint list \<Rightarrow> node_t \<Rightarrow> uint \<Rightarrow> uint \<Rightarrow> uint list \<Rightarrow> int \<Rightarrow> int res" where
  "starting_loop table qts cur ntiers sgx_max [] t = Inr t"
| "starting_loop table qts cur ntiers sgx_max (u # q) t =
     rbind (vec_get table (unat u)) (\<lambda>nd.
     if node_id nd = node_id cur then Inr t
     else rbind (calc_qt nd qts ntiers sgx_max) (\<lambda>qt.
          starting_loop table qts cur ntiers sgx_max q (t + uint qt)))"

definition tier_totals :: "node_t list \<Rightarrow> uint \<Rightarrow> uint \<Rightarrow> int \<Rightarrow> uint \<Rightarrow> (uint \<times> uint) res" where
  "tier_totals table ntiers sgx_max u_tier lowest_at =
     rfold (\<lambda>(total, count) nd.
       rbind (calc_tier_number nd ntiers sgx_max) (\<lambda>tier.
       Inr (total + (if tier = u_tier then time_left nd else 0),
            count + (if tier = u_tier then (if lowest_at = arrival_time nd then 1 else 0) else 0))))
     (0, 0) table"

definition calc_starting_time ::
    "size_t queue_t \<Rightarrow> node_t list \<Rightarrow> node_t \<Rightarrow> uint \<Rightarrow> uint \<Rightarrow> int res" where
  "calc_starting_time queue table cur ntiers sgx_max =
     rbind (queue_print_func_dump queue copy_queuet_std_queue []) (\<lambda>(q, _).
     rbind (calc_quantum_times table ntiers sgx_max) (\<lambda>qts.
     rbind (rfold (\<lambda>_ nd. rbind (calc_qt nd qts ntiers sgx_max) (\<lambda>_. Inr ())) () table) (\<lambda>_.
     case q of
       [] \<Rightarrow> Inl Out_Of_Range
     | u # q' \<Rightarrow>
         if u = node_id cur then Inr 0
         else
           (let lowest_at = fold (\<lambda>nd a. min a (arrival_time nd)) table (- 1) in
            rbind (vec_get table (unat u)) (\<lambda>nd.
            rbind (calc_tier_number nd ntiers sgx_max) (\<lambda>u_tier.
            rbind (tier_totals table ntiers sgx_max u_tier lowest_at) (\<lambda>(total, count).
            rbind (if count * count = 0 then Inl Bad_Conversion
                   else uint_of_f32 \<lceil>f32 (uint_to_f32 total / uint_to_f32 (count * count))\<rceil>) (\<lambda>tier_qt.
            starting_loop table qts cur ntiers sgx_max q' (uint tier_qt)))))))))"

section \<open>What the slices add up to\<close>

text \<open>
  The invariant of both loops, over natural numbers: \<open>Qn u\<close> is the quantum time and \<open>sgxt_of table u\<close> the
  drawn time of node \<open>u\<close>, \<open>reps_of s u\<close> the number of slices it has had. After \<open>r\<close> slices a
  node has used \<open>min s (r * Q)\<close> of its time. A node id occurs at most \<open>100\<close> times in the queue at
  the start, which keeps \<^verbatim>\<open>reps * quantum_time\<close> within \<^verbatim>\<open>int\<close>.
\<close>

abbreviation reps_of :: "slice_state \<Rightarrow> nat \<Rightarrow> nat" where
  "reps_of s u \<equiv> unat (sl_reps s ! u)"

abbreviation used_of :: "node_t list \<Rightarrow> (nat \<Rightarrow> nat) \<Rightarrow> slice_state \<Rightarrow> nat \<Rightarrow> nat" where
  "used_of table Qn s u \<equiv> min (sgxt_of table u) (reps_of s u * Qn u)"

definition slice_inv :: "node_t list \<Rightarrow> (nat \<Rightarrow> nat) \<Rightarrow> nat \<Rightarrow> slice_state \<Rightarrow> bool" where
  "slice_inv table Qn c s \<longleftrightarrow>
     length (sl_reps s) = length table
     \<and> (\<forall>u \<in> set (sl_q s). unat u < length table)
     \<and> (\<forall>u < length table. count_list (sl_q s) (of_nat u) \<le> 100
          \<and> (reps_of s u + count_list (sl_q s) (of_nat u)) * Qn u \<le> sgxt_of table u + 101 * Qn u)
     \<and> unat (sl_acc s) \<le> (\<Sum>u < length table. used_of table Qn s u)
     \<and> min (unat (time_left (table ! c))) (used_of table Qn s c) \<le> unat (sl_acc s)
     \<and> sl_rem s = int (unat (time_left (table ! c)) - used_of table Qn s c)
     \<and> (0 < reps_of s c \<and> reps_of s c * Qn c < sgxt_of table c \<longrightarrow> of_nat c \<in> set (sl_q s))"

definition slice_measure :: "node_t list \<Rightarrow> slice_state \<Rightarrow> nat" where
  "slice_measure table s = (\<Sum>u < length table. sgxt_of table u - reps_of s u) + length (sl_q s)"

text \<open>The facts about the table and the quantum times that the loops rely on.\<close>

definition slice_ctx :: "node_t list \<Rightarrow> uint list \<Rightarrow> (nat \<Rightarrow> nat) \<Rightarrow> bool" where
  "slice_ctx table qts Qn \<longleftrightarrow> length qts = length table \<and> length table < 2 ^ 12
     \<and> (\<Sum>u < length table. sgxt_of table u) < 2 ^ 24
     \<and> (\<forall>u < length table. unat (qts ! u) = Qn u \<and> 1 \<le> Qn u \<and> Qn u < 2 ^ 24
          \<and> sgxt_of table u < 2 ^ 24 \<and> unat (node_id (table ! u)) = u
          \<and> unat (time_left (table ! u)) \<le> sgxt_of table u)"

text \<open>What one round of the loops changes.\<close>

definition slice_next :: "node_t list \<Rightarrow> (nat \<Rightarrow> nat) \<Rightarrow> nat \<Rightarrow> uint \<Rightarrow> slice_state \<Rightarrow> slice_state \<Rightarrow> bool" where
  "slice_next table Qn c u s s' \<longleftrightarrow>
     sl_q s' = tl (sl_q s) @ (if Suc (reps_of s (unat u)) * Qn (unat u) < sgxt_of table (unat u) then [u] else [])
     \<and> length (sl_reps s') = length (sl_reps s)
     \<and> (\<forall>v. reps_of s' v = (if v = unat u then Suc (reps_of s v) else reps_of s v))
     \<and> unat (sl_acc s') = unat (sl_acc s) + min (min (Qn (unat u)) (sgxt_of table (unat u) - reps_of s (unat u) * Qn (unat u))) (nat (sl_rem s))
     \<and> sl_rem s' = (if unat u = c then sl_rem s - int (min (min (Qn (unat u)) (sgxt_of table (unat u) - reps_of s (unat u) * Qn (unat u))) (nat (sl_rem s)))
                    else sl_rem s)"

text \<open>What a run of the loops has done when it stops, with the notification times \<open>ts\<close> it collected.\<close>

definition slice_outcome :: "node_t list \<Rightarrow> (nat \<Rightarrow> nat) \<Rightarrow> nat \<Rightarrow> int \<Rightarrow> slice_state \<Rightarrow> slice_state \<Rightarrow> int list \<Rightarrow> bool" where
  "slice_outcome table Qn c delay s s' ts \<longleftrightarrow> slice_inv table Qn c s' \<and> (sl_q s' = [] \<or> sl_rem s' = 0)
     \<and> unat (sl_acc s) \<le> unat (sl_acc s') \<and> reps_of s c \<le> reps_of s' c
     \<and> (of_nat c \<notin> set (sl_q s) \<longrightarrow> reps_of s' c = reps_of s c)
     \<and> (of_nat c \<in> set (sl_q s) \<longrightarrow> of_nat c \<in> set (sl_q s') \<or> 0 < reps_of s' c)
     \<and> sorted_wrt (\<lambda>a b. a < b \<or> a = 0 \<and> b = 0) ts
     \<and> (\<forall>t \<in> set ts. (max (sint (sl_acc s) - delay) 0 < t \<or> max (sint (sl_acc s) - delay) 0 = 0 \<and> t = 0)
          \<and> 0 \<le> t \<and> t \<le> max (sint (sl_acc s') - delay) 0)"

text \<open>The queue a node received: ids of table entries, none of them more than a hundred times.\<close>

definition queue_ok :: "node_t list \<Rightarrow> uint list \<Rightarrow> bool" where
  "queue_ok table q \<longleftrightarrow> list_all (\<lambda>u. unat u < length table \<and> count_list q u \<le> 100) q"

text \<open>The queue of \<^verbatim>\<open>test_leadership_time\<close>.\<close>

definition test_queue :: "size_t queue_t" where
  "test_queue = (case rfold queue_push (fresh_queue True) [0, 1, 2, 3] of
     Inr q \<Rightarrow> q | Inl _ \<Rightarrow> fresh_queue True)"

section \<open>One slice\<close>

lemma slice_ctxD:
  assumes "slice_ctx table qts Qn" and "u < length table"
  shows "unat (qts ! u) = Qn u" "1 \<le> Qn u" "Qn u < 2 ^ 24" "sgxt_of table u < 2 ^ 24"
    "unat (node_id (table ! u)) = u" "unat (time_left (table ! u)) \<le> sgxt_of table u" "u < length qts"
  using assms by (auto simp: slice_ctx_def)

lemma of_nat_eq_uint: "k < 2 ^ 32 \<Longrightarrow> (of_nat k = (u :: uint)) = (unat u = k)"
  by (auto simp: word_unat_eq_iff unat_of_nat_uint)

lemma slice_ctx_id:
  "slice_ctx table qts Qn \<Longrightarrow> c < length table \<Longrightarrow> (u = node_id (table ! c)) = (unat u = c)"
  by (simp add: word_unat_eq_iff slice_ctxD(5))

lemma signed_int_diff: "a < 2 ^ 24 \<Longrightarrow> b < 2 ^ 31 - 2 ^ 24 \<Longrightarrow> signed_int (int a - int b) = Inr (int a - int b)"
  by (simp add: signed_int_def int_min_def int_max_def)

lemma mult_pos_less: "1 \<le> Q \<Longrightarrow> r * Q < k \<Longrightarrow> r < k" for r Q k :: nat
  using mult_le_mono2 [of 1 Q r] by linarith

lemma min_max_int: "min (int a) (max (int b - int c) 0) = int (min a (b - c))"
  by (cases "c \<le> b") (auto simp: min_def max_def)

lemma spend_upto:
  fixes t a k acc :: nat
  shows "int (t - a) - int (min k (t - a)) = int (t - (a + k))"
    and "min t a \<le> acc \<Longrightarrow> min t (a + k) \<le> acc + min k (t - a)"
  by (auto simp: min_def split: if_splits)

lemma rqt_exact:
  assumes ctx: "slice_ctx table qts Qn" and u: "u < length table" and r: "r * Qn u < 2 ^ 31 - 2 ^ 24"
  shows "remaining_quantum_time qts (table ! u) (int r) =
    Inr (of_nat (min (Qn u) (sgxt_of table u - r * Qn u)))"
proof -
  note D = slice_ctxD [OF ctx u]
  have q: "sint (qts ! u) = int (Qn u)" using D(1,3) by (subst sint_eq_unat) auto
  have s: "sint (sgx_time (table ! u)) = int (sgxt_of table u)" using D(4) by (subst sint_eq_unat) auto
  have p: "signed_int (int r * int (Qn u)) = Inr (int (r * Qn u))"
    using r by (simp add: signed_int_def int_min_def int_max_def flip: of_nat_mult)
  have d: "signed_int (int (sgxt_of table u) - int (r * Qn u)) = Inr (int (sgxt_of table u) - int (r * Qn u))"
    using r D(4) by (intro signed_int_diff)
  have "min (int (Qn u)) (max (int (sgxt_of table u) - int (r * Qn u)) 0) = int (min (Qn u) (sgxt_of table u - r * Qn u))"
    by (rule min_max_int)
  then show ?thesis
    using D(5,7) by (simp add: remaining_quantum_time_def q s p d Let_def del: of_nat_mult of_nat_min of_nat_unat)
qed

lemma sum_upd: "U < n \<Longrightarrow> (\<Sum>v < n. if v = U then f v + k else f v) = (\<Sum>v < (n::nat). f v) + (k::nat)"
proof -
  assume "U < n"
  have "(\<Sum>v < n. if v = U then f v + k else f v) = (\<Sum>v < n. f v + (if v = U then k else 0))"
    by (rule sum.cong) auto
  also have "\<dots> = (\<Sum>v < n. f v) + k" using \<open>U < n\<close> by (simp add: sum.distrib)
  finally show ?thesis .
qed

lemma used_step: "min s (r * Q + Q) = min s (r * Q) + min Q (s - r * Q)" for s r Q :: nat
  by (cases "s \<le> r * Q"; cases "s \<le> r * Q + Q") (auto simp: min_def)

lemma slice_step_ok:
  assumes ctx: "slice_ctx table qts Qn" and u: "unat u < length table" and c: "c < length table"
    and len: "length (sl_reps s) = length table"
    and r: "Suc (reps_of s (unat u)) * Qn (unat u) < 2 ^ 31 - 2 ^ 24"
    and R: "sl_rem s = int R" "R < 2 ^ 24"
  defines "slc \<equiv> min (Qn (unat u)) (sgxt_of table (unat u) - reps_of s (unat u) * Qn (unat u))"
  shows "slice_step table qts (table ! c) u s = Inr
    \<lparr>sl_q = (if Suc (reps_of s (unat u)) * Qn (unat u) < sgxt_of table (unat u) then sl_q s @ [u] else sl_q s),
     sl_reps = (sl_reps s)[unat u := of_nat (Suc (reps_of s (unat u)))],
     sl_acc = sl_acc s + of_nat (min slc R),
     sl_rem = int (if unat u = c then R - min slc R else R)\<rparr>"
proof -
  let ?U = "unat u"
  let ?r = "reps_of s ?U"
  note D = slice_ctxD [OF ctx u]
  have "Suc ?r < 2 ^ 31 - 2 ^ 24" using D(2) r by (rule mult_pos_less)
  then have r0: "Suc ?r < 2 ^ 31" by simp
  have w: "sl_reps s ! ?U + 1 = of_nat (Suc ?r)" by simp
  have sr: "sint (sl_reps s ! ?U) = int ?r" using r0 by (subst sint_eq_unat) auto
  have "unat (of_nat (Suc ?r) :: uint) = Suc ?r" using r0 by (intro unat_of_nat_uint) simp
  then have sr': "sint (of_nat (Suc ?r) :: uint) = int (Suc ?r)" using r0 by (subst sint_eq_unat) simp_all
  have q1: "remaining_quantum_time qts (table ! ?U) (int ?r) = Inr (of_nat slc)"
    unfolding slc_def using r by (intro rqt_exact [OF ctx u]) (simp add: algebra_simps)
  let ?slc' = "min (Qn ?U) (sgxt_of table ?U - Suc ?r * Qn ?U)"
  have q2: "remaining_quantum_time qts (table ! ?U) (int (Suc ?r)) = Inr (of_nat ?slc')"
    using r by (intro rqt_exact [OF ctx u])
  have sl: "slc < 2 ^ 24" "?slc' < 2 ^ 24" using D(3) by (auto simp: slc_def min_def)
  have "(0 < (of_nat ?slc' :: uint)) = (0 < ?slc')"
    using sl(2) unat_of_nat_uint [of ?slc'] by (simp add: word_less_nat_alt del: of_nat_min)
  also have "\<dots> = (Suc ?r * Qn ?U < sgxt_of table ?U)" using D(2) by auto
  finally have again: "(0 < (of_nat ?slc' :: uint)) = (Suc ?r * Qn ?U < sgxt_of table ?U)" .
  have used: "min (of_nat slc :: uint) (of_nat R) = of_nat (min slc R)"
    using sl(1) R(2) unat_of_nat_uint [of slc] unat_of_nat_uint [of R]
    by (auto simp: min_def word_le_nat_alt)
  have "(of_nat R :: uint) - of_nat (min slc R) = of_nat (R - min slc R)" by (simp add: of_nat_diff)
  moreover have "sint (of_nat (R - min slc R) :: uint) = int (R - min slc R)"
    using R(2) unat_of_nat_uint [of "R - min slc R"] by (subst sint_eq_unat) auto
  ultimately have rem: "sint ((of_nat R :: uint) - of_nat (min slc R)) = int (R - min slc R)" by simp
  have me: "(u = node_id (table ! c)) = (?U = c)" by (rule slice_ctx_id [OF ctx c])
  show ?thesis
    using u len
    by (simp add: slice_step_def sr q1 w sr' q2 again R(1) used rem me Let_def
        del: of_nat_Suc of_nat_min mult_Suc of_nat_diff of_nat_unat)
qed

lemma sum_used_le: "(\<Sum>v < length table. used_of table Qn s v) \<le> (\<Sum>v < length table. sgxt_of table v)"
  by (rule sum_mono) simp

lemma slice_inv_count:
  "slice_inv table Qn c s \<Longrightarrow> v < length table \<Longrightarrow>
     (reps_of s v + count_list (sl_q s) (of_nat v)) * Qn v \<le> sgxt_of table v + 101 * Qn v"
  by (simp add: slice_inv_def)

lemma slice_inv_reps:
  assumes ctx: "slice_ctx table qts Qn" and inv: "slice_inv table Qn c s" and q: "sl_q s = u # q"
  shows "unat u < length table" and "Suc (reps_of s (unat u)) * Qn (unat u) \<le> sgxt_of table (unat u) + 101 * Qn (unat u)"
    and "Suc (reps_of s (unat u)) * Qn (unat u) < 2 ^ 31 - 2 ^ 24"
proof -
  let ?U = "unat u"
  show U: "?U < length table" using inv q by (auto simp: slice_inv_def)
  then have "(reps_of s ?U + count_list (sl_q s) (of_nat ?U)) * Qn ?U \<le> sgxt_of table ?U + 101 * Qn ?U"
    by (rule slice_inv_count [OF inv])
  moreover have "Suc (reps_of s ?U) \<le> reps_of s ?U + count_list (sl_q s) (of_nat ?U)" using q by simp
  then have "Suc (reps_of s ?U) * Qn ?U \<le> (reps_of s ?U + count_list (sl_q s) (of_nat ?U)) * Qn ?U"
    by (rule mult_le_mono1)
  ultimately show le: "Suc (reps_of s ?U) * Qn ?U \<le> sgxt_of table ?U + 101 * Qn ?U" by linarith
  with slice_ctxD(3,4) [OF ctx U] show "Suc (reps_of s ?U) * Qn ?U < 2 ^ 31 - 2 ^ 24" by simp
qed

lemma slice_step_next:
  assumes ctx: "slice_ctx table qts Qn" and inv: "slice_inv table Qn c s" and c: "c < length table"
    and q: "sl_q s = u # q" and pos: "0 < sl_rem s"
  shows "\<exists>s'. slice_step table qts (table ! c) u (s\<lparr>sl_q := q\<rparr>) = Inr s' \<and> slice_next table Qn c u s s'"
proof -
  let ?U = "unat u"
  let ?slice = "min (Qn ?U) (sgxt_of table ?U - reps_of s ?U * Qn ?U)"
  note U = slice_inv_reps(1) [OF ctx inv q]
  define R where "R = unat (time_left (table ! c)) - used_of table Qn s c"
  have R: "sl_rem s = int R" "R < 2 ^ 24"
    using inv slice_ctxD(4,6) [OF ctx c] by (auto simp: slice_inv_def R_def)
  have len: "length (sl_reps s) = length table" using inv by (simp add: slice_inv_def)
  have acc: "unat (sl_acc s) < 2 ^ 24"
    using inv sum_used_le [where table = table and Qn = Qn and s = s] ctx by (simp add: slice_inv_def slice_ctx_def)
  have "unat (of_nat (min ?slice R) :: uint) = min ?slice R"
    using R(2) by (intro unat_of_nat_uint) simp
  then have acc': "unat (sl_acc s + of_nat (min ?slice R)) = unat (sl_acc s) + min ?slice R"
    using acc R(2) by (simp add: unat_word_ariths del: of_nat_min)
  have "Suc (reps_of s ?U) < 2 ^ 31 - 2 ^ 24"
    using slice_ctxD(2) [OF ctx U] slice_inv_reps(3) [OF ctx inv q] by (rule mult_pos_less)
  then have "Suc (reps_of s ?U) < 2 ^ 32" by simp
  then have "unat (of_nat (Suc (reps_of s ?U)) :: uint) = Suc (reps_of s ?U)" by (rule unat_of_nat_uint)
  moreover note slice_step_ok [OF ctx U c, of "s\<lparr>sl_q := q\<rparr>" R] slice_inv_reps(3) [OF ctx inv q]
  ultimately show ?thesis
    using len R U acc' q
    by (auto simp: slice_next_def nth_list_update of_nat_diff simp del: of_nat_Suc mult_Suc of_nat_min of_nat_unat)
qed

text \<open>Every round keeps the bound on the repetitions and the places in the queue of a node.\<close>

lemma slice_next_count:
  assumes ctx: "slice_ctx table qts Qn" and inv: "slice_inv table Qn c s" and q: "sl_q s = u # q"
    and nx: "slice_next table Qn c u s s'" and v: "v < length table"
  shows "count_list (sl_q s') (of_nat v) \<le> 100
    \<and> (reps_of s' v + count_list (sl_q s') (of_nat v)) * Qn v \<le> sgxt_of table v + 101 * Qn v"
proof -
  let ?U = "unat u" and ?k = "count_list (sl_q s) (of_nat v)"
  have old: "?k \<le> 100" "(reps_of s v + ?k) * Qn v \<le> sgxt_of table v + 101 * Qn v"
    using inv v by (auto simp: slice_inv_def)
  have of_nat: "(of_nat v = u) = (v = ?U)"
    using v ctx of_nat_eq_uint [of v u] by (auto simp: slice_ctx_def eq_commute)
  have reps: "reps_of s' v = (if v = ?U then Suc (reps_of s v) else reps_of s v)" for v
    using nx by (simp add: slice_next_def)
  have q': "sl_q s' = q @ (if Suc (reps_of s ?U) * Qn ?U < sgxt_of table ?U then [u] else [])"
    using nx q by (simp add: slice_next_def)
  show ?thesis
  proof (cases "v = ?U \<and> Suc (reps_of s ?U) * Qn ?U < sgxt_of table ?U")
    case True
    then have same: "count_list (sl_q s') (of_nat v) = ?k" using of_nat by (simp add: q q')
    have "?k * Qn v \<le> 100 * Qn v" using old(1) by (rule mult_le_mono1)
    moreover have "Suc (reps_of s v) * Qn v < sgxt_of table v" using True by simp
    moreover have "(Suc (reps_of s v) + ?k) * Qn v = Suc (reps_of s v) * Qn v + ?k * Qn v"
      by (rule add_mult_distrib)
    ultimately have "(Suc (reps_of s v) + ?k) * Qn v \<le> sgxt_of table v + 101 * Qn v" by linarith
    with True same old(1) show ?thesis by (simp add: reps)
  next
    case False
    then show ?thesis using old of_nat by (auto simp: q q' reps)
  qed
qed

text \<open>Every round keeps the account of the time used by all nodes and of the time left to node \<open>c\<close>.\<close>

lemma slice_next_account:
  assumes inv: "slice_inv table Qn c s" and U: "unat u < length table" and nx: "slice_next table Qn c u s s'"
  shows "unat (sl_acc s') \<le> (\<Sum>v < length table. used_of table Qn s' v)"
    and "min (unat (time_left (table ! c))) (used_of table Qn s' c) \<le> unat (sl_acc s')"
    and "sl_rem s' = int (unat (time_left (table ! c)) - used_of table Qn s' c)"
proof -
  let ?U = "unat u" and ?n = "length table"
  let ?slice = "min (Qn ?U) (sgxt_of table ?U - reps_of s ?U * Qn ?U)"
  let ?used = "min ?slice (nat (sl_rem s))"
  have reps: "reps_of s' v = (if v = ?U then Suc (reps_of s v) else reps_of s v)" for v
    using nx by (simp add: slice_next_def)
  have used': "used_of table Qn s' v = (if v = ?U then used_of table Qn s v + ?slice else used_of table Qn s v)" for v
    using used_step [of "sgxt_of table ?U" "reps_of s ?U" "Qn ?U"] by (simp add: reps add.commute)
  have acc': "unat (sl_acc s') = unat (sl_acc s) + ?used" using nx by (simp add: slice_next_def)
  have sum': "(\<Sum>v < ?n. used_of table Qn s' v) = (\<Sum>v < ?n. used_of table Qn s v) + ?slice"
    unfolding used' by (rule sum_upd [OF U])
  have old: "unat (sl_acc s) \<le> (\<Sum>v < ?n. used_of table Qn s v)"
    "min (unat (time_left (table ! c))) (used_of table Qn s c) \<le> unat (sl_acc s)"
    "sl_rem s = int (unat (time_left (table ! c)) - used_of table Qn s c)" using inv by (simp_all add: slice_inv_def)
  show "unat (sl_acc s') \<le> (\<Sum>v < ?n. used_of table Qn s' v)"
    using old(1) unfolding acc' sum' by (rule add_mono) (rule min.cobounded1)
  show "min (unat (time_left (table ! c))) (used_of table Qn s' c) \<le> unat (sl_acc s')"
    using spend_upto(2) [OF old(2), of ?slice] old(2) unfolding used' [of c] acc' old(3) nat_int by (cases "c = ?U") auto
  have "sl_rem s' = (if ?U = c then sl_rem s - int ?used else sl_rem s)" using nx by (simp only: slice_next_def)
  then show "sl_rem s' = int (unat (time_left (table ! c)) - used_of table Qn s' c)"
    unfolding used' [of c] old(3) nat_int spend_upto(1) by (simp only: eq_commute [of c] split: if_split) blast
qed

lemma slice_next_inv:
  assumes ctx: "slice_ctx table qts Qn" and inv: "slice_inv table Qn c s" and c: "c < length table"
    and q: "sl_q s = u # q" and nx: "slice_next table Qn c u s s'"
  shows "slice_inv table Qn c s'"
proof -
  have reps: "reps_of s' v = (if v = unat u then Suc (reps_of s v) else reps_of s v)" for v
    using nx by (simp add: slice_next_def)
  have q': "sl_q s' = q @ (if Suc (reps_of s (unat u)) * Qn (unat u) < sgxt_of table (unat u) then [u] else [])"
    using nx q by (simp add: slice_next_def)
  have mem: "of_nat c \<in> set (sl_q s')" if "0 < reps_of s' c" "reps_of s' c * Qn c < sgxt_of table c"
  proof (cases "c = unat u")
    case True
    with that show ?thesis by (simp add: q' reps)
  next
    case False
    with that inv have "of_nat c \<in> set (u # q)" by (simp add: slice_inv_def reps q)
    with of_nat_eq_uint [of c u] ctx c False show ?thesis by (auto simp: q' slice_ctx_def)
  qed
  have len: "length (sl_reps s') = length table" using inv nx by (simp add: slice_inv_def slice_next_def)
  have "\<forall>v \<in> set (u # q). unat v < length table" using inv unfolding slice_inv_def q by blast
  then have ids: "\<forall>v \<in> set (sl_q s'). unat v < length table" by (auto simp: q')
  show ?thesis
    unfolding slice_inv_def
    using len ids slice_next_count [OF ctx inv q nx] slice_next_account [OF inv slice_inv_reps(1) [OF ctx inv q] nx] mem by blast
qed

lemma slice_next_measure:
  assumes ctx: "slice_ctx table qts Qn" and inv: "slice_inv table Qn c s"
    and q: "sl_q s = u # q" and nx: "slice_next table Qn c u s s'"
  shows "slice_measure table s' < slice_measure table s"
proof -
  let ?U = "unat u" and ?n = "length table"
  note U = slice_inv_reps(1) [OF ctx inv q]
  have reps: "reps_of s' v = (if v = ?U then Suc (reps_of s v) else reps_of s v)" for v
    using nx by (simp add: slice_next_def)
  have q': "sl_q s' = q @ (if Suc (reps_of s ?U) * Qn ?U < sgxt_of table ?U then [u] else [])"
    using nx q by (simp add: slice_next_def)
  have le: "(\<Sum>v < ?n. sgxt_of table v - reps_of s' v) \<le> (\<Sum>v < ?n. sgxt_of table v - reps_of s v)"
    by (rule sum_mono) (simp add: reps diff_le_mono2)
  show ?thesis
  proof (cases "Suc (reps_of s ?U) * Qn ?U < sgxt_of table ?U")
    case True
    have "Suc (reps_of s ?U) < sgxt_of table ?U"
      using slice_ctxD(2) [OF ctx U] True by (rule mult_pos_less)
    then have "reps_of s ?U < sgxt_of table ?U" by simp
    then have "(\<Sum>v < ?n. sgxt_of table v - reps_of s' v) < (\<Sum>v < ?n. sgxt_of table v - reps_of s v)"
      using U by (intro sum_strict_mono_ex1) (auto simp: reps)
    with q q' show ?thesis by (simp add: slice_measure_def)
  next
    case False
    with le q q' show ?thesis by (simp add: slice_measure_def)
  qed
qed

section \<open>The loops\<close>

lemma leadership_loop_unfold:
  "sl_q s = [] \<or> sl_rem s \<le> 0 \<Longrightarrow> leadership_loop table qts cur s found = Some (Inr (s, found))"
  "sl_q s = u # q \<Longrightarrow> 0 < sl_rem s \<Longrightarrow> slice_step table qts cur u (s\<lparr>sl_q := q\<rparr>) = Inr s' \<Longrightarrow>
     leadership_loop table qts cur s found = leadership_loop table qts cur s' (found \<or> u = node_id cur)"
  by (auto simp: leadership_loop.simps [of table qts cur s] split: list.split)

lemma notification_loop_unfold:
  "sl_q s = [] \<or> sl_rem s \<le> 0 \<Longrightarrow> notification_loop table qts cur delay s ntimes = Some (Inr (s, ntimes))"
  "sl_q s = u # q \<Longrightarrow> 0 < sl_rem s \<Longrightarrow> slice_step table qts cur u (s\<lparr>sl_q := q\<rparr>) = Inr s' \<Longrightarrow>
     notification_loop table qts cur delay s ntimes = notification_loop table qts cur delay s'
       (if u = node_id cur \<and> sl_rem s' > 0 then ntimes @ [max (sint (sl_acc s') - delay) 0] else ntimes)"
  by (auto simp: notification_loop.simps [of table qts cur delay s] split: list.split)

text \<open>The clock a state shows after the communication delay.\<close>

lemma slice_acc_sint:
  assumes "slice_ctx table qts Qn" and "slice_inv table Qn c s"
  shows "sint (sl_acc s) = int (unat (sl_acc s))"
    and "unat (sl_acc s) \<le> (\<Sum>u < length table. sgxt_of table u)"
proof -
  show "unat (sl_acc s) \<le> (\<Sum>u < length table. sgxt_of table u)"
    using assms(2) sum_used_le [where table = table and Qn = Qn and s = s] by (simp add: slice_inv_def)
  with assms(1) show "sint (sl_acc s) = int (unat (sl_acc s))"
    by (intro sint_eq_unat) (simp add: slice_ctx_def)
qed

text \<open>The node's own slice always moves the clock.\<close>

lemma slice_next_progress:
  assumes ctx: "slice_ctx table qts Qn" and inv: "slice_inv table Qn c s" and c: "c < length table" and pos: "0 < sl_rem s"
    and nx: "slice_next table Qn c u s s1" and u: "unat u = c"
  shows "unat (sl_acc s) < unat (sl_acc s1)"
proof -
  have "used_of table Qn s c < unat (time_left (table ! c))" using inv pos by (simp add: slice_inv_def)
  then have "reps_of s c * Qn c < sgxt_of table c" using slice_ctxD(6) [OF ctx c] by (auto simp: min_def split: if_splits)
  then have "0 < min (min (Qn c) (sgxt_of table c - reps_of s c * Qn c)) (nat (sl_rem s))"
    using slice_ctxD(2) [OF ctx c] pos by simp
  then show ?thesis using nx unfolding slice_next_def u by linarith
qed

text \<open>
  What a run of either loop from \<open>s\<close> to \<open>s'\<close> with the notification times \<open>ts\<close> promises; the
  promise holds of the run that stops at once and of a round followed by a run that keeps it.
\<close>

lemma slice_outcome_stop:
  assumes "slice_inv table Qn c s" and "sl_q s = [] \<or> sl_rem s \<le> 0"
  shows "slice_outcome table Qn c delay s s []"
  using assms by (auto simp: slice_outcome_def slice_inv_def)

lemma slice_outcome_round:
  assumes ctx: "slice_ctx table qts Qn" and inv: "slice_inv table Qn c s" and c: "c < length table"
    and q: "sl_q s = u # q" and pos: "0 < sl_rem s" and nx: "slice_next table Qn c u s s1"
    and rest: "slice_outcome table Qn c delay s1 s' ts"
  shows "slice_outcome table Qn c delay s s' ((if u = node_id (table ! c) \<and> sl_rem s1 > 0 then [max (sint (sl_acc s1) - delay) 0] else []) @ ts)"
proof -
  let ?t = "max (sint (sl_acc s1) - delay) 0" and ?lo = "max (sint (sl_acc s) - delay) 0" and ?hi = "max (sint (sl_acc s') - delay) 0"
  let ?k = "if u = node_id (table ! c) \<and> sl_rem s1 > 0 then [?t] else []"
  note inv1 = slice_next_inv [OF ctx inv c q nx]
  have I: "slice_inv table Qn c s'" "sl_q s' = [] \<or> sl_rem s' = 0" and a: "unat (sl_acc s1) \<le> unat (sl_acc s')"
    and r: "reps_of s1 c \<le> reps_of s' c" and nq: "of_nat c \<notin> set (sl_q s1) \<longrightarrow> reps_of s' c = reps_of s1 c"
    and iq: "of_nat c \<in> set (sl_q s1) \<longrightarrow> of_nat c \<in> set (sl_q s') \<or> 0 < reps_of s' c"
    and ts: "sorted_wrt (\<lambda>a b. a < b \<or> a = 0 \<and> b = 0) ts" "\<forall>t \<in> set ts. (?t < t \<or> ?t = 0 \<and> t = 0) \<and> 0 \<le> t \<and> t \<le> ?hi"
    using rest by (auto simp: slice_outcome_def)
  have me: "(u = node_id (table ! c)) = (unat u = c)" "(of_nat c = u) = (unat u = c)"
    using slice_ctx_id [OF ctx c, of u] of_nat_eq_uint [of c u] ctx c by (auto simp: slice_ctx_def)
  have reps: "reps_of s1 c = (if unat u = c then Suc (reps_of s c) else reps_of s c)" and a1: "unat (sl_acc s) \<le> unat (sl_acc s1)"
    and q2: "unat u \<noteq> c \<Longrightarrow> of_nat c \<in> set (sl_q s1) \<longleftrightarrow> of_nat c \<in> set q"
    using nx q me by (auto simp: slice_next_def)
  have q1: "of_nat c \<in> set (sl_q s) \<longleftrightarrow> unat u = c \<or> of_nat c \<in> set q" using me q by auto
  note acc = slice_acc_sint(1) [OF ctx inv] slice_acc_sint(1) [OF ctx inv1] slice_acc_sint(1) [OF ctx I(1)]
  have mono: "sint (sl_acc s) \<le> sint (sl_acc s1)" "sint (sl_acc s1) \<le> sint (sl_acc s')"
    using a a1 acc by (simp_all only: of_nat_le_iff)
  have "sint (sl_acc s) < sint (sl_acc s1)" if "unat u = c"
    using slice_next_progress [OF ctx inv c pos nx that] acc by (simp only: of_nat_less_iff)
  then have "\<forall>t \<in> set ?k. (?lo < t \<or> ?lo = 0 \<and> t = 0) \<and> 0 \<le> t \<and> t \<le> ?hi" using mono(2) by (auto simp: me)
  then have "\<forall>t \<in> set (?k @ ts). (?lo < t \<or> ?lo = 0 \<and> t = 0) \<and> 0 \<le> t \<and> t \<le> ?hi" using ts(2) mono(1) by force
  moreover have "sorted_wrt (\<lambda>a b. a < b \<or> a = 0 \<and> b = 0) (?k @ ts)" using ts by auto
  moreover have "of_nat c \<notin> set (sl_q s) \<longrightarrow> reps_of s' c = reps_of s c" using nq q1 q2 reps by auto
  moreover have "of_nat c \<in> set (sl_q s) \<longrightarrow> of_nat c \<in> set (sl_q s') \<or> 0 < reps_of s' c"
    using iq q1 q2 reps r by (cases "unat u = c") auto
  moreover have "unat (sl_acc s) \<le> unat (sl_acc s')" "reps_of s c \<le> reps_of s' c" using a a1 r reps by (auto split: if_splits)
  ultimately show ?thesis using I unfolding slice_outcome_def by blast
qed

lemma slice_loops:
  assumes ctx: "slice_ctx table qts Qn" and c: "c < length table"
  shows "slice_inv table Qn c s \<Longrightarrow> \<exists>s' ts.
       leadership_loop table qts (table ! c) s found = Some (Inr (s', found \<or> reps_of s c < reps_of s' c))
     \<and> notification_loop table qts (table ! c) delay s ntimes = Some (Inr (s', ntimes @ ts))
     \<and> slice_outcome table Qn c delay s s' ts"
proof (induction "slice_measure table s" arbitrary: s found ntimes rule: less_induct)
  case less
  note inv = less.prems
  show ?case
  proof (cases "sl_q s = [] \<or> sl_rem s \<le> 0")
    case True
    with slice_outcome_stop [OF inv True, of delay] leadership_loop_unfold(1) [OF True] notification_loop_unfold(1) [OF True]
    show ?thesis by (intro exI [of _ s] exI [of _ "[]"]) auto
  next
    case False
    then obtain u q where q: "sl_q s = u # q" and pos: "0 < sl_rem s" by (cases "sl_q s") auto
    from slice_step_next [OF ctx inv c q pos] obtain s1 where
      st: "slice_step table qts (table ! c) u (s\<lparr>sl_q := q\<rparr>) = Inr s1" and nx: "slice_next table Qn c u s s1" by auto
    define k where "k = (if u = node_id (table ! c) \<and> sl_rem s1 > 0 then [max (sint (sl_acc s1) - delay) 0] else [])"
    from less.hyps [OF slice_next_measure [OF ctx inv q nx] slice_next_inv [OF ctx inv c q nx], of "found \<or> u = node_id (table ! c)" "ntimes @ k"]
    obtain s' ts where
      l: "leadership_loop table qts (table ! c) s1 (found \<or> u = node_id (table ! c)) =
            Some (Inr (s', (found \<or> u = node_id (table ! c)) \<or> reps_of s1 c < reps_of s' c))"
      and n: "notification_loop table qts (table ! c) delay s1 (ntimes @ k) = Some (Inr (s', ntimes @ k @ ts))"
      and out: "slice_outcome table Qn c delay s1 s' ts" by auto
    have r: "reps_of s1 c \<le> reps_of s' c" using out by (simp add: slice_outcome_def)
    have reps: "reps_of s1 c = (if unat u = c then Suc (reps_of s c) else reps_of s c)" using nx by (simp add: slice_next_def)
    have "leadership_loop table qts (table ! c) s found = Some (Inr (s', found \<or> reps_of s c < reps_of s' c))"
      using leadership_loop_unfold(2) [OF q pos st, of found] l r reps slice_ctx_id [OF ctx c, of u] by auto
    moreover have "notification_loop table qts (table ! c) delay s ntimes = Some (Inr (s', ntimes @ k @ ts))"
      using notification_loop_unfold(2) [OF q pos st, of delay ntimes] n by (auto simp: k_def)
    moreover have "slice_outcome table Qn c delay s s' (k @ ts)"
      using slice_outcome_round [OF ctx inv c q pos nx out] by (simp only: k_def)
    ultimately show ?thesis by blast
  qed
qed

section \<open>The whole computation\<close>

lemma copy_queue_fold: "fold copy_queuet_std_queue xs acc = acc @ map ucast xs"
  by (induction xs arbitrary: acc) (auto simp: copy_queuet_std_queue_def)

lemma net_ok_slice_ctx:
  assumes ok: "net_ok table T m"
  shows "slice_ctx table (map (\<lambda>i. of_nat (quantum_spec table (unat T) (unat m) i)) [0..<length table])
           (quantum_spec table (unat T) (unat m))"
proof -
  have sum: "(\<Sum>u < length table. sgxt_of table u) = sum_list (map (\<lambda>nd. unat (sgx_time nd)) table)"
    by (simp add: sum_list_sum_nth atLeast0LessThan)
  have lt: "sum_list (map (\<lambda>nd. unat (sgx_time nd)) table) < 2 ^ 24" "length table < 2 ^ 12"
    using ok by (auto simp: net_ok_def)
  have one: "sgxt_of table u \<le> (\<Sum>u < length table. sgxt_of table u)" if "u < length table" for u
    using that by (intro member_le_sum) auto
  have "unat (of_nat (quantum_spec table (unat T) (unat m) u) :: uint) = quantum_spec table (unat T) (unat m) u"
    "quantum_spec table (unat T) (unat m) u < 2 ^ 24" if "u < length table" for u
    using quantum_spec_bounds(2) [OF ok that] lt by (auto intro!: unat_of_nat_uint)
  then show ?thesis
    using sum lt one net_okD [OF ok] quantum_spec_bounds(1) [OF ok]
    by (fastforce simp: slice_ctx_def Suc_le_eq)
qed

lemma slice_inv_init:
  assumes ctx: "slice_ctx table qts Qn" and c: "c < length table" and q: "queue_ok table q"
  shows "slice_inv table Qn c (slice_init q table (table ! c))"
proof -
  have cnt: "count_list q u \<le> 100" for u
    using q count_notin [of u q] by (cases "u \<in> set q") (auto simp: queue_ok_def list_all_iff)
  have "count_list q (of_nat u) * Qn u \<le> sgxt_of table u + 101 * Qn u" for u
    using mult_le_mono1 [OF cnt [of "of_nat u"], of "Qn u"] by linarith
  moreover have "sint (time_left (table ! c)) = int (unat (time_left (table ! c)))"
    using slice_ctxD(4,6) [OF ctx c] by (intro sint_eq_unat) simp
  ultimately show ?thesis
    using q c cnt by (auto simp: slice_inv_def slice_init_def queue_ok_def list_all_iff)
qed

lemma slice_inv_end:
  assumes ctx: "slice_ctx table qts Qn" and c: "c < length table" and inv: "slice_inv table Qn c s"
    and fin: "sl_q s = [] \<or> sl_rem s = 0" and hit: "of_nat c \<in> set (sl_q s) \<or> 0 < reps_of s c"
  shows "sl_rem s = 0" and "unat (time_left (table ! c)) \<le> unat (sl_acc s)"
proof -
  show rem: "sl_rem s = 0"
  proof (cases "sl_q s = []")
    case True
    with hit inv have "sgxt_of table c \<le> reps_of s c * Qn c" by (auto simp: slice_inv_def not_less)
    then have "used_of table Qn s c = sgxt_of table c" by simp
    with inv slice_ctxD(6) [OF ctx c] show ?thesis by (simp add: slice_inv_def)
  qed (use fin in simp)
  then have "unat (time_left (table ! c)) \<le> used_of table Qn s c" using inv by (simp add: slice_inv_def)
  then show "unat (time_left (table ! c)) \<le> unat (sl_acc s)" using inv by (auto simp: slice_inv_def)
qed

text \<open>
  A run from the start serves node \<open>c\<close> if and only if it is in the queue and has time left, and then it
  serves it to the end.
\<close>

lemma slice_outcome_here:
  assumes ctx: "slice_ctx table qts Qn" and c: "c < length table"
    and out: "slice_outcome table Qn c delay (slice_init q table (table ! c)) s ts"
    and l: "leadership_loop table qts (table ! c) (slice_init q table (table ! c)) False
      = Some (Inr (s, reps_of (slice_init q table (table ! c)) c < reps_of s c))"
  shows "0 < reps_of s c \<longleftrightarrow> node_id (table ! c) \<in> set q \<and> 0 < unat (time_left (table ! c))"
    and "node_id (table ! c) \<in> set q \<Longrightarrow> 0 < unat (time_left (table ! c)) \<Longrightarrow> sl_rem s = 0 \<and> unat (time_left (table ! c)) \<le> unat (sl_acc s)"
proof -
  let ?s0 = "slice_init q table (table ! c)"
  have init: "sl_q ?s0 = q" "reps_of ?s0 c = 0" using c by (simp_all add: slice_init_def)
  have "c < 2 ^ 32" using ctx c by (simp add: slice_ctx_def)
  then have id: "of_nat c = node_id (table ! c)" using slice_ctxD(5) [OF ctx c] by (simp add: of_nat_eq_uint)
  have I: "slice_inv table Qn c s" "sl_q s = [] \<or> sl_rem s = 0" and nq: "node_id (table ! c) \<notin> set q \<longrightarrow> reps_of s c = 0"
    and iq: "node_id (table ! c) \<in> set q \<longrightarrow> of_nat c \<in> set (sl_q s) \<or> 0 < reps_of s c"
    using out by (simp_all add: slice_outcome_def init id)
  show fin: "sl_rem s = 0 \<and> unat (time_left (table ! c)) \<le> unat (sl_acc s)"
    if "node_id (table ! c) \<in> set q" "0 < unat (time_left (table ! c))"
    using that iq slice_inv_end [OF ctx c I] by auto
  have "0 < reps_of s c" if here: "node_id (table ! c) \<in> set q" "0 < unat (time_left (table ! c))"
    using fin [OF here] here I(1) by (cases "reps_of s c") (auto simp: slice_inv_def simp del: of_nat_unat)
  moreover have "\<not> 0 < reps_of s c" if "unat (time_left (table ! c)) = 0"
    using l init leadership_loop_unfold(1) [of ?s0] that by (auto simp: slice_init_def unat_eq_zero)
  ultimately show "0 < reps_of s c \<longleftrightarrow> node_id (table ! c) \<in> set q \<and> 0 < unat (time_left (table ! c))"
    using nq by (cases "unat (time_left (table ! c)) = 0") auto
qed

text \<open>
  Both computations run the same rounds: \<open>s\<close> is the state they end in, \<open>ts\<close> the notification times.
\<close>

lemma lookahead_run:
  fixes now :: int
  assumes ok: "net_ok table T m" and c: "c < length table"
    and q: "queue_rep queue xs" "queue_ok table (map ucast xs)"
  defines "delay \<equiv> now - uint (minimum_arrival_time table (table ! c))"
    and "here \<equiv> node_id (table ! c) \<in> ucast ` set xs \<and> 0 < unat (time_left (table ! c))"
  shows "\<exists>(s :: slice_state) ts. calc_leadership_time queue table (table ! c) T m now =
        Some (Inr (if here then max (int (unat (sl_acc s)) - max delay 0) 0 else - 1))
     \<and> (0 \<le> delay \<longrightarrow> calc_notification_times queue table (table ! c) T m now = Some (Inr ts))
     \<and> unat (sl_acc s) \<le> sum_list (map (\<lambda>nd. unat (sgx_time nd)) table)
     \<and> (here \<longrightarrow> unat (time_left (table ! c)) \<le> unat (sl_acc s)) \<and> sorted_wrt (\<lambda>a b. a < b \<or> a = 0 \<and> b = 0) ts
     \<and> (\<forall>t \<in> set ts. 0 \<le> t \<and> t \<le> max (int (unat (sl_acc s)) - delay) 0)
     \<and> leadership_loop table (map (\<lambda>i. of_nat (quantum_spec table (unat T) (unat m) i)) [0..<length table]) (table ! c)
          (slice_init (map ucast xs) table (table ! c)) False = Some (Inr (s, here))"
proof -
  let ?Qn = "quantum_spec table (unat T) (unat m)"
  let ?qts = "map (\<lambda>i. of_nat (?Qn i)) [0..<length table] :: uint list"
  let ?s0 = "slice_init (map ucast xs) table (table ! c)"
  have ne: "table \<noteq> []" using c by auto
  note ctx = net_ok_slice_ctx [OF ok]
  note inv0 = slice_inv_init [OF ctx c q(2)]
  from slice_loops [OF ctx c inv0, of False delay "[]"] obtain s ts where
    l: "leadership_loop table ?qts (table ! c) ?s0 False = Some (Inr (s, reps_of ?s0 c < reps_of s c))"
    and n: "notification_loop table ?qts (table ! c) delay ?s0 [] = Some (Inr (s, ts))"
    and out: "slice_outcome table ?Qn c delay ?s0 s ts" unfolding append_Nil simp_thms by meson
  have I: "slice_inv table ?Qn c s" and ts: "sorted_wrt (\<lambda>a b. a < b \<or> a = 0 \<and> b = 0) ts"
    "\<forall>t \<in> set ts. 0 \<le> t \<and> t \<le> max (sint (sl_acc s) - delay) 0" using out by (simp_all add: slice_outcome_def)
  have zero: "reps_of ?s0 c = 0" using c by (simp add: slice_init_def)
  note fin = slice_outcome_here [OF ctx c out l]
  have found: "0 < reps_of s c \<longleftrightarrow> here" and fin: "here \<Longrightarrow> sl_rem s = 0 \<and> unat (time_left (table ! c)) \<le> unat (sl_acc s)"
    using fin by (simp_all add: here_def)
  have run: "calc_leadership_time queue table (table ! c) T m now =
      Some (Inr (if here then max (int (unat (sl_acc s)) - max delay 0) 0 else - 1))"
    using found fin slice_acc_sint(1) [OF ctx I]
    by (auto simp: calc_leadership_time_def queue_print_func_dump_def queue_rep_dump [OF q(1)] copy_queue_fold
        quantum_times_exact [OF ok ne] l zero delay_def Let_def)
  have nts: "calc_notification_times queue table (table ! c) T m now = Some (Inr ts)" if "0 \<le> delay"
    using that n by (simp add: calc_notification_times_def queue_print_func_dump_def queue_rep_dump [OF q(1)]
        copy_queue_fold quantum_times_exact [OF ok ne] delay_def Let_def)
  have sum: "(\<Sum>u < length table. sgxt_of table u) = sum_list (map (\<lambda>nd. unat (sgx_time nd)) table)"
    by (simp add: sum_list_sum_nth atLeast0LessThan)
  have "\<forall>t \<in> set ts. 0 \<le> t \<and> t \<le> max (int (unat (sl_acc s)) - delay) 0"
    using ts(2) slice_acc_sint(1) [OF ctx I] by auto
  moreover have "unat (sl_acc s) \<le> sum_list (map (\<lambda>nd. unat (sgx_time nd)) table)"
    using slice_acc_sint(2) [OF ctx I] unfolding sum .
  moreover have "leadership_loop table ?qts (table ! c) ?s0 False = Some (Inr (s, here))" using l found by (simp only: zero)
  ultimately show ?thesis using run nts ts(1) fin by (intro exI [of _ s] exI [of _ ts]) blast
qed

lemma net_ok_calc_qt:
  assumes "net_ok table T m" and "i < length table"
  shows "calc_qt (table ! i) qts T m = vec_get qts (tier_spec (unat T) (unat m) (sgxt_of table i))"
  by (simp add: calc_qt_def net_ok_tier [OF assms])

lemma rfold_unit_fails:
  assumes "x \<in> set xs" and "f x = Inl e" and "\<And>y. y \<in> set xs \<Longrightarrow> f y = Inl e \<or> f y = Inr ()"
  shows "rfold (\<lambda>_. f) () xs = Inl e"
  using assms
proof (induction xs)
  case (Cons y xs)
  then show ?case by (cases "f y = Inl e") force+
qed simp

lemma unat_numeral_uint: "unat (2 :: uint) = 2" "unat (10 :: uint) = 10"
  by simp_all

section \<open>Properties\<close>

text \<open>
  C20. \<^verbatim>\<open>calc_leadership_time\<close> always returns for a sane network, without failing an assertion:
  \<open>-1\<close> when the node is not in the queue or has no time left, and otherwise a time, shortened by
  the communication delay, that is no less than the time the node has left and no more than the
  sum of all SGX times of the network.
\<close>

theorem calc_leadership_time_bounds:
  fixes now :: int
  assumes "net_ok table T m" and "c < length table"
    and "queue_rep queue xs" and "queue_ok table (map ucast xs)"
  defines "delay \<equiv> max (now - uint (minimum_arrival_time table (table ! c))) 0"
  shows "\<exists>t. calc_leadership_time queue table (table ! c) T m now = Some (Inr t)
     \<and> (if node_id (table ! c) \<in> ucast ` set xs \<and> 0 < unat (time_left (table ! c))
        then max (uint (time_left (table ! c)) - delay) 0 \<le> t
           \<and> t \<le> max (int (sum_list (map (\<lambda>nd. unat (sgx_time nd)) table)) - delay) 0
        else t = - 1)"
proof -
  let ?here = "node_id (table ! c) \<in> ucast ` set xs \<and> 0 < unat (time_left (table ! c))"
  from lookahead_run [OF assms(1-4), of now] obtain s :: slice_state where
    l: "calc_leadership_time queue table (table ! c) T m now =
      Some (Inr (if ?here then max (int (unat (sl_acc s)) - delay) 0 else - 1))"
    and "unat (sl_acc s) \<le> sum_list (map (\<lambda>nd. unat (sgx_time nd)) table)"
    and "?here \<longrightarrow> unat (time_left (table ! c)) \<le> unat (sl_acc s)"
    unfolding delay_def by blast
  then have "max (int (unat (sl_acc s)) - delay) 0 \<le> max (int (sum_list (map (\<lambda>nd. unat (sgx_time nd)) table)) - delay) 0"
    and "?here \<longrightarrow> max (uint (time_left (table ! c)) - delay) 0 \<le> max (int (unat (sl_acc s)) - delay) 0"
    unfolding uint_nat [of "time_left (table ! c)"] by (auto intro!: max.mono simp del: of_nat_unat)
  with l show ?thesis by (cases ?here) simp_all
qed

lemma queue_rep_push_list:
  "queue_rep q ys \<Longrightarrow> \<exists>q'. rfold queue_push q xs = Inr q' \<and> queue_rep q' (ys @ xs)"
proof (induction xs arbitrary: q ys)
  case (Cons x xs)
  from queue_rep_push [OF Cons.prems, of x True True] obtain q1 where
    "queue_push q x = Inr q1" "queue_rep q1 (ys @ [x])" by (auto simp: queue_push_def)
  with Cons.IH [of q1 "ys @ [x]"] show ?case by auto
qed simp

lemma test_queue_rep: "queue_rep test_queue [0, 1, 2, 3]"
  using queue_rep_push_list [OF fresh_queue_rep, of True "[0, 1, 2, 3 :: size_t]"]
  by (auto simp: test_queue_def simp del: rfold.simps)

lemma test_queue_ok: "queue_ok test_table (map ucast [0, 1, 2, 3 :: size_t])"
  by code_simp

theorem calc_leadership_time_bounds_witness:
  "\<exists>t. calc_leadership_time test_queue test_table (test_table ! 3) 2 10 4 = Some (Inr t) \<and> 5 \<le> t \<and> t \<le> 21"
  using calc_leadership_time_bounds [OF net_ok_test _ test_queue_rep test_queue_ok, of 3 4]
  by (simp add: test_table_def test_node_def minimum_arrival_time_def)

text \<open>
  The notification times a node computes from the same data are strictly ascending, apart from
  leading zeros that the communication delay leaves, and none lies after its leadership time, which is what
  the assertions of \<^verbatim>\<open>starting_time_calculation\<close> in the client check.
\<close>

theorem calc_notification_times_sorted:
  assumes "net_ok table T m" and "c < length table"
    and "queue_rep queue xs" and "queue_ok table (map ucast xs)"
    and "node_id (table ! c) \<in> ucast ` set xs" and "0 < unat (time_left (table ! c))"
    and "uint (minimum_arrival_time table (table ! c)) \<le> now"
  shows "\<exists>t ts. calc_leadership_time queue table (table ! c) T m now = Some (Inr t)
     \<and> calc_notification_times queue table (table ! c) T m now = Some (Inr ts)
     \<and> sorted_wrt (\<lambda>a b. a < b \<or> a = 0 \<and> b = 0) ts \<and> (\<forall>x \<in> set ts. 0 \<le> x \<and> x \<le> t)"
  using lookahead_run [OF assms(1-4), of now] assms(5-7) by auto

theorem calc_notification_times_sorted_witness:
  "\<exists>t ts. calc_leadership_time test_queue test_table (test_table ! 3) 2 10 0 = Some (Inr t)
     \<and> calc_notification_times test_queue test_table (test_table ! 3) 2 10 0 = Some (Inr ts)
     \<and> sorted_wrt (\<lambda>a b. a < b \<or> a = 0 \<and> b = 0) ts \<and> (\<forall>x \<in> set ts. 0 \<le> x \<and> x \<le> t)"
  using calc_notification_times_sorted [OF net_ok_test _ test_queue_rep test_queue_ok, of 3 0]
  by (simp add: test_table_def test_node_def minimum_arrival_time_def)

text \<open>
  On the data of \<^verbatim>\<open>test_leadership_time\<close> the code computes 24 (with one notification at 14):
  the slices of the other nodes are cut off at the time the node itself has left, so the last
  slice of node 0 counts 4 and not the 5 that the 25 of the test asks for.
\<close>

theorem calc_leadership_time_unit_test:
  "calc_leadership_time test_queue test_table (test_table ! 3) 2 10 0 = Some (Inr 24)
   \<and> calc_notification_times test_queue test_table (test_table ! 3) 2 10 0 = Some (Inr [14])"
proof -
  have dump: "queue_print_func_dump test_queue copy_queuet_std_queue [] =
      Inr ([0, 1, 2, 3], call True Unlock (call True Rdlock test_queue))"
    by (simp add: queue_print_func_dump_def queue_rep_dump [OF test_queue_rep] copy_queuet_std_queue_def)
  have qts: "calc_quantum_times test_table 2 10 = Inr [5, 2, 2, 5]"
  proof -
    have "map (quantum_spec test_table 2 10) [0..<4] = [5, 2, 2, 5]" by code_simp
    then have "map (\<lambda>i. of_nat (quantum_spec test_table 2 10 i)) [0..<4] = [5, 2, 2, 5 :: uint]"
      unfolding map_map [of of_nat "quantum_spec test_table 2 10", unfolded comp_def, symmetric] by simp
    moreover have "length test_table = 4" "test_table \<noteq> []" by (simp_all add: test_table_def)
    ultimately show ?thesis
      using quantum_times_exact [OF net_ok_test] by (simp only: unat_numeral_uint simp_thms)
  qed
  show ?thesis
    unfolding calc_leadership_time_def calc_notification_times_def dump qts rbind_Inr prod.case Let_def
    by (rule conjI) code_simp+
qed

text \<open>
  \<^verbatim>\<open>calc_starting_time\<close> reads the vector of quantum times, which has one entry per node, at
  the tier of a node: whenever some node sits in a tier whose number is not below the number of
  nodes, the read is out of range, whatever the queue holds.
\<close>

theorem calc_starting_time_out_of_range:
  assumes "net_ok table T m" and "queue_rep queue xs" and "i < length table"
    and "length table \<le> tier_spec (unat T) (unat m) (sgxt_of table i)"
  shows "calc_starting_time queue table cur T m = Inl Out_Of_Range"
proof -
  have ne: "table \<noteq> []" using assms(3) by auto
  let ?qts = "map (\<lambda>i. of_nat (quantum_spec table (unat T) (unat m) i)) [0..<length table] :: uint list"
  have "rfold (\<lambda>_ nd. rbind (calc_qt nd ?qts T m) (\<lambda>_. Inr ())) () table = Inl Out_Of_Range"
  proof (rule rfold_unit_fails)
    show "table ! i \<in> set table" using assms(3) by simp
    show "rbind (calc_qt (table ! i) ?qts T m) (\<lambda>_. Inr ()) = Inl Out_Of_Range"
      using assms by (simp add: net_ok_calc_qt [OF assms(1)] vec_get_def)
    fix nd assume "nd \<in> set table"
    then obtain j where "j < length table" "nd = table ! j" by (auto simp: in_set_conv_nth)
    then show "rbind (calc_qt nd ?qts T m) (\<lambda>_. Inr ()) = Inl Out_Of_Range \<or> rbind (calc_qt nd ?qts T m) (\<lambda>_. Inr ()) = Inr ()"
      by (simp add: net_ok_calc_qt [OF assms(1)] vec_get_def)
  qed
  then show ?thesis
    by (simp add: calc_starting_time_def queue_print_func_dump_def queue_rep_dump [OF assms(2)]
        quantum_times_exact [OF assms(1) ne])
qed

theorem calc_starting_time_out_of_range_witness:
  "calc_starting_time (fresh_queue True) [test_node 0 10] (test_node 0 10) 2 10 = Inl Out_Of_Range"
proof (rule calc_starting_time_out_of_range [OF _ fresh_queue_rep, of _ _ _ 0])
  show "net_ok [test_node 0 10] 2 10" by (simp add: net_ok_def test_node_def)
  show "length [test_node 0 10] \<le> tier_spec (unat (2 :: uint)) (unat (10 :: uint)) (sgxt_of [test_node 0 10] 0)"
    by (simp add: tier_spec_def cdiv_def test_node_def)
qed simp

end
