(* ===== verification/Simulator.thy ===== *)
theory Simulator imports Leadership
begin

text \<open>
  The simulation of the network in one process, \<^verbatim>\<open>POET++.cpp\<close>: nodes arrive at given seconds, wait in
  the queue and run for the quantum time of their tier until their SGX time is used up. The values
  of \<^verbatim>\<open>rand\<close> and the outcome of the tests on the clock and on the signal are arguments. Output is
  left out; the statistics are in \<open>Statistics\<close>.
\<close>

section \<open>State\<close>

text \<open>What the user enters, and the sequence of random numbers.\<close>

record config =
  total_tiers :: uint
  sgx_max :: uint
  nodes_rejoin :: bool
  rand :: "nat \<Rightarrow> nat"

text \<open>
  The global variables: \<^verbatim>\<open>node_count\<close> is the length of the table, and of the arrays per tier the first
  \<^verbatim>\<open>total_tiers\<close> entries are kept. \<open>s_rand\<close> counts the calls of \<^verbatim>\<open>rand\<close>.
\<close>

record sim =
  s_table :: "node_t list"
  s_time :: uint
  nodes_queue :: "nat \<Rightarrow> uint"
  sumT :: "rat list"
  tier_active_nodes :: "uint list"
  tier_quantum_time :: "uint list"
  s_queue :: "size_t queue_t"
  s_rand :: nat

definition MAX_SIZE :: nat where
  "MAX_SIZE = 20000000"

section \<open>Random numbers and tiers\<close>

text \<open>\<^verbatim>\<open>RAND_MAX\<close> is the largest \<^verbatim>\<open>int\<close>.\<close>

definition randint :: "(nat \<Rightarrow> nat) \<Rightarrow> int \<Rightarrow> int \<Rightarrow> nat \<Rightarrow> (uint \<times> nat) res" where
  "randint rnd start end k =
     rbind (assertc (start \<le> end)) (\<lambda>_.
     let start' = max 0 (min start int_max); end' = max 0 (min end int_max) in
     if end' > 0 then rbind (signed_int (start' + int (rnd k) mod end')) (\<lambda>r. Inr (of_int r, Suc k))
     else Inr (0, k))"

definition sim_tier_number :: "config \<Rightarrow> node_t \<Rightarrow> int res" where
  "sim_tier_number cfg nd =
     (if sgx_max cfg = 0 then Inl Bad_Conversion
      else rbind (int_of_f32 \<lceil>f32 (uint_to_f32 (total_tiers cfg) * f32 (uint_to_f32 (sgx_time nd) / uint_to_f32 (sgx_max cfg)))\<rceil>) (\<lambda>c.
           let tier = c - 1 in
           rbind (assertc (0 \<le> tier \<and> tier < uint (total_tiers cfg))) (\<lambda>_. Inr tier)))"

section \<open>Input\<close>

text \<open>One round of the loop that fills the table; \<open>input\<close> is the pair read for the node, if it is read.\<close>

definition input_node :: "config \<Rightarrow> uint \<Rightarrow> (int \<times> int) option \<Rightarrow> nat \<Rightarrow> (node_t \<times> nat) res" where
  "input_node cfg arrival_time_max input k =
     rbind (case input of
        None \<Rightarrow> rbind (randint (rand cfg) 1 (sint (sgx_max cfg)) k) (\<lambda>(time, k').
                rbind (randint (rand cfg) 0 (sint arrival_time_max) k') (\<lambda>(arr, k''). Inr (arr, time, k'')))
      | Some (arr, time) \<Rightarrow> Inr (of_int arr, of_int time, k)) (\<lambda>(arr, time, k').
     Inr (\<lparr>node_id = 0, arrival_time = arr, sgx_time = time, n_leadership = 0, time_left = time\<rparr>, k'))"

fun input_nodes :: "config \<Rightarrow> uint \<Rightarrow> (int \<times> int) option list \<Rightarrow> nat \<Rightarrow> (node_t list \<times> nat) res" where
  "input_nodes cfg arrival_time_max [] k = Inr ([], k)"
| "input_nodes cfg arrival_time_max (x # xs) k =
     rbind (input_node cfg arrival_time_max x k) (\<lambda>(nd, k').
     rbind (input_nodes cfg arrival_time_max xs k') (\<lambda>(nds, k''). Inr (nd # nds, k'')))"

section \<open>The passes\<close>

definition time_left_step :: "config \<Rightarrow> bool \<times> sim \<Rightarrow> nat \<Rightarrow> (bool \<times> sim) res" where
  "time_left_step cfg bs i = (case bs of (b, s) \<Rightarrow>
     let nd = s_table s ! i;
         b' = (b \<or> time_left nd > 0);
         nd' = (if time_left nd = 0 then nd\<lparr>n_leadership := n_leadership nd + 1\<rparr> else nd) in
     if nodes_rejoin cfg \<and> n_leadership nd' \<noteq> n_leadership nd
     then rbind (randint (rand cfg) 1 (sint (sgx_max cfg)) (s_rand s)) (\<lambda>(r, k).
          Inr (b', s\<lparr>s_table := (s_table s)[i := nd'\<lparr>time_left := r, sgx_time := r, arrival_time := s_time s + 1\<rparr>], s_rand := k\<rparr>))
     else Inr (b', s\<lparr>s_table := (s_table s)[i := nd']\<rparr>))"

definition is_time_left :: "config \<Rightarrow> sim \<Rightarrow> (bool \<times> sim) res" where
  "is_time_left cfg s = rfold (time_left_step cfg) (False, s) [0..<length (s_table s)]"

text \<open>The three loops of \<^verbatim>\<open>calculate_quantum_time\<close>.\<close>

definition quantum_count :: "config \<Rightarrow> uint \<Rightarrow> node_t list \<Rightarrow> rat list \<times> uint list \<Rightarrow> nat \<Rightarrow> (rat list \<times> uint list) res" where
  "quantum_count cfg now table sa i = (case sa of (sumT0, act) \<Rightarrow>
     let nd = table ! i in
     if arrival_time nd \<le> now
     then rbind (assertc (sgx_time nd > 0)) (\<lambda>_.
          rbind (sim_tier_number cfg nd) (\<lambda>t.
          rbind (vec_get act (nat t)) (\<lambda>a.
          rbind (vec_set act (nat t) (a + 1)) (\<lambda>act'.
          rbind (vec_get sumT0 (nat t)) (\<lambda>v.
          rbind (vec_set sumT0 (nat t) (f32 (v + uint_to_f32 (time_left nd)))) (\<lambda>sumT'.
          Inr (sumT', act')))))))
     else Inr (sumT0, act))"

definition quantum_set :: "rat list \<Rightarrow> uint list \<Rightarrow> uint list \<Rightarrow> nat \<Rightarrow> uint list res" where
  "quantum_set sumT0 act qts i =
     rbind (vec_get sumT0 i) (\<lambda>v.
     rbind (assertc (0 \<le> v)) (\<lambda>_.
     if v > 0
     then rbind (vec_get act i) (\<lambda>a.
          if a = 0 then Inl Bad_Conversion
          else rbind (uint_of_f32 \<lceil>f32 (v / f32 (uint_to_f32 a * uint_to_f32 a))\<rceil>) (\<lambda>q. vec_set qts i q))
     else Inr qts))"

definition calculate_quantum_time :: "config \<Rightarrow> sim \<Rightarrow> sim res" where
  "calculate_quantum_time cfg s =
     (let T = unat (total_tiers cfg) in
      if MAX_SIZE < T then Inl Out_Of_Range else
      rbind (rfold (quantum_count cfg (s_time s) (s_table s)) (replicate T 0, replicate T 0) [0..<length (s_table s)]) (\<lambda>(sumT0, act).
      rbind (rfold (quantum_set sumT0 act) (tier_quantum_time s) [0..<T]) (\<lambda>qts.
      Inr (s\<lparr>sumT := sumT0, tier_active_nodes := act, tier_quantum_time := qts\<rparr>))))"

definition arrive_step :: "config \<Rightarrow> sim \<Rightarrow> nat \<Rightarrow> sim res" where
  "arrive_step cfg s i =
     (if arrival_time (s_table s ! i) = s_time s
      then rbind (calculate_quantum_time cfg s) (\<lambda>s'.
           rbind (queue_push (s_queue s') (of_nat i)) (\<lambda>q. Inr (s'\<lparr>s_queue := q\<rparr>)))
      else Inr s)"

definition check_node_arrive :: "config \<Rightarrow> sim \<Rightarrow> sim res" where
  "check_node_arrive cfg s = rfold (arrive_step cfg) s [0..<length (s_table s)]"

text \<open>One second of the running node \<open>u\<close>, and as many as its quantum has.\<close>

definition run_second :: "config \<Rightarrow> nat \<Rightarrow> sim \<Rightarrow> sim res" where
  "run_second cfg u s =
     (if MAX_SIZE \<le> unat (s_time s) then Inl Out_Of_Range
      else check_node_arrive cfg
        (s\<lparr>nodes_queue := (nodes_queue s)(unat (s_time s) := of_nat u),
           s_table := (s_table s)[u := (s_table s ! u)\<lparr>time_left := time_left (s_table s ! u) - 1\<rparr>],
           s_time := s_time s + 1\<rparr>))"

fun run_quantum :: "config \<Rightarrow> nat \<Rightarrow> nat \<Rightarrow> sim \<Rightarrow> sim res" where
  "run_quantum cfg u 0 s = Inr s"
| "run_quantum cfg u (Suc k) s = rbind (run_second cfg u s) (run_quantum cfg u k)"

definition arrange_body :: "config \<Rightarrow> sim \<Rightarrow> sim res" where
  "arrange_body cfg s =
     rbind (queue_is_empty (s_queue s)) (\<lambda>(empty, q).
     let s1 = s\<lparr>s_queue := q\<rparr> in
     if empty then check_node_arrive cfg (s1\<lparr>s_time := s_time s1 + 1\<rparr>)
     else rbind (queue_front 0 (s_queue s1)) (\<lambda>(d, q1).
          rbind (queue_pop q1) (\<lambda>q2.
          let u = unat (ucast d :: uint); s2 = s1\<lparr>s_queue := q2\<rparr> in
          rbind (sim_tier_number cfg (s_table s2 ! u)) (\<lambda>t.
          rbind (vec_get (tier_quantum_time s2) (nat t)) (\<lambda>qt.
          rbind (run_quantum cfg u (unat (min qt (time_left (s_table s2 ! u)))) s2) (\<lambda>s3.
          if time_left (s_table s3 ! u) > 0
          then rbind (queue_push (s_queue s3) (of_nat u)) (\<lambda>q3. Inr (s3\<lparr>s_queue := q3\<rparr>))
          else Inr s3))))))"

text \<open>
  \<open>go k\<close>: whether in round \<open>k\<close> neither the time limit nor a signal ends the loop. \<open>None\<close> is a
  simulation that never ends.
\<close>

partial_function (option) arrange_loop :: "config \<Rightarrow> (nat \<Rightarrow> bool) \<Rightarrow> nat \<Rightarrow> sim \<Rightarrow> sim res option" where
  [code]: "arrange_loop cfg go k s =
     (case is_time_left cfg s of
        Inl e \<Rightarrow> Some (Inl e)
      | Inr (b, s1) \<Rightarrow>
          if b \<and> go k
          then (case arrange_body cfg s1 of
                  Inl e \<Rightarrow> Some (Inl e)
                | Inr s2 \<Rightarrow> arrange_loop cfg go (Suc k) s2)
          else Some (Inr s1))"

definition arrange :: "config \<Rightarrow> (nat \<Rightarrow> bool) \<Rightarrow> sim \<Rightarrow> sim res option" where
  "arrange cfg go s = (case check_node_arrive cfg s of Inl e \<Rightarrow> Some (Inl e) | Inr s' \<Rightarrow> arrange_loop cfg go 0 s')"

text \<open>The variables as \<^verbatim>\<open>main\<close> sets them up before \<^verbatim>\<open>arrange\<close>.\<close>

definition initial_sim :: "config \<Rightarrow> node_t list \<Rightarrow> nat \<Rightarrow> sim" where
  "initial_sim cfg table k = \<lparr>s_table = table, s_time = 0, nodes_queue = (\<lambda>_. 0), sumT = replicate (unat (total_tiers cfg)) 0,
     tier_active_nodes = replicate (unat (total_tiers cfg)) 0, tier_quantum_time = replicate (unat (total_tiers cfg)) 0,
     s_queue = fresh_queue True, s_rand = k\<rparr>"

section \<open>Waiting times\<close>

text \<open>The scan for the last second of node \<open>i\<close> before \<open>t\<close>; the result is \<^verbatim>\<open>release_time\<close>.\<close>

fun release_time :: "(nat \<Rightarrow> uint) \<Rightarrow> uint \<Rightarrow> nat \<Rightarrow> nat" where
  "release_time slots i 0 = 0"
| "release_time slots i (Suc t) = (if slots t = i then Suc t else release_time slots i t)"

definition waiting_time :: "sim \<Rightarrow> uint list res" where
  "waiting_time s =
     (if s_table s \<noteq> [] \<and> MAX_SIZE < unat (s_time s) then Inl Out_Of_Range
      else Inr (map (\<lambda>i. of_nat (release_time (nodes_queue s) (of_nat i) (unat (s_time s)))
             - arrival_time (s_table s ! i) - sgx_time (s_table s ! i)) [0..<length (s_table s)]))"

section \<open>Specification\<close>

definition tier_of :: "config \<Rightarrow> node_t \<Rightarrow> nat" where
  "tier_of cfg nd = nat (case sim_tier_number cfg nd of Inr t \<Rightarrow> t | Inl _ \<Rightarrow> 0)"

text \<open>Inputs within the range where the counters are exact.\<close>

definition sim_ok :: "config \<Rightarrow> node_t list \<Rightarrow> bool" where
  "sim_ok cfg tb \<longleftrightarrow> 0 < unat (total_tiers cfg) \<and> unat (total_tiers cfg) < 2 ^ 24 \<and> length tb < 2 ^ 12
     \<and> length tb * unat (sgx_max cfg) < 2 ^ 24
     \<and> list_all (\<lambda>nd. 1 \<le> unat (sgx_time nd) \<and> sgx_time nd \<le> sgx_max cfg \<and> time_left nd \<le> sgx_time nd) tb"

text \<open>The nodes of a tier that have arrived, among the first \<open>k\<close>, and the time they have left.\<close>

definition members :: "config \<Rightarrow> uint \<Rightarrow> node_t list \<Rightarrow> nat \<Rightarrow> nat \<Rightarrow> nat set" where
  "members cfg now tb k t = {i. i < k \<and> arrival_time (tb ! i) \<le> now \<and> tier_of cfg (tb ! i) = t}"

definition tier_left :: "config \<Rightarrow> uint \<Rightarrow> node_t list \<Rightarrow> nat \<Rightarrow> nat \<Rightarrow> nat" where
  "tier_left cfg now tb k t = (\<Sum>i \<in> members cfg now tb k t. unat (time_left (tb ! i)))"

definition next_quantum :: "config \<Rightarrow> uint \<Rightarrow> node_t list \<Rightarrow> uint list \<Rightarrow> nat \<Rightarrow> uint" where
  "next_quantum cfg now tb qts t = (let n = tier_left cfg now tb (length tb) t; c = card (members cfg now tb (length tb) t) in
     if 0 < n then of_nat (cdiv n (c * c)) else qts ! t)"

definition used :: "node_t \<Rightarrow> nat" where
  "used nd = unat (sgx_time nd) - unat (time_left nd)"

text \<open>The nodes that arrive before second \<open>k\<close>.\<close>

definition arrived :: "node_t list \<Rightarrow> nat \<Rightarrow> nat set" where
  "arrived tb k = {i. i < length tb \<and> unat (arrival_time (tb ! i)) < k}"

text \<open>
  The invariant of the scheduler when the arrivals before second \<open>k\<close> have been handled: the queue
  holds the unfinished ones, except those in \<open>run\<close>, each once, and every tier that one of them is
  in has a positive quantum.
\<close>

definition sched_ok :: "config \<Rightarrow> node_t list \<Rightarrow> nat \<Rightarrow> nat set \<Rightarrow> sim \<Rightarrow> bool" where
  "sched_ok cfg tb k run s \<longleftrightarrow> length (s_table s) = length tb
     \<and> (\<forall>i < length tb. arrival_time (s_table s ! i) = arrival_time (tb ! i) \<and> sgx_time (s_table s ! i) = sgx_time (tb ! i)
          \<and> time_left (s_table s ! i) \<le> sgx_time (tb ! i)
          \<and> (i \<notin> arrived tb k \<longrightarrow> time_left (s_table s ! i) = sgx_time (tb ! i)))
     \<and> (\<exists>xs. queue_rep (s_queue s) (map of_nat xs) \<and> distinct xs
          \<and> set xs = {i \<in> arrived tb k. 0 < unat (time_left (s_table s ! i))} - run)
     \<and> length (tier_quantum_time s) = unat (total_tiers cfg)
     \<and> (\<forall>i \<in> arrived tb k. 0 < tier_quantum_time s ! tier_of cfg (tb ! i))"

text \<open>The account of the seconds: \<open>idle\<close> of them belong to nobody, and read as node 0.\<close>

definition slots_ok :: "node_t list \<Rightarrow> nat \<Rightarrow> sim \<Rightarrow> bool" where
  "slots_ok tb idle s \<longleftrightarrow> (\<forall>t. unat (s_time s) \<le> t \<longrightarrow> nodes_queue s t = 0)
     \<and> unat (s_time s) = (\<Sum>i < length tb. used (s_table s ! i)) + idle
     \<and> (\<forall>i < length tb. card {t. t < unat (s_time s) \<and> nodes_queue s t = of_nat i} = used (s_table s ! i) + (if i = 0 then idle else 0))
     \<and> (\<forall>i < length tb. \<forall>t < unat (s_time s). 0 < i \<and> nodes_queue s t = of_nat i \<longrightarrow> unat (arrival_time (tb ! i)) \<le> t)"

text \<open>What the loop over the arrivals leaves alone.\<close>

definition same_run :: "sim \<Rightarrow> sim \<Rightarrow> bool" where
  "same_run s s' \<longleftrightarrow> s_table s' = s_table s \<and> s_time s' = s_time s \<and> nodes_queue s' = nodes_queue s"

text \<open>The invariant of the loop, the work that is left, and the room for the record of the seconds.\<close>

definition loop_inv :: "config \<Rightarrow> node_t list \<Rightarrow> nat \<Rightarrow> nat \<Rightarrow> sim \<Rightarrow> bool" where
  "loop_inv cfg tb A idle s \<longleftrightarrow> sched_ok cfg tb (Suc (unat (s_time s))) {} s \<and> slots_ok tb idle s \<and> idle \<le> A"

definition work_left :: "node_t list \<Rightarrow> sim \<Rightarrow> nat" where
  "work_left tb s = (\<Sum>i < length tb. unat (time_left (s_table s ! i)))"

definition fits :: "node_t list \<Rightarrow> nat \<Rightarrow> bool" where
  "fits tb A \<longleftrightarrow> (\<forall>i < length tb. unat (arrival_time (tb ! i)) \<le> A)
     \<and> A + (\<Sum>i < length tb. unat (sgx_time (tb ! i))) \<le> MAX_SIZE"

definition bump :: "node_t \<Rightarrow> node_t" where
  "bump nd = (if time_left nd = 0 then nd\<lparr>n_leadership := n_leadership nd + 1\<rparr> else nd)"

definition sample_config :: config where
  "sample_config = \<lparr>total_tiers = 2, sgx_max = 10, nodes_rejoin = False, rand = (\<lambda>_. 3)\<rparr>"

definition sample_node :: "uint \<Rightarrow> uint \<Rightarrow> node_t" where
  "sample_node a t = \<lparr>node_id = 0, arrival_time = a, sgx_time = t, n_leadership = 0, time_left = t\<rparr>"

section \<open>Tiers\<close>

lemma sim_tier_bounds:
  assumes "0 < unat (total_tiers cfg)" and "unat (total_tiers cfg) < 2 ^ 24" and "1 \<le> unat (sgx_time nd)" and "sgx_time nd \<le> sgx_max cfg"
  shows "sim_tier_number cfg nd = Inr (int (tier_of cfg nd)) \<and> tier_of cfg nd < unat (total_tiers cfg)"
proof -
  let ?T = "unat (total_tiers cfg)" and ?s = "uint_to_f32 (sgx_time nd)" and ?m = "uint_to_f32 (sgx_max cfg)"
  have s: "0 < ?s" using assms(3) by (intro uint_to_f32_pos) (metis One_nat_def not_one_le_zero unat_0)
  have le: "?s \<le> ?m" using assms(4) by (rule uint_to_f32_mono)
  have T: "uint_to_f32 (total_tiers cfg) = of_nat ?T" using assms(2) by (intro uint_to_f32_exact) simp
  define x where "x = f32 (?s / ?m)"
  have "0 < ?s / ?m" "?s / ?m \<le> 1" using s le by (simp_all add: divide_le_eq)
  then have x: "0 < x" "x \<le> 1"
    using f32_gt_0 [of "?s / ?m"] f32_mono [of "?s / ?m" "of_nat 1"] f32_nat_exact [of 1] by (simp_all add: x_def)
  define y where "y = f32 (of_nat ?T * x)"
  have "0 < (of_nat ?T :: rat)" using assms(1) by (simp only: of_nat_0_less_iff)
  then have "0 < of_nat ?T * x" "of_nat ?T * x \<le> of_nat ?T" using x by (simp_all add: mult_le_cancel_left1 del: of_nat_unat)
  then have y: "0 < y" "y \<le> of_nat ?T"
    using f32_gt_0 [of "of_nat ?T * x"] f32_mono [of "of_nat ?T * x" "of_nat ?T"] f32_nat_exact [of ?T] assms(2) by (simp_all add: y_def del: of_nat_unat)
  have c: "1 \<le> \<lceil>y\<rceil>" "\<lceil>y\<rceil> \<le> int ?T" using y by (simp_all add: ceiling_le_iff del: of_nat_unat)
  have "int ?T < 16777216" using assms(2) by (simp del: of_nat_unat)
  with c have "int_min \<le> \<lceil>y\<rceil>" "\<lceil>y\<rceil> \<le> int_max" by (simp_all only: int_min_def int_max_def) (linarith | simp)+
  then have "int_of_f32 \<lceil>y\<rceil> = Inr \<lceil>y\<rceil>" by (simp only: int_of_f32_def simp_thms if_True)
  moreover have "sgx_max cfg \<noteq> 0" using s le uint_to_f32_unat [of 0] by auto
  moreover have "\<lceil>y\<rceil> \<le> uint (total_tiers cfg)" using c(2) by simp
  ultimately have "sim_tier_number cfg nd = Inr (\<lceil>y\<rceil> - 1)"
    using c(1) by (simp add: sim_tier_number_def T Let_def del: of_nat_unat flip: x_def y_def)
  moreover have "nat (\<lceil>y\<rceil> - 1) < ?T" using c by linarith
  ultimately show ?thesis using c by (simp add: tier_of_def)
qed

lemma sim_okD:
  assumes "sim_ok cfg tb" and "i < length tb"
  shows "1 \<le> unat (sgx_time (tb ! i))" "sgx_time (tb ! i) \<le> sgx_max cfg" "time_left (tb ! i) \<le> sgx_time (tb ! i)"
    "sim_tier_number cfg (tb ! i) = Inr (int (tier_of cfg (tb ! i)))" "tier_of cfg (tb ! i) < unat (total_tiers cfg)"
  using assms sim_tier_bounds [of cfg "tb ! i"] by (auto simp: sim_ok_def list_all_length)

section \<open>Quantum times\<close>

lemma members_Suc:
  "members cfg now tb (Suc k) t = (if arrival_time (tb ! k) \<le> now \<and> tier_of cfg (tb ! k) = t
     then insert k (members cfg now tb k t) else members cfg now tb k t)"
  by (auto simp: members_def less_Suc_eq)

lemma members_simps [simp]: "finite (members cfg now tb k t)" "k \<notin> members cfg now tb k t" "members cfg now tb 0 t = {}"
  by (simp_all add: members_def)

lemma card_members: "card (members cfg now tb k t) \<le> k"
  using card_mono [of "{..<k}" "members cfg now tb k t"] by (auto simp: members_def)

lemma tier_left_small:
  assumes ok: "sim_ok cfg tb" and k: "k \<le> length tb"
  shows "tier_left cfg now tb k t < 2 ^ 24"
proof -
  have "unat (time_left (tb ! i)) \<le> unat (sgx_max cfg)" if "i \<in> members cfg now tb k t" for i
    using sim_okD(2,3) [OF ok, of i] k that by (auto simp: members_def word_le_nat_alt)
  then have "tier_left cfg now tb k t \<le> card (members cfg now tb k t) * unat (sgx_max cfg)"
    unfolding tier_left_def
    using sum_bounded_above [of "members cfg now tb k t" "\<lambda>i. unat (time_left (tb ! i))" "unat (sgx_max cfg)"] by simp
  also have "\<dots> \<le> length tb * unat (sgx_max cfg)" using card_members [of cfg now tb k t] k by (intro mult_le_mono1) simp
  finally show ?thesis using ok by (simp add: sim_ok_def)
qed

lemma quantum_count_fold:
  assumes ok: "sim_ok cfg tb"
  shows "k \<le> length tb \<Longrightarrow> rfold (quantum_count cfg now tb) (replicate (unat (total_tiers cfg)) 0, replicate (unat (total_tiers cfg)) 0) [0..<k] =
    Inr (map (\<lambda>t. of_nat (tier_left cfg now tb k t)) [0..<unat (total_tiers cfg)],
         map (\<lambda>t. of_nat (card (members cfg now tb k t))) [0..<unat (total_tiers cfg)])"
proof (induction k)
  case 0
  show ?case by (simp add: tier_left_def map_replicate_const)
next
  case (Suc k)
  then have k: "k < length tb" by simp
  let ?nd = "tb ! k" and ?T = "unat (total_tiers cfg)"
  note nd = sim_okD [OF ok k]
  show ?case
  proof (cases "arrival_time ?nd \<le> now")
    case True
    have left: "tier_left cfg now tb (Suc k) t = (if tier_of cfg ?nd = t then tier_left cfg now tb k t + unat (time_left ?nd) else tier_left cfg now tb k t)" for t
      using True by (simp add: tier_left_def members_Suc)
    have crd: "card (members cfg now tb (Suc k) t) = (if tier_of cfg ?nd = t then Suc (card (members cfg now tb k t)) else card (members cfg now tb k t))" for t
      using True by (simp add: members_Suc)
    have lt: "tier_left cfg now tb k (tier_of cfg ?nd) + unat (time_left ?nd) < 2 ^ 24"
      using tier_left_small [OF ok Suc.prems, of now "tier_of cfg ?nd"] by (simp add: left)
    then have ex: "uint_to_f32 (time_left ?nd) = of_nat (unat (time_left ?nd))" by (intro uint_to_f32_exact) linarith
    have "f32 (of_nat (tier_left cfg now tb k (tier_of cfg ?nd) + unat (time_left ?nd)))
        = of_nat (tier_left cfg now tb k (tier_of cfg ?nd) + unat (time_left ?nd))"
      using lt by (intro f32_nat_exact) linarith
    then have f: "f32 (of_nat (tier_left cfg now tb k (tier_of cfg ?nd)) + uint_to_f32 (time_left ?nd))
        = of_nat (tier_left cfg now tb (Suc k) (tier_of cfg ?nd))"
      unfolding ex left by (simp only: of_nat_add simp_thms if_True)
    have "0 < sgx_time ?nd" using nd(1) by (metis One_nat_def not_one_le_zero unat_0 word_neq_0_conv)
    then have "quantum_count cfg now tb (map (\<lambda>t. of_nat (tier_left cfg now tb k t)) [0..<?T],
         map (\<lambda>t. of_nat (card (members cfg now tb k t))) [0..<?T]) k =
      Inr ((map (\<lambda>t. of_nat (tier_left cfg now tb k t)) [0..<?T])[tier_of cfg ?nd := of_nat (tier_left cfg now tb (Suc k) (tier_of cfg ?nd))],
         (map (\<lambda>t. of_nat (card (members cfg now tb k t))) [0..<?T])[tier_of cfg ?nd := of_nat (card (members cfg now tb k (tier_of cfg ?nd))) + 1])"
      using True nd(4,5) by (simp add: quantum_count_def f Let_def)
    also have "\<dots> = Inr (map (\<lambda>t. of_nat (tier_left cfg now tb (Suc k) t)) [0..<?T],
         map (\<lambda>t. of_nat (card (members cfg now tb (Suc k) t))) [0..<?T])"
      using nd(5) by (auto simp: left crd nth_list_update add.commute intro!: nth_equalityI)
    finally show ?thesis using Suc.IH k by (simp add: rfold_append)
  next
    case False
    then have "members cfg now tb (Suc k) t = members cfg now tb k t" for t by (simp add: members_Suc)
    then show ?thesis using Suc.IH k False by (simp add: rfold_append quantum_count_def tier_left_def)
  qed
qed

lemma quantum_set_exact:
  assumes "n < 2 ^ 24" and "c * c < 2 ^ 24" and "0 < n \<Longrightarrow> 0 < c"
    and "i < length sms" "sms ! i = of_nat n" "i < length act" "act ! i = of_nat c" "i < length qts"
  shows "quantum_set sms act qts i = Inr (if 0 < n then qts[i := of_nat (cdiv n (c * c))] else qts)"
proof (cases "0 < n")
  case True
  have c: "0 < c" using assms(3) True by blast
  then have "c * 1 \<le> c * c" by (intro mult_le_mono) auto
  then have c24: "c < 2 ^ 24" using assms(2) by linarith
  have u: "unat (of_nat n :: uint) = n" "unat (of_nat c :: uint) = c" using assms(1) c24 by (simp_all add: unat_of_nat_uint)
  have nz: "(of_nat c :: uint) \<noteq> 0" using c u(2) by (metis less_irrefl unat_0)
  then have pos: "0 < (of_nat c :: uint)" by (simp only: word_neq_0_conv)
  have "uint_to_f32 (of_nat n) = of_nat n" using uint_to_f32_exact [of "of_nat n"] u(1) assms(1) by simp
  then have "quantum_set sms act qts i = rbind (quantum_of (of_nat n) (of_nat c)) (\<lambda>q. vec_set qts i q)"
    using assms(4-7) True by (simp add: quantum_set_def quantum_of_def nz pos)
  also have "\<dots> = Inr (qts[i := of_nat (cdiv n (c * c))])"
    using quantum_of_exact [of "of_nat n" "of_nat c"] assms(1,2,8) pos by (simp add: u)
  finally show ?thesis using True by simp
qed (use assms in \<open>simp add: quantum_set_def\<close>)

lemma calculate_quantum_time_run:
  assumes ok: "sim_ok cfg (s_table s)" and len: "length (tier_quantum_time s) = unat (total_tiers cfg)"
  shows "\<exists>sms act. calculate_quantum_time cfg s = Inr (s\<lparr>sumT := sms, tier_active_nodes := act,
     tier_quantum_time := map (next_quantum cfg (s_time s) (s_table s) (tier_quantum_time s)) [0..<unat (total_tiers cfg)]\<rparr>)"
proof -
  let ?T = "unat (total_tiers cfg)" and ?n = "length (s_table s)" and ?now = "s_time s" and ?q = "tier_quantum_time s"
  let ?N = "tier_left cfg ?now (s_table s) ?n" and ?C = "\<lambda>t. card (members cfg ?now (s_table s) ?n t)"
  let ?sms = "map (\<lambda>t. of_nat (?N t)) [0..<?T] :: rat list" and ?act = "map (\<lambda>t. of_nat (?C t)) [0..<?T] :: uint list"
  let ?f = "next_quantum cfg ?now (s_table s) ?q"
  have fold: "rfold (quantum_set ?sms ?act) ?q [0..<k] = Inr (map (\<lambda>t. if t < k then ?f t else ?q ! t) [0..<?T])" if "k \<le> ?T" for k
    using that
  proof (induction k)
    case 0
    show ?case using len map_nth [of ?q] by simp
  next
    case (Suc k)
    have "?C k < 2 ^ 12" using card_members [of cfg ?now "s_table s" ?n k] ok by (simp add: sim_ok_def)
    then have "?C k * ?C k < 2 ^ 12 * 2 ^ 12" by (intro mult_strict_mono) auto
    moreover have "0 < ?N k \<Longrightarrow> 0 < ?C k" by (cases "members cfg ?now (s_table s) ?n k = {}") (auto simp: tier_left_def card_gt_0_iff)
    ultimately have "quantum_set ?sms ?act (map (\<lambda>t. if t < k then ?f t else ?q ! t) [0..<?T]) k =
      Inr ((map (\<lambda>t. if t < k then ?f t else ?q ! t) [0..<?T])[k := ?f k])"
      using Suc.prems quantum_set_exact [of "?N k" "?C k" k ?sms ?act "map (\<lambda>t. if t < k then ?f t else ?q ! t) [0..<?T]"]
        tier_left_small [OF ok order_refl, of ?now k]
        list_update_id [of "map (\<lambda>t. if t < k then ?f t else ?q ! t) [0..<?T]" k]
      by (simp add: next_quantum_def [of _ _ _ _ k] Let_def)
    then show ?case using Suc map_upt_update [of k ?T ?f "\<lambda>t. ?q ! t"] by (simp add: rfold_append)
  qed
  have "map (\<lambda>t. if t < ?T then ?f t else ?q ! t) [0..<?T] = map ?f [0..<?T]" by (rule map_cong) auto
  with fold [OF order_refl] have "rfold (quantum_set ?sms ?act) ?q [0..<?T] = Inr (map ?f [0..<?T])" by (simp only:)
  moreover have "\<not> MAX_SIZE < ?T" using ok by (simp add: sim_ok_def MAX_SIZE_def)
  ultimately show ?thesis using quantum_count_fold [OF ok order_refl, of ?now] by (auto simp: calculate_quantum_time_def Let_def)
qed

lemma next_quantum_pos:
  assumes ok: "sim_ok cfg tb" and i: "i < length tb" "arrival_time (tb ! i) \<le> now"
    and or: "0 < qts ! tier_of cfg (tb ! i) \<or> 0 < unat (time_left (tb ! i))"
  shows "0 < next_quantum cfg now tb qts (tier_of cfg (tb ! i))"
proof -
  let ?t = "tier_of cfg (tb ! i)"
  let ?n = "tier_left cfg now tb (length tb) ?t" and ?c = "card (members cfg now tb (length tb) ?t)"
  have mem: "i \<in> members cfg now tb (length tb) ?t" using i by (simp add: members_def)
  then have c: "0 < ?c" by (auto simp: card_gt_0_iff)
  have "unat (time_left (tb ! i)) \<le> ?n" unfolding tier_left_def using mem by (intro member_le_sum) auto
  then have "0 < qts ! ?t \<or> 0 < ?n" using or by auto
  moreover have "0 < (of_nat (cdiv ?n (?c * ?c)) :: uint)" if "0 < ?n"
  proof -
    have "0 < cdiv ?n (?c * ?c)" "cdiv ?n (?c * ?c) \<le> ?n" using that c by (simp_all add: cdiv_pos cdiv_le)
    then have "0 < unat (of_nat (cdiv ?n (?c * ?c)) :: uint)"
      using tier_left_small [OF ok order_refl, of now ?t] by (simp add: unat_of_nat_uint)
    then show ?thesis by (simp only: unat_gt_0 word_neq_0_conv)
  qed
  ultimately show ?thesis by (auto simp: next_quantum_def Let_def)
qed

section \<open>Arrivals\<close>

lemma tier_of_cong: "sgx_time nd = sgx_time nd' \<Longrightarrow> tier_of cfg nd = tier_of cfg nd'"
  by (simp add: tier_of_def sim_tier_number_def)

lemma arrived_Suc: "arrived tb (Suc k) = arrived tb k \<union> {i. i < length tb \<and> unat (arrival_time (tb ! i)) = k}"
  by (auto simp: arrived_def less_Suc_eq)

lemma sched_table:
  assumes "sim_ok cfg tb" and "sched_ok cfg tb k run s"
  shows "sim_ok cfg (s_table s)" and "i < length tb \<Longrightarrow> tier_of cfg (s_table s ! i) = tier_of cfg (tb ! i)"
  using assms by (auto simp: sim_ok_def sched_ok_def list_all_length intro!: tier_of_cong)

lemma arrive_step_run:
  assumes ok: "sim_ok cfg (s_table s)" and len: "length (tier_quantum_time s) = unat (total_tiers cfg)"
    and q: "queue_rep (s_queue s) (map of_nat xs)" and now: "arrival_time (s_table s ! k) = s_time s"
  shows "\<exists>sms act q'. arrive_step cfg s k = Inr (s\<lparr>sumT := sms, tier_active_nodes := act,
      tier_quantum_time := map (next_quantum cfg (s_time s) (s_table s) (tier_quantum_time s)) [0..<unat (total_tiers cfg)], s_queue := q'\<rparr>)
    \<and> queue_rep q' (map of_nat (xs @ [k]))"
proof -
  obtain sms act where 1: "calculate_quantum_time cfg s = Inr (s\<lparr>sumT := sms, tier_active_nodes := act,
     tier_quantum_time := map (next_quantum cfg (s_time s) (s_table s) (tier_quantum_time s)) [0..<unat (total_tiers cfg)]\<rparr>)"
    using calculate_quantum_time_run [OF ok len] by blast
  obtain q' where "queue_push (s_queue s) (of_nat k) = Inr q'" "queue_rep q' (map of_nat (xs @ [k]))"
    using queue_rep_push [OF q, of "of_nat k" True True] by (auto simp: queue_push_def)
  with 1 now show ?thesis
    by (intro exI [of _ sms] exI [of _ act] exI [of _ q']) (simp add: arrive_step_def)
qed

text \<open>A recomputation leaves a positive quantum to the tier of every node that has arrived.\<close>

lemma next_quantum_arrived_pos:
  assumes ok: "sim_ok cfg tb" and inv: "sched_ok cfg tb (unat (s_time s)) run s" and i: "i \<in> arrived tb (Suc (unat (s_time s)))"
    and pos: "i \<in> arrived tb (unat (s_time s)) \<Longrightarrow> 0 < old ! tier_of cfg (tb ! i)"
  shows "0 < map (next_quantum cfg (s_time s) (s_table s) old) [0..<unat (total_tiers cfg)] ! tier_of cfg (tb ! i)"
proof -
  have i': "i < length tb" "arrival_time (s_table s ! i) \<le> s_time s" "length (s_table s) = length tb"
    using i inv by (auto simp: arrived_def sched_ok_def word_le_nat_alt)
  have "0 < unat (time_left (s_table s ! i))" if "i \<notin> arrived tb (unat (s_time s))"
    using inv i'(1) that sim_okD(1) [OF ok i'(1)] by (simp add: sched_ok_def)
  with pos have "0 < old ! tier_of cfg (tb ! i) \<or> 0 < unat (time_left (s_table s ! i))"
    by (cases "i \<in> arrived tb (unat (s_time s))") simp_all
  then show ?thesis using next_quantum_pos [OF sched_table(1) [OF ok inv], of i "s_time s" old] i'
      sched_table(2) [OF ok inv i'(1)] sim_okD(5) [OF ok i'(1)] by simp
qed

text \<open>The loop over the table pushes the nodes of this second in their order and keeps the quanta of the arrived nodes positive.\<close>

lemma arrivals_fold:
  assumes ok: "sim_ok cfg tb" and inv: "sched_ok cfg tb (unat (s_time s)) run s" and q: "queue_rep (s_queue s) (map of_nat xs)"
  shows "k \<le> length tb \<Longrightarrow> \<exists>s'. rfold (arrive_step cfg) s [0..<k] = Inr s' \<and> same_run s s'
     \<and> queue_rep (s_queue s') (map of_nat (xs @ filter (\<lambda>i. unat (arrival_time (tb ! i)) = unat (s_time s)) [0..<k]))
     \<and> length (tier_quantum_time s') = unat (total_tiers cfg)
     \<and> (\<forall>i \<in> arrived tb (unat (s_time s)). 0 < tier_quantum_time s' ! tier_of cfg (tb ! i))
     \<and> ((\<exists>j < k. unat (arrival_time (tb ! j)) = unat (s_time s))
          \<longrightarrow> (\<forall>i \<in> arrived tb (Suc (unat (s_time s))). 0 < tier_quantum_time s' ! tier_of cfg (tb ! i)))"
    (is "_ \<Longrightarrow> \<exists>s'. ?run k s'")
proof (induction k)
  case 0
  show ?case using q inv by (intro exI [of _ s]) (simp add: same_run_def sched_ok_def)
next
  case (Suc k)
  let ?now = "unat (s_time s)" and ?new = "\<lambda>i. unat (arrival_time (tb ! i)) = unat (s_time s)"
  obtain s1 where s1: "rfold (arrive_step cfg) s [0..<k] = Inr s1" "same_run s s1" "queue_rep (s_queue s1) (map of_nat (xs @ filter ?new [0..<k]))"
    "length (tier_quantum_time s1) = unat (total_tiers cfg)" "\<forall>i \<in> arrived tb ?now. 0 < tier_quantum_time s1 ! tier_of cfg (tb ! i)"
    "(\<exists>j < k. ?new j) \<longrightarrow> (\<forall>i \<in> arrived tb (Suc ?now). 0 < tier_quantum_time s1 ! tier_of cfg (tb ! i))"
    using Suc by auto
  have t1: "s_table s1 = s_table s" "s_time s1 = s_time s" using s1(2) by (auto simp: same_run_def)
  have arr: "(arrival_time (s_table s1 ! k) = s_time s1) = ?new k" using inv Suc.prems t1 by (simp add: sched_ok_def word_unat_eq_iff)
  show ?case
  proof (cases "?new k")
    case True
    with arrive_step_run [OF _ s1(4,3), of k] sched_table(1) [OF ok inv] t1 arr obtain sms act q' where
      "arrive_step cfg s1 k = Inr (s1\<lparr>sumT := sms, tier_active_nodes := act,
        tier_quantum_time := map (next_quantum cfg (s_time s) (s_table s) (tier_quantum_time s1)) [0..<unat (total_tiers cfg)], s_queue := q'\<rparr>)"
      and "queue_rep q' (map of_nat ((xs @ filter ?new [0..<k]) @ [k]))" by auto
    moreover have "\<forall>i \<in> arrived tb (Suc ?now). 0 < map (next_quantum cfg (s_time s) (s_table s) (tier_quantum_time s1)) [0..<unat (total_tiers cfg)] ! tier_of cfg (tb ! i)"
      using next_quantum_arrived_pos [OF ok inv] s1(5) by blast
    moreover have "arrived tb ?now \<subseteq> arrived tb (Suc ?now)" by (auto simp: arrived_def)
    ultimately show ?thesis using s1(1,2) True by (auto simp: rfold_append same_run_def)
  next
    case False
    then have "arrive_step cfg s1 k = Inr s1" using arr by (simp add: arrive_step_def)
    then show ?thesis using s1 False by (auto simp: rfold_append less_Suc_eq)
  qed
qed

text \<open>The nodes in the queue and the nodes of this second are the open nodes of the next second.\<close>

lemma arrivals_set:
  assumes ok: "sim_ok cfg tb" and inv: "sched_ok cfg tb (unat (s_time s)) run s" and run: "run \<subseteq> arrived tb (unat (s_time s))"
  shows "{i \<in> arrived tb (unat (s_time s)). 0 < unat (time_left (s_table s ! i))} - run
      \<union> {i. i < length tb \<and> unat (arrival_time (tb ! i)) = unat (s_time s)}
    = {i \<in> arrived tb (Suc (unat (s_time s))). 0 < unat (time_left (s_table s ! i))} - run"
proof -
  have "0 < unat (time_left (s_table s ! i)) \<and> i \<notin> run" if "i < length tb" "unat (arrival_time (tb ! i)) = unat (s_time s)" for i
  proof -
    have "i \<notin> arrived tb (unat (s_time s))" using that by (simp add: arrived_def)
    then show ?thesis using inv sim_okD(1) [OF ok that(1)] run that(1) by (auto simp: sched_ok_def)
  qed
  then show ?thesis by (auto simp: arrived_Suc)
qed

lemma check_node_arrive_run:
  assumes ok: "sim_ok cfg tb" and inv: "sched_ok cfg tb (unat (s_time s)) run s" and run: "run \<subseteq> arrived tb (unat (s_time s))"
  shows "\<exists>s'. check_node_arrive cfg s = Inr s' \<and> sched_ok cfg tb (Suc (unat (s_time s))) run s' \<and> same_run s s'"
proof -
  let ?now = "unat (s_time s)" and ?new = "\<lambda>i. unat (arrival_time (tb ! i)) = unat (s_time s)"
  let ?pos = "\<lambda>s' i. 0 < tier_quantum_time s' ! tier_of cfg (tb ! i)"
  have len: "length (s_table s) = length tb" using inv by (simp add: sched_ok_def)
  obtain xs where xs: "queue_rep (s_queue s) (map of_nat xs)" "distinct xs" "set xs = {i \<in> arrived tb ?now. 0 < unat (time_left (s_table s ! i))} - run"
    using inv by (auto simp: sched_ok_def)
  let ?ys = "xs @ filter ?new [0..<length tb]"
  from arrivals_fold [OF ok inv xs(1) order_refl] obtain s' where s': "check_node_arrive cfg s = Inr s'" "same_run s s'"
    "queue_rep (s_queue s') (map of_nat ?ys)" "length (tier_quantum_time s') = unat (total_tiers cfg)"
    "\<forall>i \<in> arrived tb ?now. ?pos s' i" "(\<exists>j < length tb. ?new j) \<longrightarrow> (\<forall>i \<in> arrived tb (Suc ?now). ?pos s' i)"
    unfolding check_node_arrive_def len by blast
  have pos: "\<forall>i \<in> arrived tb (Suc ?now). ?pos s' i"
  proof (cases "\<exists>j < length tb. ?new j")
    case False
    then have "arrived tb (Suc ?now) = arrived tb ?now" by (auto simp: arrived_Suc)
    with s'(5) show ?thesis by simp
  qed (use s'(6) in blast)
  have "set xs \<inter> set (filter ?new [0..<length tb]) = {}" unfolding xs(3) by (auto simp: arrived_def)
  then have dist: "distinct ?ys" using xs(2) by simp
  have "set ?ys = {i \<in> arrived tb (Suc ?now). 0 < unat (time_left (s_table s ! i))} - run"
    using arrivals_set [OF ok inv run] xs(3) by auto
  with s'(3) dist have "\<exists>ys. queue_rep (s_queue s') (map of_nat ys) \<and> distinct ys
     \<and> set ys = {i \<in> arrived tb (Suc ?now). 0 < unat (time_left (s_table s ! i))} - run" by blast
  moreover have "\<forall>i < length tb. i \<notin> arrived tb (Suc ?now) \<longrightarrow> time_left (s_table s ! i) = sgx_time (tb ! i)"
    using inv by (auto simp: sched_ok_def arrived_Suc)
  ultimately have "sched_ok cfg tb (Suc ?now) run s'"
    using s'(2,4) inv pos unfolding sched_ok_def same_run_def by simp
  with s'(1,2) show ?thesis by blast
qed

section \<open>Running\<close>

lemma of_nat_node_eq:
  assumes "i < 2 ^ 12" and "j < 2 ^ 12"
  shows "(of_nat i = (of_nat j :: uint)) = (i = j)"
proof -
  have "unat (of_nat i :: uint) = i" "unat (of_nat j :: uint) = j" using assms by (simp_all add: unat_of_nat_uint)
  then show ?thesis by metis
qed

lemma slots_ok_cong:
  assumes "s_time s' = s_time s" "nodes_queue s' = nodes_queue s" "\<And>i. i < length tb \<Longrightarrow> used (s_table s' ! i) = used (s_table s ! i)"
  shows "slots_ok tb idle s' = slots_ok tb idle s"
proof -
  have "(\<Sum>i < length tb. used (s_table s' ! i)) = (\<Sum>i < length tb. used (s_table s ! i))" by (rule sum.cong) (simp_all add: assms(3))
  then show ?thesis using assms(3) unfolding slots_ok_def assms(1,2) by (simp cong: conj_cong)
qed

lemma slots_same_run: "same_run s s' \<Longrightarrow> slots_ok tb idle s' = slots_ok tb idle s"
  by (rule slots_ok_cong) (simp_all add: same_run_def)

lemma used_sub: "0 < unat (time_left nd) \<Longrightarrow> time_left nd \<le> sgx_time nd \<Longrightarrow> used (nd\<lparr>time_left := time_left nd - 1\<rparr>) = Suc (used nd)"
proof -
  assume a: "0 < unat (time_left nd)" "time_left nd \<le> sgx_time nd"
  then have "unat (time_left nd - 1) = unat (time_left nd) - 1" by (intro unat_minus_one) (simp add: unat_gt_0)
  then show ?thesis using a by (simp add: used_def word_le_nat_alt)
qed

lemma slots_card_Suc:
  "card {t. t < Suc n \<and> (f(n := v)) t = w} = card {t. t < n \<and> f t = w} + (if v = w then 1 else 0)"
proof -
  have "{t. t < Suc n \<and> (f(n := v)) t = w} = (if v = w then insert n {t. t < n \<and> f t = w} else {t. t < n \<and> f t = w})"
    by (auto simp: less_Suc_eq)
  then show ?thesis by simp
qed

lemma slots_step:
  assumes slots: "slots_ok tb idle s" and len: "length (s_table s) = length tb" "length tb < 2 ^ 12" and time: "unat (s_time s + 1) = Suc (unat (s_time s))"
    and u: "u < length tb" "unat (arrival_time (tb ! u)) \<le> unat (s_time s)" and nd: "used nd = Suc (used (s_table s ! u))"
  shows "slots_ok tb idle (s\<lparr>nodes_queue := (nodes_queue s)(unat (s_time s) := of_nat u), s_table := (s_table s)[u := nd], s_time := s_time s + 1\<rparr>)"
proof -
  have eq: "((of_nat u :: uint) = of_nat i) = (u = i)" if "i < length tb" for i
    using of_nat_node_eq [of u i] len(2) u(1) that by simp
  have nth: "used ((s_table s)[u := nd] ! i) = (if i = u then Suc (used (s_table s ! i)) else used (s_table s ! i))" if "i < length tb" for i
    using nd len(1) that by simp
  have "(\<Sum>i < length tb. used ((s_table s)[u := nd] ! i)) = (\<Sum>i < length tb. if i = u then used (s_table s ! i) + 1 else used (s_table s ! i))"
    by (rule sum.cong) (auto simp: nth)
  also have "\<dots> = Suc (\<Sum>i < length tb. used (s_table s ! i))" using sum_upd [OF u(1), of "\<lambda>i. used (s_table s ! i)" 1] by simp
  finally have sum: "(\<Sum>i < length tb. used ((s_table s)[u := nd] ! i)) = Suc (\<Sum>i < length tb. used (s_table s ! i))" .
  let ?now = "unat (s_time s)" and ?f = "nodes_queue s" and ?tbl = "(s_table s)[u := nd]"
  have s: "\<forall>t. ?now \<le> t \<longrightarrow> ?f t = 0" "?now = (\<Sum>i < length tb. used (s_table s ! i)) + idle"
    "\<And>i. i < length tb \<Longrightarrow> card {t. t < ?now \<and> ?f t = of_nat i} = used (s_table s ! i) + (if i = 0 then idle else 0)"
    "\<And>i t. i < length tb \<Longrightarrow> t < ?now \<Longrightarrow> 0 < i \<Longrightarrow> ?f t = of_nat i \<Longrightarrow> unat (arrival_time (tb ! i)) \<le> t"
    using slots by (auto simp: slots_ok_def)
  have "card {t. t < Suc ?now \<and> (?f(?now := of_nat u)) t = of_nat i} = used (?tbl ! i) + (if i = 0 then idle else 0)" if "i < length tb" for i
    unfolding slots_card_Suc s(3) [OF that] nth [OF that] eq [OF that] by simp
  moreover have "unat (arrival_time (tb ! i)) \<le> t"
    if "i < length tb" "t < Suc ?now" "0 < i" "(?f(?now := of_nat u)) t = of_nat i" for i t
    using that s(4) [of i t] eq [OF that(1)] u(2) by (cases "t = ?now") auto
  moreover have "Suc ?now = (\<Sum>i < length tb. used (?tbl ! i)) + idle" using s(2) sum by simp
  moreover have "\<forall>t. Suc ?now \<le> t \<longrightarrow> (?f(?now := of_nat u)) t = 0" using s(1) by simp
  ultimately show ?thesis unfolding slots_ok_def by (simp add: time)
qed

lemma sched_ok_table:
  assumes inv: "sched_ok cfg tb k run s" and same: "s_queue s' = s_queue s" "tier_quantum_time s' = tier_quantum_time s"
      "length (s_table s') = length tb"
    and nodes: "\<And>i. i < length tb \<Longrightarrow> arrival_time (s_table s' ! i) = arrival_time (s_table s ! i)
      \<and> sgx_time (s_table s' ! i) = sgx_time (s_table s ! i) \<and> time_left (s_table s' ! i) \<le> time_left (s_table s ! i)
      \<and> (i \<in> run \<and> i \<in> arrived tb k \<or> time_left (s_table s' ! i) = time_left (s_table s ! i))"
  shows "sched_ok cfg tb k run s'"
proof -
  have "{i \<in> arrived tb k. 0 < unat (time_left (s_table s' ! i))} - run = {i \<in> arrived tb k. 0 < unat (time_left (s_table s ! i))} - run"
    using nodes by (force simp: arrived_def)
  moreover have "arrival_time (s_table s' ! i) = arrival_time (tb ! i) \<and> sgx_time (s_table s' ! i) = sgx_time (tb ! i)
      \<and> time_left (s_table s' ! i) \<le> sgx_time (tb ! i) \<and> (i \<notin> arrived tb k \<longrightarrow> time_left (s_table s' ! i) = sgx_time (tb ! i))"
    if "i < length tb" for i
  proof -
    from inv that have "arrival_time (s_table s ! i) = arrival_time (tb ! i)" "sgx_time (s_table s ! i) = sgx_time (tb ! i)"
      "time_left (s_table s ! i) \<le> sgx_time (tb ! i)" "i \<notin> arrived tb k \<longrightarrow> time_left (s_table s ! i) = sgx_time (tb ! i)"
      by (simp_all add: sched_ok_def)
    with nodes [OF that] show ?thesis by auto
  qed
  ultimately show ?thesis using inv same unfolding sched_ok_def by simp
qed

lemma run_second_sched:
  assumes ok: "sim_ok cfg tb" and inv: "sched_ok cfg tb (Suc (unat (s_time s))) {u} s"
    and u: "u \<in> arrived tb (Suc (unat (s_time s)))" "0 < unat (time_left (s_table s ! u))" and room: "unat (s_time s) < MAX_SIZE"
  shows "\<exists>s'. run_second cfg u s = Inr s' \<and> sched_ok cfg tb (Suc (unat (s_time s'))) {u} s' \<and> unat (s_time s') = Suc (unat (s_time s))
     \<and> same_run (s\<lparr>nodes_queue := (nodes_queue s)(unat (s_time s) := of_nat u),
          s_table := (s_table s)[u := (s_table s ! u)\<lparr>time_left := time_left (s_table s ! u) - 1\<rparr>], s_time := s_time s + 1\<rparr>) s'"
proof -
  let ?nd = "(s_table s ! u)\<lparr>time_left := time_left (s_table s ! u) - 1\<rparr>"
  let ?s1 = "s\<lparr>nodes_queue := (nodes_queue s)(unat (s_time s) := of_nat u), s_table := (s_table s)[u := ?nd], s_time := s_time s + 1\<rparr>"
  have time: "unat (s_time s + 1) = Suc (unat (s_time s))" using room by (simp add: MAX_SIZE_def unat_word_ariths(1))
  have un: "u < length tb" "length (s_table s) = length tb" using u(1) inv by (auto simp: arrived_def sched_ok_def)
  have le: "time_left (s_table s ! u) - 1 \<le> time_left (s_table s ! u)" using u(2) by (simp add: word_le_nat_alt unat_minus_one unat_gt_0)
  have "sched_ok cfg tb (unat (s_time ?s1)) {u} ?s1"
  proof (rule sched_ok_table)
    show "sched_ok cfg tb (unat (s_time ?s1)) {u} s" using inv by (simp add: time)
  qed (use un le u(1) time in \<open>auto simp: nth_list_update\<close>)
  moreover have "{u} \<subseteq> arrived tb (unat (s_time ?s1))" using u(1) by (simp add: time)
  ultimately obtain s' where s': "check_node_arrive cfg ?s1 = Inr s'" "sched_ok cfg tb (Suc (unat (s_time ?s1))) {u} s'" "same_run ?s1 s'"
    using check_node_arrive_run [OF ok] by blast
  moreover have "run_second cfg u s = Inr s'" using s'(1) room by (simp add: run_second_def)
  ultimately show ?thesis using time by (intro exI [of _ s']) (simp add: same_run_def)
qed

lemma run_second_run:
  assumes ok: "sim_ok cfg tb" and inv: "sched_ok cfg tb (Suc (unat (s_time s))) {u} s" and slots: "slots_ok tb idle s"
    and u: "u \<in> arrived tb (Suc (unat (s_time s)))" "0 < unat (time_left (s_table s ! u))" and room: "unat (s_time s) < MAX_SIZE"
  shows "\<exists>s'. run_second cfg u s = Inr s' \<and> sched_ok cfg tb (Suc (unat (s_time s'))) {u} s' \<and> slots_ok tb idle s'
     \<and> unat (s_time s') = Suc (unat (s_time s))
     \<and> s_table s' = (s_table s)[u := (s_table s ! u)\<lparr>time_left := time_left (s_table s ! u) - 1\<rparr>]"
proof -
  let ?nd = "(s_table s ! u)\<lparr>time_left := time_left (s_table s ! u) - 1\<rparr>"
  let ?s1 = "s\<lparr>nodes_queue := (nodes_queue s)(unat (s_time s) := of_nat u), s_table := (s_table s)[u := ?nd], s_time := s_time s + 1\<rparr>"
  obtain s' where s': "run_second cfg u s = Inr s'" "sched_ok cfg tb (Suc (unat (s_time s'))) {u} s'"
    "unat (s_time s') = Suc (unat (s_time s))" "same_run ?s1 s'"
    using run_second_sched [OF ok inv u room] by blast
  have time: "unat (s_time s + 1) = Suc (unat (s_time s))" using room by (simp add: MAX_SIZE_def unat_word_ariths(1))
  have un: "u < length tb" "unat (arrival_time (tb ! u)) \<le> unat (s_time s)" using u(1) by (auto simp: arrived_def)
  have entry: "length (s_table s) = length tb" "time_left (s_table s ! u) \<le> sgx_time (s_table s ! u)" using inv un by (auto simp: sched_ok_def)
  have n: "length tb < 2 ^ 12" using ok by (simp add: sim_ok_def)
  have "slots_ok tb idle ?s1"
    using slots_step [OF slots entry(1) n time un] used_sub [OF u(2) entry(2)] by simp
  then have "slots_ok tb idle s'" using slots_same_run [OF s'(4)] by simp
  then show ?thesis using s' by (intro exI [of _ s']) (simp add: same_run_def)
qed

lemma arrived_mono: "k \<le> k' \<Longrightarrow> arrived tb k \<subseteq> arrived tb k'"
  by (auto simp: arrived_def)

lemma run_quantum_run:
  assumes ok: "sim_ok cfg tb" and u: "u < length tb" and room: "A + (\<Sum>i < length tb. unat (sgx_time (tb ! i))) \<le> MAX_SIZE" "idle \<le> A"
  shows "sched_ok cfg tb (Suc (unat (s_time s))) {u} s \<Longrightarrow> slots_ok tb idle s \<Longrightarrow> u \<in> arrived tb (Suc (unat (s_time s)))
    \<Longrightarrow> k \<le> unat (time_left (s_table s ! u)) \<Longrightarrow>
    \<exists>s'. run_quantum cfg u k s = Inr s' \<and> sched_ok cfg tb (Suc (unat (s_time s'))) {u} s' \<and> slots_ok tb idle s'
     \<and> u \<in> arrived tb (Suc (unat (s_time s')))
     \<and> unat (time_left (s_table s' ! u)) = unat (time_left (s_table s ! u)) - k
     \<and> (\<forall>i. i \<noteq> u \<longrightarrow> s_table s' ! i = s_table s ! i)"
proof (induction k arbitrary: s)
  case 0
  then show ?case by auto
next
  case (Suc k)
  let ?l = "time_left (s_table s ! u)"
  have pos: "0 < unat ?l" using Suc.prems(4) by simp
  have len: "length (s_table s) = length tb" and sgx: "\<forall>i < length tb. sgx_time (s_table s ! i) = sgx_time (tb ! i)"
    using Suc.prems(1) by (auto simp: sched_ok_def)
  have "(\<Sum>i < length tb. used (s_table s ! i)) < (\<Sum>i < length tb. unat (sgx_time (tb ! i)))"
  proof (rule sum_strict_mono_ex1)
    show "\<forall>i \<in> {..<length tb}. used (s_table s ! i) \<le> unat (sgx_time (tb ! i))" using sgx by (simp add: used_def)
    have "?l \<le> sgx_time (tb ! u)" using Suc.prems(1) u by (simp add: sched_ok_def)
    then have "used (s_table s ! u) < unat (sgx_time (tb ! u))" using sgx u pos by (simp add: used_def word_le_nat_alt)
    with u show "\<exists>i \<in> {..<length tb}. used (s_table s ! i) < unat (sgx_time (tb ! i))" by blast
  qed simp
  moreover have "unat (s_time s) = (\<Sum>i < length tb. used (s_table s ! i)) + idle" using Suc.prems(2) by (simp add: slots_ok_def)
  ultimately have "unat (s_time s) < MAX_SIZE" using room by linarith
  from run_second_run [OF ok Suc.prems(1-3) pos this] obtain s1 where s1: "run_second cfg u s = Inr s1"
    "sched_ok cfg tb (Suc (unat (s_time s1))) {u} s1" "slots_ok tb idle s1" "unat (s_time s1) = Suc (unat (s_time s))"
    "s_table s1 = (s_table s)[u := (s_table s ! u)\<lparr>time_left := ?l - 1\<rparr>]" by blast
  have l1: "unat (time_left (s_table s1 ! u)) = unat ?l - 1"
    using u len pos by (simp add: s1(5) unat_minus_one unat_gt_0)
  have k: "k \<le> unat (time_left (s_table s1 ! u))" using l1 Suc.prems(4) by linarith
  have "u \<in> arrived tb (Suc (unat (s_time s1)))" using Suc.prems(3) arrived_mono [of "Suc (unat (s_time s))" "Suc (unat (s_time s1))" tb] s1(4) by auto
  from Suc.IH [OF s1(2,3) this k] l1 obtain s' where
    "run_quantum cfg u k s1 = Inr s'" "sched_ok cfg tb (Suc (unat (s_time s'))) {u} s'" "slots_ok tb idle s'" "u \<in> arrived tb (Suc (unat (s_time s')))"
    "unat (time_left (s_table s' ! u)) = unat ?l - Suc k" "\<forall>i. i \<noteq> u \<longrightarrow> s_table s' ! i = s_table s1 ! i" by auto
  then show ?case using s1(1,5) by (intro exI [of _ s']) simp
qed

text \<open>The end of a quantum: an unfinished node goes to the back of the queue.\<close>

lemma sched_ok_requeue:
  assumes inv: "sched_ok cfg tb k {u} s" and u: "u \<in> arrived tb k"
  shows "0 < unat (time_left (s_table s ! u)) \<Longrightarrow> \<exists>q. queue_push (s_queue s) (of_nat u) = Inr q \<and> sched_ok cfg tb k {} (s\<lparr>s_queue := q\<rparr>)"
    and "unat (time_left (s_table s ! u)) = 0 \<Longrightarrow> sched_ok cfg tb k {} s"
proof -
  let ?open = "{i \<in> arrived tb k. 0 < unat (time_left (s_table s ! i))}"
  obtain xs where xs: "queue_rep (s_queue s) (map of_nat xs)" "distinct xs" "set xs = ?open - {u}"
    using inv by (auto simp: sched_ok_def)
  obtain q where q: "queue_push (s_queue s) (of_nat u) = Inr q" "queue_rep q (map of_nat (xs @ [u]))"
    using queue_rep_push [OF xs(1), of "of_nat u" True True] by (auto simp: queue_push_def)
  {
    assume "0 < unat (time_left (s_table s ! u))"
    then have "?open = insert u (set xs)" "u \<notin> set xs" using xs(3) u by auto
    then have "\<exists>ys. queue_rep q (map of_nat ys) \<and> distinct ys \<and> set ys = ?open - {}"
      using q(2) xs(2) by (intro exI [of _ "xs @ [u]"]) auto
    then have "sched_ok cfg tb k {} (s\<lparr>s_queue := q\<rparr>)" using inv unfolding sched_ok_def by simp
    with q(1) show "\<exists>q. queue_push (s_queue s) (of_nat u) = Inr q \<and> sched_ok cfg tb k {} (s\<lparr>s_queue := q\<rparr>)" by blast
  next
    assume "unat (time_left (s_table s ! u)) = 0"
    then have "?open - {u} = ?open - {}" by auto
    with inv show "sched_ok cfg tb k {} s" unfolding sched_ok_def by simp
  }
qed

lemma idle_sched:
  assumes ok: "sim_ok cfg tb" and inv: "sched_ok cfg tb (Suc (unat (s_time s))) {} s" and time: "unat (s_time s + 1) = Suc (unat (s_time s))"
  shows "\<exists>s'. check_node_arrive cfg (s\<lparr>s_time := s_time s + 1\<rparr>) = Inr s' \<and> sched_ok cfg tb (Suc (unat (s_time s'))) {} s'
     \<and> same_run (s\<lparr>s_time := s_time s + 1\<rparr>) s'"
proof -
  let ?s1 = "s\<lparr>s_time := s_time s + 1\<rparr>"
  have "sched_ok cfg tb (unat (s_time ?s1)) {} ?s1" using inv by (simp add: sched_ok_def time)
  then obtain s' where "check_node_arrive cfg ?s1 = Inr s'" "sched_ok cfg tb (Suc (unat (s_time ?s1))) {} s'" "same_run ?s1 s'"
    using check_node_arrive_run [OF ok, of ?s1 "{}"] by blast
  then show ?thesis by (intro exI [of _ s']) (simp add: same_run_def)
qed

lemma idle_second:
  assumes ok: "sim_ok cfg tb" and inv: "sched_ok cfg tb (Suc (unat (s_time s))) {} s" and slots: "slots_ok tb idle s"
    and time: "unat (s_time s + 1) = Suc (unat (s_time s))"
  shows "\<exists>s'. check_node_arrive cfg (s\<lparr>s_time := s_time s + 1\<rparr>) = Inr s' \<and> sched_ok cfg tb (Suc (unat (s_time s'))) {} s'
     \<and> slots_ok tb (Suc idle) s' \<and> s_table s' = s_table s"
proof -
  let ?s1 = "s\<lparr>s_time := s_time s + 1\<rparr>" and ?now = "unat (s_time s)" and ?f = "nodes_queue s"
  obtain s' where s': "check_node_arrive cfg ?s1 = Inr s'" "sched_ok cfg tb (Suc (unat (s_time s'))) {} s'" "same_run ?s1 s'"
    using idle_sched [OF ok inv time] by blast
  have n: "length tb < 2 ^ 12" using ok by (simp add: sim_ok_def)
  have f0: "\<forall>t. ?now \<le> t \<longrightarrow> ?f t = 0" using slots by (simp add: slots_ok_def)
  then have "?f = ?f(?now := 0)" by auto
  then have "card {t. t < Suc ?now \<and> ?f t = of_nat i} = used (s_table s ! i) + (if i = 0 then Suc idle else 0)" if "i < length tb" for i
    using slots_card_Suc [of ?now ?f 0 "of_nat i"] of_nat_node_eq [of 0 i] n that slots by (auto simp: slots_ok_def)
  moreover have "unat (arrival_time (tb ! i)) \<le> t" if "i < length tb" "t < Suc ?now" "0 < i" "?f t = of_nat i" for i t
  proof -
    have "t \<noteq> ?now" using f0 that of_nat_node_eq [of 0 i] n by auto
    with slots that show ?thesis by (simp add: slots_ok_def)
  qed
  moreover have "Suc ?now = (\<Sum>i < length tb. used (s_table s ! i)) + Suc idle" using slots by (simp add: slots_ok_def)
  moreover have "\<forall>t. Suc ?now \<le> t \<longrightarrow> ?f t = 0" using f0 by simp
  ultimately have "slots_ok tb (Suc idle) ?s1" unfolding slots_ok_def by (simp add: time)
  then have "slots_ok tb (Suc idle) s'" using slots_same_run [OF s'(3)] by simp
  then show ?thesis using s' by (intro exI [of _ s']) (simp add: same_run_def)
qed

section \<open>The whole simulation\<close>

lemma work_left_less:
  assumes "u < length tb" and "unat (time_left (s_table s' ! u)) < unat (time_left (s_table s ! u))" and "\<And>i. i \<noteq> u \<Longrightarrow> s_table s' ! i = s_table s ! i"
  shows "work_left tb s' < work_left tb s"
  unfolding work_left_def
proof (rule sum_strict_mono_ex1)
  show "\<forall>i \<in> {..<length tb}. unat (time_left (s_table s' ! i)) \<le> unat (time_left (s_table s ! i))"
    using assms(2,3) by (metis less_imp_le order_refl)
  show "\<exists>i \<in> {..<length tb}. unat (time_left (s_table s' ! i)) < unat (time_left (s_table s ! i))" using assms(1,2) by blast
qed simp

text \<open>A round with an empty queue is an idle second before the last arrival.\<close>

lemma idle_round:
  assumes ok: "sim_ok cfg tb" and fits: "fits tb A" and inv: "loop_inv cfg tb A idle s"
    and open_: "i < length tb" "0 < unat (time_left (s_table s ! i))" and q: "queue_rep (s_queue s) []"
  shows "\<exists>s' idle'. arrange_body cfg s = Inr s' \<and> loop_inv cfg tb A idle' s'
     \<and> work_left tb s' + (A - idle') < work_left tb s + (A - idle)"
proof -
  let ?k = "Suc (unat (s_time s))" and ?q1 = "call True Unlock (call True Rdlock (s_queue s))"
  have sched: "sched_ok cfg tb ?k {} s" and slots: "slots_ok tb idle s" and idle: "idle \<le> A" using inv by (auto simp: loop_inv_def)
  have empty: "queue_is_empty (s_queue s) = Inr (True, ?q1)" using queue_rep_is_empty [OF q, of True] by (simp add: queue_is_empty_def)
  obtain xs where xs: "queue_rep (s_queue s) (map of_nat xs)" "set xs = {i \<in> arrived tb ?k. 0 < unat (time_left (s_table s ! i))}"
    using sched by (auto simp: sched_ok_def)
  have "xs = []" using queue_rep_unique [OF q xs(1)] by simp
  with xs(2) have "{i \<in> arrived tb ?k. 0 < unat (time_left (s_table s ! i))} = {}" by simp
  then have "i \<notin> arrived tb ?k" using open_ by auto
  then have late: "unat (s_time s) < A" using fits open_(1) by (auto simp: arrived_def fits_def)
  then have "unat (s_time s) < MAX_SIZE" using fits by (simp add: fits_def)
  then have time: "unat (s_time s + 1) = Suc (unat (s_time s))" by (simp add: MAX_SIZE_def unat_word_ariths(1))
  let ?s = "s\<lparr>s_queue := ?q1\<rparr>"
  have "sched_ok cfg tb (Suc (unat (s_time ?s))) {} ?s" "slots_ok tb idle ?s" "unat (s_time ?s + 1) = Suc (unat (s_time ?s))"
    using sched slots time slots_ok_cong [of ?s s] by (auto simp: sched_ok_def)
  from idle_second [OF ok this] obtain s' where "check_node_arrive cfg (?s\<lparr>s_time := s_time ?s + 1\<rparr>) = Inr s'"
    "sched_ok cfg tb (Suc (unat (s_time s'))) {} s'" "slots_ok tb (Suc idle) s'" "s_table s' = s_table s" by auto
  moreover have "unat (s_time s) = (\<Sum>i < length tb. used (s_table s ! i)) + idle" using slots by (simp add: slots_ok_def)
  ultimately show ?thesis using empty late
    by (intro exI [of _ s'] exI [of _ "Suc idle"]) (simp add: arrange_body_def loop_inv_def work_left_def)
qed

text \<open>The end of a round of node \<open>u\<close>.\<close>

lemma end_quantum:
  assumes "sched_ok cfg tb (Suc (unat (s_time s))) {u} s" and "u \<in> arrived tb (Suc (unat (s_time s)))" and "slots_ok tb idle s" and "idle \<le> A"
  shows "\<exists>s'. (if time_left (s_table s ! u) > 0 then rbind (queue_push (s_queue s) (of_nat u)) (\<lambda>q. Inr (s\<lparr>s_queue := q\<rparr>)) else Inr s) = Inr s'
    \<and> loop_inv cfg tb A idle s' \<and> work_left tb s' = work_left tb s"
proof (cases "unat (time_left (s_table s ! u)) = 0")
  case True
  then show ?thesis using sched_ok_requeue(2) [OF assms(1,2)] assms(3,4) by (simp add: word_less_nat_alt loop_inv_def)
next
  case False
  then obtain q where q: "queue_push (s_queue s) (of_nat u) = Inr q" "sched_ok cfg tb (Suc (unat (s_time s))) {} (s\<lparr>s_queue := q\<rparr>)"
    using sched_ok_requeue(1) [OF assms(1,2)] by auto
  moreover have "slots_ok tb idle (s\<lparr>s_queue := q\<rparr>)" "work_left tb (s\<lparr>s_queue := q\<rparr>) = work_left tb s"
    using assms(3) slots_ok_cong [of "s\<lparr>s_queue := q\<rparr>" s] by (simp_all add: work_left_def)
  ultimately show ?thesis using False assms(4) by (simp add: word_less_nat_alt loop_inv_def)
qed

text \<open>A round in which the front of the queue runs for its quantum.\<close>

lemma busy_start:
  assumes ok: "sim_ok cfg tb" and sched: "sched_ok cfg tb (Suc (unat (s_time s))) {} s"
    and xs: "queue_rep (s_queue s) (map of_nat (u # ys))" "distinct (u # ys)"
      "set (u # ys) = {i \<in> arrived tb (Suc (unat (s_time s))). 0 < unat (time_left (s_table s ! i))}"
  shows "\<exists>q m. 0 < m \<and> m \<le> unat (time_left (s_table s ! u)) \<and> sched_ok cfg tb (Suc (unat (s_time s))) {u} (s\<lparr>s_queue := q\<rparr>)
    \<and> arrange_body cfg s = rbind (run_quantum cfg u m (s\<lparr>s_queue := q\<rparr>)) (\<lambda>s3. if time_left (s_table s3 ! u) > 0
        then rbind (queue_push (s_queue s3) (of_nat u)) (\<lambda>q3. Inr (s3\<lparr>s_queue := q3\<rparr>)) else Inr s3)"
proof -
  let ?k = "Suc (unat (s_time s))" and ?q1 = "call True Unlock (call True Rdlock (s_queue s))"
  have empty: "queue_is_empty (s_queue s) = Inr (False, ?q1)" and rep1: "queue_rep ?q1 (map of_nat (u # ys))"
    using queue_rep_is_empty [OF xs(1), of True] xs(1) by (auto simp: queue_is_empty_def)
  have ua: "u \<in> arrived tb ?k" and left: "0 < unat (time_left (s_table s ! u))" using xs(3) by auto
  have u: "u < length tb" "length tb < 2 ^ 12" using ua ok by (simp_all add: arrived_def sim_ok_def)
  then have uid: "unat (ucast (of_nat u :: size_t) :: uint) = u" by (simp add: unat_of_nat unsigned_ucast_eq take_bit_nat_eq_self_iff)
  have uid2: "ucast (ucast (of_nat u :: size_t) :: uint) = (of_nat u :: size_t)" using arg_cong [OF uid, of "of_nat :: nat \<Rightarrow> size_t"] by simp
  obtain q2 where q2: "queue_pop (call True Unlock (call True Rdlock ?q1)) = Inr q2" "queue_rep q2 (map of_nat ys)"
    using queue_rep_pop [of "call True Unlock (call True Rdlock ?q1)" "map of_nat (u # ys)" True True] rep1 by (auto simp: queue_pop_def)
  have front: "queue_front 0 ?q1 = Inr (of_nat u, call True Unlock (call True Rdlock ?q1))"
    using queue_rep_front [OF rep1, of 0 True] by (simp add: queue_front_def)
  have "\<exists>zs. queue_rep q2 (map of_nat zs) \<and> distinct zs \<and> set zs = {i \<in> arrived tb ?k. 0 < unat (time_left (s_table s ! i))} - {u}"
    using q2(2) xs(2) by (intro exI [of _ ys]) (simp flip: xs(3))
  then have sched1: "sched_ok cfg tb ?k {u} (s\<lparr>s_queue := q2\<rparr>)" using sched unfolding sched_ok_def by simp
  note tbl = sched_table [OF ok sched]
  have tier: "sim_tier_number cfg (s_table s ! u) = Inr (int (tier_of cfg (tb ! u)))" "tier_of cfg (tb ! u) < unat (total_tiers cfg)"
    using sim_okD(4,5) [OF tbl(1), of u] tbl(2) [OF u(1)] u sched by (auto simp: sched_ok_def)
  let ?qt = "tier_quantum_time s ! tier_of cfg (tb ! u)"
  let ?m = "unat (min ?qt (time_left (s_table s ! u)))"
  have qt: "0 < ?qt" "length (tier_quantum_time s) = unat (total_tiers cfg)" using sched ua by (auto simp: sched_ok_def)
  have "0 < ?m" "?m \<le> unat (time_left (s_table s ! u))" using qt(1) left by (auto simp: min_def word_le_nat_alt word_less_nat_alt)
  moreover have "arrange_body cfg s = rbind (run_quantum cfg u ?m (s\<lparr>s_queue := q2\<rparr>)) (\<lambda>s3. if time_left (s_table s3 ! u) > 0
      then rbind (queue_push (s_queue s3) (of_nat u)) (\<lambda>q3. Inr (s3\<lparr>s_queue := q3\<rparr>)) else Inr s3)"
    using empty front q2(1) tier qt(2) by (simp add: arrange_body_def Let_def uid uid2 cong: if_cong)
  ultimately show ?thesis using sched1 by blast
qed

lemma busy_round:
  assumes ok: "sim_ok cfg tb" and fits: "fits tb A" and inv: "loop_inv cfg tb A idle s"
    and xs: "queue_rep (s_queue s) (map of_nat (u # ys))" "distinct (u # ys)"
      "set (u # ys) = {i \<in> arrived tb (Suc (unat (s_time s))). 0 < unat (time_left (s_table s ! i))}"
  shows "\<exists>s'. arrange_body cfg s = Inr s' \<and> loop_inv cfg tb A idle s' \<and> work_left tb s' < work_left tb s"
proof -
  have sched: "sched_ok cfg tb (Suc (unat (s_time s))) {} s" and slots: "slots_ok tb idle s" and idle: "idle \<le> A" using inv by (auto simp: loop_inv_def)
  obtain q m where m: "0 < m" "m \<le> unat (time_left (s_table s ! u))" and sched1: "sched_ok cfg tb (Suc (unat (s_time s))) {u} (s\<lparr>s_queue := q\<rparr>)"
    and body: "arrange_body cfg s = rbind (run_quantum cfg u m (s\<lparr>s_queue := q\<rparr>)) (\<lambda>s3. if time_left (s_table s3 ! u) > 0
        then rbind (queue_push (s_queue s3) (of_nat u)) (\<lambda>q3. Inr (s3\<lparr>s_queue := q3\<rparr>)) else Inr s3)"
    using busy_start [OF ok sched xs] by blast
  let ?s = "s\<lparr>s_queue := q\<rparr>"
  have u: "u \<in> arrived tb (Suc (unat (s_time s)))" "u < length tb" using xs(3) by (auto simp: arrived_def)
  have slots1: "slots_ok tb idle ?s" using slots slots_ok_cong [of ?s s] by simp
  have "A + (\<Sum>i < length tb. unat (sgx_time (tb ! i))) \<le> MAX_SIZE" using fits by (simp add: fits_def)
  from run_quantum_run [OF ok u(2) this idle _ slots1] u(1) m(2) sched1 obtain s3 where
    s3: "run_quantum cfg u m ?s = Inr s3" "sched_ok cfg tb (Suc (unat (s_time s3))) {u} s3" "slots_ok tb idle s3"
      "u \<in> arrived tb (Suc (unat (s_time s3)))"
      "unat (time_left (s_table s3 ! u)) = unat (time_left (s_table s ! u)) - m" "\<forall>i. i \<noteq> u \<longrightarrow> s_table s3 ! i = s_table s ! i" by auto
  have "work_left tb s3 < work_left tb s" using s3(5,6) m u(2) by (intro work_left_less [of u]) auto
  then show ?thesis using end_quantum [OF s3(2,4,3) idle] by (auto simp: body s3(1))
qed

lemma arrange_body_run:
  assumes ok: "sim_ok cfg tb" and fits: "fits tb A" and inv: "loop_inv cfg tb A idle s"
    and open_: "i < length tb" "0 < unat (time_left (s_table s ! i))"
  shows "\<exists>s' idle'. arrange_body cfg s = Inr s' \<and> loop_inv cfg tb A idle' s'
     \<and> work_left tb s' + (A - idle') < work_left tb s + (A - idle)"
proof -
  obtain xs where xs: "queue_rep (s_queue s) (map of_nat xs)" "distinct xs"
    "set xs = {i \<in> arrived tb (Suc (unat (s_time s))). 0 < unat (time_left (s_table s ! i))}"
    using inv by (auto simp: loop_inv_def sched_ok_def)
  show ?thesis
  proof (cases xs)
    case Nil
    then show ?thesis using idle_round [OF assms] xs(1) by simp
  next
    case (Cons u ys)
    with busy_round [OF ok fits inv, of u ys] xs show ?thesis by (metis add_less_cancel_right)
  qed
qed

lemma is_time_left_run:
  assumes "\<not> nodes_rejoin cfg"
  shows "is_time_left cfg s = Inr (\<exists>i < length (s_table s). 0 < unat (time_left (s_table s ! i)), s\<lparr>s_table := map bump (s_table s)\<rparr>)"
proof -
  let ?t = "s_table s" and ?n = "length (s_table s)"
  have "rfold (time_left_step cfg) (False, s) [0..<k] =
     Inr (\<exists>i < k. 0 < unat (time_left (?t ! i)), s\<lparr>s_table := map (\<lambda>i. if i < k then bump (?t ! i) else ?t ! i) [0..<?n]\<rparr>)" if "k \<le> ?n" for k
    using that
  proof (induction k)
    case 0
    show ?case using map_nth [of ?t] by simp
  next
    case (Suc k)
    let ?s = "s\<lparr>s_table := map (\<lambda>i. if i < k then bump (?t ! i) else ?t ! i) [0..<?n]\<rparr>"
    have "(time_left (?t ! k) > 0) = (0 < unat (time_left (?t ! k)))" by (simp add: word_less_nat_alt)
    then have "time_left_step cfg (b, ?s) k = Inr (b \<or> 0 < unat (time_left (?t ! k)), ?s\<lparr>s_table := (s_table ?s)[k := bump (?t ! k)]\<rparr>)" for b
      using assms Suc.prems by (simp add: time_left_step_def bump_def Let_def)
    then show ?case using Suc map_upt_update [of k ?n "\<lambda>i. bump (?t ! i)" "\<lambda>i. ?t ! i"]
      by (auto simp: rfold_append less_Suc_eq)
  qed
  from this [OF order_refl] have "is_time_left cfg s = Inr (\<exists>i < ?n. 0 < unat (time_left (?t ! i)),
     s\<lparr>s_table := map (\<lambda>i. if i < ?n then bump (?t ! i) else ?t ! i) [0..<?n]\<rparr>)" by (simp only: is_time_left_def)
  moreover have "map (\<lambda>i. if i < ?n then bump (?t ! i) else ?t ! i) [0..<?n] = map bump ?t" by (rule nth_equalityI) auto
  ultimately show ?thesis by simp
qed

lemma bump_simps [simp]: "time_left (bump nd) = time_left nd" "sgx_time (bump nd) = sgx_time nd" "arrival_time (bump nd) = arrival_time nd"
  "used (bump nd) = used nd"
  by (simp_all add: bump_def used_def)

lemma loop_inv_bump:
  assumes "loop_inv cfg tb A idle s"
  shows "loop_inv cfg tb A idle (s\<lparr>s_table := map bump (s_table s)\<rparr>)" and "work_left tb (s\<lparr>s_table := map bump (s_table s)\<rparr>) = work_left tb s"
proof -
  have sched: "sched_ok cfg tb (Suc (unat (s_time s))) {} s" using assms by (simp add: loop_inv_def)
  then have len: "length (s_table s) = length tb" by (simp add: sched_ok_def)
  have "sched_ok cfg tb (Suc (unat (s_time s))) {} (s\<lparr>s_table := map bump (s_table s)\<rparr>)"
    by (rule sched_ok_table [OF sched]) (simp_all add: len)
  moreover have "slots_ok tb idle (s\<lparr>s_table := map bump (s_table s)\<rparr>)"
    using assms slots_ok_cong [of "s\<lparr>s_table := map bump (s_table s)\<rparr>" s tb idle] by (simp add: loop_inv_def len)
  ultimately show "loop_inv cfg tb A idle (s\<lparr>s_table := map bump (s_table s)\<rparr>)" using assms by (simp add: loop_inv_def)
  show "work_left tb (s\<lparr>s_table := map bump (s_table s)\<rparr>) = work_left tb s" by (auto simp: work_left_def len intro!: sum.cong)
qed

lemma arrange_loop_run:
  assumes ok: "sim_ok cfg tb" and fits: "fits tb A" and rejoin: "\<not> nodes_rejoin cfg"
  shows "loop_inv cfg tb A idle s \<Longrightarrow> \<exists>s' idle'. arrange_loop cfg go k s = Some (Inr s') \<and> loop_inv cfg tb A idle' s'
    \<and> ((\<forall>j. go j) \<longrightarrow> work_left tb s' = 0)"
proof (induction "work_left tb s + (A - idle)" arbitrary: s idle k rule: less_induct)
  case less
  let ?s = "s\<lparr>s_table := map bump (s_table s)\<rparr>"
  note b = loop_inv_bump [OF less.prems]
  have len: "length (s_table s) = length tb" using less.prems by (simp add: loop_inv_def sched_ok_def)
  show ?case
  proof (cases "(\<exists>i < length tb. 0 < unat (time_left (s_table s ! i))) \<and> go k")
    case True
    then obtain i where "i < length tb" "0 < unat (time_left (s_table ?s ! i))" by (auto simp: len)
    from arrange_body_run [OF ok fits b(1) this] obtain s' idle' where
      s': "arrange_body cfg ?s = Inr s'" "loop_inv cfg tb A idle' s'" "work_left tb s' + (A - idle') < work_left tb s + (A - idle)"
      by (auto simp: b(2))
    from less.hyps [OF s'(3,2)] s'(1) is_time_left_run [OF rejoin, of s] True len show ?thesis
      by (subst arrange_loop.simps) simp
  next
    case False
    then have "(\<forall>j. go j) \<longrightarrow> work_left tb ?s = 0" using b(2) by (auto simp: work_left_def)
    moreover have "arrange_loop cfg go k s = Some (Inr ?s)"
      using is_time_left_run [OF rejoin, of s] False len by (subst arrange_loop.simps) auto
    ultimately show ?thesis using b(1) by blast
  qed
qed

lemma arrange_run_until:
  assumes ok: "sim_ok cfg tb" and rejoin: "\<not> nodes_rejoin cfg" and fits: "fits tb A"
    and fresh: "\<And>i. i < length tb \<Longrightarrow> time_left (tb ! i) = sgx_time (tb ! i)"
  shows "\<exists>s' idle. arrange cfg go (initial_sim cfg tb k) = Some (Inr s') \<and> loop_inv cfg tb A idle s' \<and> ((\<forall>j. go j) \<longrightarrow> work_left tb s' = 0)"
proof -
  let ?s = "initial_sim cfg tb k"
  have "queue_rep (fresh_queue True) ([] :: size_t list)" by (rule fresh_queue_rep)
  then have "sched_ok cfg tb (unat (s_time ?s)) {} ?s"
    using fresh unfolding sched_ok_def initial_sim_def by (simp add: arrived_def)
  then obtain s1 where s1: "check_node_arrive cfg ?s = Inr s1" "sched_ok cfg tb (Suc (unat (s_time ?s))) {} s1" "same_run ?s s1"
    using check_node_arrive_run [OF ok, of ?s "{}"] by blast
  have "slots_ok tb 0 ?s" using fresh by (simp add: slots_ok_def initial_sim_def used_def)
  then have "loop_inv cfg tb A 0 s1" using s1(2,3) slots_same_run [OF s1(3)] by (simp add: loop_inv_def same_run_def)
  from arrange_loop_run [OF ok fits rejoin this, of go 0] s1(1) show ?thesis by (simp add: arrange_def)
qed

lemma arrange_run:
  assumes "sim_ok cfg tb" and "\<not> nodes_rejoin cfg" and "fits tb A"
    and "\<And>i. i < length tb \<Longrightarrow> time_left (tb ! i) = sgx_time (tb ! i)"
  shows "\<exists>s' idle. arrange cfg (\<lambda>_. True) (initial_sim cfg tb k) = Some (Inr s') \<and> loop_inv cfg tb A idle s' \<and> work_left tb s' = 0"
  using arrange_run_until [OF assms, of "\<lambda>_. True" k] by simp

text \<open>The record has room for the seconds of a run.\<close>

lemma loop_inv_seconds:
  assumes "loop_inv cfg tb A idle s"
  shows "unat (s_time s) \<le> A + (\<Sum>i < length tb. unat (sgx_time (tb ! i)))"
proof -
  have "used (s_table s ! i) \<le> unat (sgx_time (tb ! i))" if "i < length tb" for i
    using assms that by (auto simp: loop_inv_def sched_ok_def used_def)
  then have "(\<Sum>i < length tb. used (s_table s ! i)) \<le> (\<Sum>i < length tb. unat (sgx_time (tb ! i)))" by (intro sum_mono) simp
  then show ?thesis using assms by (simp add: loop_inv_def slots_ok_def)
qed

lemma loop_inv_now: "loop_inv cfg tb A idle s \<Longrightarrow> fits tb A \<Longrightarrow> unat (s_time s) \<le> MAX_SIZE"
  using loop_inv_seconds [of cfg tb A idle s] by (simp add: fits_def)

lemma loop_inv_end:
  assumes inv: "loop_inv cfg tb A idle s" and "work_left tb s = 0" and i: "i < length tb"
  shows "time_left (s_table s ! i) = 0" "sgx_time (s_table s ! i) = sgx_time (tb ! i)" "arrival_time (s_table s ! i) = arrival_time (tb ! i)"
    "used (s_table s ! i) = unat (sgx_time (tb ! i))"
proof -
  show "time_left (s_table s ! i) = 0" using assms(2) i by (simp add: work_left_def unat_eq_zero)
  moreover show "sgx_time (s_table s ! i) = sgx_time (tb ! i)" "arrival_time (s_table s ! i) = arrival_time (tb ! i)"
    using inv i by (auto simp: loop_inv_def sched_ok_def)
  ultimately show "used (s_table s ! i) = unat (sgx_time (tb ! i))" by (simp add: used_def)
qed

lemma slots_okD:
  assumes "slots_ok tb idle s" and "i < length tb" and "0 < i"
  shows "card {t. t < unat (s_time s) \<and> nodes_queue s t = of_nat i} = used (s_table s ! i)"
    and "t < unat (s_time s) \<Longrightarrow> nodes_queue s t = of_nat i \<Longrightarrow> unat (arrival_time (tb ! i)) \<le> t"
  using assms unfolding slots_ok_def by auto

lemma slots_ok_card:
  assumes "slots_ok tb idle s" and "i < length tb"
  shows "card {t. t < unat (s_time s) \<and> nodes_queue s t = of_nat i} = used (s_table s ! i) + (if i = 0 then idle else 0)"
  using assms unfolding slots_ok_def by blast

lemma release_time_last:
  assumes "t < n" and "f t = i"
  shows "0 < release_time f i n \<and> release_time f i n \<le> n \<and> f (release_time f i n - 1) = i \<and> (\<forall>t < n. release_time f i n \<le> t \<longrightarrow> f t \<noteq> i)"
  using assms by (induction n) (auto simp: less_Suc_eq)

section \<open>Properties\<close>

text \<open>
  C26. Without rejoining nodes the simulation ends: no node has time left, and the record of its
  seconds gives every node exactly its SGX time, except that the seconds in which no node ran are
  recorded as seconds of the first node. There are no more of them than the latest arrival time, and
  no other node runs before its arrival. No assertion fails, no conversion is out of range, and the
  record does not overflow.
\<close>

theorem arrange_completes:
  assumes "sim_ok cfg tb" and "\<not> nodes_rejoin cfg" and "fits tb A"
    and "\<And>i. i < length tb \<Longrightarrow> time_left (tb ! i) = sgx_time (tb ! i)"
  shows "\<exists>s. arrange cfg (\<lambda>_. True) (initial_sim cfg tb k) = Some (Inr s)
     \<and> (\<forall>i < length tb. time_left (s_table s ! i) = 0)
     \<and> (\<forall>i < length tb. card {t. t < unat (s_time s) \<and> nodes_queue s t = of_nat i} =
          unat (sgx_time (tb ! i)) + (if i = 0 then unat (s_time s) - (\<Sum>i < length tb. unat (sgx_time (tb ! i))) else 0))
     \<and> (\<forall>i < length tb. \<forall>t < unat (s_time s). 0 < i \<and> nodes_queue s t = of_nat i \<longrightarrow> unat (arrival_time (tb ! i)) \<le> t)
     \<and> (\<Sum>i < length tb. unat (sgx_time (tb ! i))) \<le> unat (s_time s)
     \<and> unat (s_time s) \<le> A + (\<Sum>i < length tb. unat (sgx_time (tb ! i)))"
proof -
  obtain s idle where s: "arrange cfg (\<lambda>_. True) (initial_sim cfg tb k) = Some (Inr s)" and inv: "loop_inv cfg tb A idle s" and w: "work_left tb s = 0"
    using arrange_run [OF assms] by blast
  note e = loop_inv_end [OF inv w]
  have sum: "(\<Sum>i < length tb. used (s_table s ! i)) = (\<Sum>i < length tb. unat (sgx_time (tb ! i)))" by (rule sum.cong) (simp_all add: e(4))
  have sl: "slots_ok tb idle s" "idle \<le> A" using inv by (auto simp: loop_inv_def)
  have now: "unat (s_time s) = (\<Sum>i < length tb. unat (sgx_time (tb ! i))) + idle" using sl(1) sum by (simp add: slots_ok_def)
  have "card {t. t < unat (s_time s) \<and> nodes_queue s t = of_nat i} = unat (sgx_time (tb ! i)) + (if i = 0 then idle else 0)" if "i < length tb" for i
    using slots_ok_card [OF sl(1) that] e(4) [OF that] by (rule trans [OF _ arg_cong])
  moreover have "unat (arrival_time (tb ! i)) \<le> t" if "i < length tb" "t < unat (s_time s)" "0 < i" "nodes_queue s t = of_nat i" for i t
    using slots_okD(2) [OF sl(1) that(1,3,2,4)] .
  moreover have "unat (s_time s) - (\<Sum>i < length tb. unat (sgx_time (tb ! i))) = idle" using now by simp
  ultimately show ?thesis using s e(1) sl(2) now by (intro exI [of _ s]) (simp del: of_nat_unat)
qed

lemma sample_ok: "sim_ok sample_config [sample_node 0 1, sample_node 5 1]" "fits [sample_node 0 1, sample_node 5 1] 5"
  by (simp_all add: sim_ok_def fits_def sample_config_def sample_node_def MAX_SIZE_def word_le_nat_alt less_Suc_eq lessThan_Suc)

lemma sample_fresh: "i < length [sample_node 0 1, sample_node 5 1] \<Longrightarrow>
    time_left ([sample_node 0 1, sample_node 5 1] ! i) = sgx_time ([sample_node 0 1, sample_node 5 1] ! i)"
  by (auto simp: sample_node_def less_Suc_eq)

theorem arrange_completes_witness:
  "\<exists>s. arrange sample_config (\<lambda>_. True) (initial_sim sample_config [sample_node 0 1, sample_node 5 1] 0) = Some (Inr s)
     \<and> card {t. t < unat (s_time s) \<and> nodes_queue s t = of_nat 1} = 1 \<and> unat (s_time s) \<le> 7"
  using arrange_completes [OF sample_ok(1) _ sample_ok(2) sample_fresh, of 0]
  by (auto simp: sample_config_def sample_node_def lessThan_Suc)

text \<open>
  The waiting times of the simulation are what they are called: for every node but the first, the
  number of seconds between its arrival and its release in which another node ran or none.
\<close>

theorem waiting_time_counts:
  assumes "sim_ok cfg tb" and "\<not> nodes_rejoin cfg" and "fits tb A"
    and "\<And>i. i < length tb \<Longrightarrow> time_left (tb ! i) = sgx_time (tb ! i)" and i: "0 < i" "i < length tb"
  shows "\<exists>s. arrange cfg (\<lambda>_. True) (initial_sim cfg tb k) = Some (Inr s)
     \<and> (\<exists>ws. waiting_time s = Inr ws \<and> ws ! i = of_nat (card {t. unat (arrival_time (tb ! i)) \<le> t \<and> t < release_time (nodes_queue s) (of_nat i) (unat (s_time s))
          \<and> nodes_queue s t \<noteq> of_nat i}))"
proof -
  obtain s idle where s: "arrange cfg (\<lambda>_. True) (initial_sim cfg tb k) = Some (Inr s)" and inv: "loop_inv cfg tb A idle s" and w: "work_left tb s = 0"
    using arrange_run [OF assms(1-4)] by blast
  note e = loop_inv_end [OF inv w i(2)]
  let ?f = "nodes_queue s" and ?now = "unat (s_time s)" and ?a = "unat (arrival_time (tb ! i))"
  let ?r = "release_time ?f (of_nat i) ?now"
  have sl: "card {t. t < ?now \<and> ?f t = of_nat i} = unat (sgx_time (tb ! i))" "\<And>t. t < ?now \<Longrightarrow> ?f t = of_nat i \<Longrightarrow> ?a \<le> t"
    and len: "length (s_table s) = length tb"
    using inv slots_okD [OF _ i(2,1)] e(4) by (auto simp: loop_inv_def sched_ok_def)
  have "0 < unat (sgx_time (tb ! i))" using sim_okD(1) [OF assms(1) i(2)] by simp
  then have "{t. t < ?now \<and> ?f t = of_nat i} \<noteq> {}" using sl(1) by (metis card.empty less_irrefl)
  then obtain t where "t < ?now" "?f t = of_nat i" by blast
  with release_time_last [of t ?now ?f "of_nat i"]
  have r: "0 < ?r" "?r \<le> ?now" "?f (?r - 1) = of_nat i" "\<And>t. t < ?now \<Longrightarrow> ?r \<le> t \<Longrightarrow> ?f t \<noteq> of_nat i" by blast+
  have eq: "{t. t < ?now \<and> ?f t = of_nat i} = {t. ?a \<le> t \<and> t < ?r \<and> ?f t = of_nat i}"
  proof (intro Collect_cong iffI)
    fix t assume "t < ?now \<and> ?f t = of_nat i"
    then show "?a \<le> t \<and> t < ?r \<and> ?f t = of_nat i" using sl(2) r(4) not_le by blast
  next
    fix t assume "?a \<le> t \<and> t < ?r \<and> ?f t = of_nat i"
    then show "t < ?now \<and> ?f t = of_nat i" using r(2) by simp
  qed
  let ?own = "{t. ?a \<le> t \<and> t < ?r \<and> ?f t = of_nat i}" and ?other = "{t. ?a \<le> t \<and> t < ?r \<and> ?f t \<noteq> of_nat i}"
  have "finite ?own" "finite ?other" by (rule finite_subset [of _ "{..<?r}"]; auto)+
  moreover have "?own \<union> ?other = {?a..<?r}" "?own \<inter> ?other = {}" by auto
  ultimately have "card ?own + card ?other = ?r - ?a" using card_Un_disjoint [of ?own ?other] by simp
  moreover have "?a \<le> ?r - 1" using r sl(2) [of "?r - 1"] by auto
  ultimately have "?r = card ?other + unat (sgx_time (tb ! i)) + ?a" using sl(1) eq r by simp
  then have "(of_nat ?r :: uint) = of_nat (card ?other + unat (sgx_time (tb ! i)) + ?a)" by (rule arg_cong)
  then have "(of_nat ?r :: uint) = of_nat (card ?other) + sgx_time (tb ! i) + arrival_time (tb ! i)" by simp
  then have "\<exists>ws. waiting_time s = Inr ws \<and> ws ! i = of_nat (card ?other)"
    using i(2) len e(2,3) loop_inv_now [OF inv assms(3)] by (simp add: waiting_time_def)
  with s show ?thesis by blast
qed

theorem waiting_time_counts_witness:
  "\<exists>s. arrange sample_config (\<lambda>_. True) (initial_sim sample_config [sample_node 0 1, sample_node 5 1] 0) = Some (Inr s)
     \<and> (\<exists>ws. waiting_time s = Inr ws
        \<and> ws ! 1 = of_nat (card {t. 5 \<le> t \<and> t < release_time (nodes_queue s) (of_nat 1) (unat (s_time s)) \<and> nodes_queue s t \<noteq> of_nat 1}))"
  using waiting_time_counts [OF sample_ok(1) _ sample_ok(2) sample_fresh, of 1 0] by (simp add: sample_config_def sample_node_def)

text \<open>
  C28. The quantum time of a tier in the simulation is the rounded-up quotient of the time its arrived
  nodes have left by the square of their number; a tier whose nodes have no time left keeps its
  quantum.
\<close>

theorem calculate_quantum_time_exact:
  assumes "sim_ok cfg (s_table s)" and "length (tier_quantum_time s) = unat (total_tiers cfg)"
  shows "\<exists>s'. calculate_quantum_time cfg s = Inr s' \<and> length (tier_quantum_time s') = unat (total_tiers cfg)
     \<and> s_table s' = s_table s \<and> s_time s' = s_time s
     \<and> (\<forall>t < unat (total_tiers cfg). let ms = {i. i < length (s_table s) \<and> arrival_time (s_table s ! i) \<le> s_time s \<and> tier_of cfg (s_table s ! i) = t};
            n = (\<Sum>i \<in> ms. unat (time_left (s_table s ! i))) in
          tier_quantum_time s' ! t = (if 0 < n then of_nat (cdiv n (card ms * card ms)) else tier_quantum_time s ! t))"
  using calculate_quantum_time_run [OF assms] by (auto simp: next_quantum_def tier_left_def members_def Let_def)

theorem calculate_quantum_time_exact_witness:
  "\<exists>s'. calculate_quantum_time sample_config (initial_sim sample_config [sample_node 0 1, sample_node 5 1] 0) = Inr s'
     \<and> length (tier_quantum_time s') = 2"
  using calculate_quantum_time_exact [of sample_config "initial_sim sample_config [sample_node 0 1, sample_node 5 1] 0"] sample_ok(1)
  by (auto simp: initial_sim_def sample_config_def)

section \<open>The input\<close>

lemma randint_run:
  assumes "0 \<le> start" and "start \<le> end" and "0 < end" and "end \<le> int_max" and "start + end \<le> int_max + 1"
  shows "\<exists>r. randint rnd start end k = Inr (of_int r, Suc k) \<and> start \<le> r \<and> r < start + end"
proof -
  have m: "0 \<le> int (rnd k) mod end" "int (rnd k) mod end < end" using assms(3) by simp_all
  have "start \<le> int_max" using assms by linarith
  moreover have "int_min \<le> start + int (rnd k) mod end" using m assms(1) by (simp add: int_min_def)
  moreover have "start + int (rnd k) mod end \<le> int_max" using m(2) assms(5) by linarith
  ultimately show ?thesis using assms m
    by (intro exI [of _ "start + int (rnd k) mod end"]) (simp add: randint_def signed_int_ok min_absorb1 max_absorb2)
qed

text \<open>The second argument is a length and not a bound, as the assertion on the two suggests.\<close>

lemma randint_exceeds: "randint (\<lambda>_. 5) 5 6 0 = Inr (10, 1)"
  by (simp add: randint_def signed_int_def int_min_def int_max_def)

text \<open>The two programs that compute tiers disagree where rounding of the quotient crosses an integer.\<close>

lemma tiers_differ:
  "sim_tier_number \<lparr>total_tiers = 13, sgx_max = 26, nodes_rejoin = False, rand = (\<lambda>_. 0)\<rparr> (sample_node 0 14) = Inr 7"
  "calc_tier_number (sample_node 0 14) 13 26 = Inr 6"
  by code_simp+

end
