(* ===== verification/Statistics.thy ===== *)
theory Statistics imports Simulator
begin

text \<open>
  The statistics of \<^verbatim>\<open>POET++.cpp\<close> in the arithmetic of \<^verbatim>\<open>float\<close>: how often the nodes led on average, and
  how long they were in the network. A value that is not a number is \<open>None\<close>. The square roots that the
  program takes of the deviations before it prints them are left out.
\<close>

section \<open>Sums, means and deviations\<close>

text \<open>\<open>sum += x\<close> for unsigned numbers \<open>x\<close>; the quotient by a count of zero is 0 / 0.\<close>

definition float_sum :: "uint list \<Rightarrow> rat" where
  "float_sum xs = fold (\<lambda>x s. f32 (s + uint_to_f32 x)) xs 0"

definition float_mean :: "uint list \<Rightarrow> rat option" where
  "float_mean xs = (if xs = [] then None else Some (f32 (float_sum xs / uint_to_f32 (of_nat (length xs)))))"

text \<open>
  The sum of the squares of the differences from \<open>m\<close>. Rounding is symmetric, so the square of a rounded
  difference is the square of the rounded distance.
\<close>

definition float_squares :: "rat \<Rightarrow> uint list \<Rightarrow> rat" where
  "float_squares m xs = fold (\<lambda>x v. f32 (v + f32 (f32 \<bar>uint_to_f32 x - m\<bar> * f32 \<bar>uint_to_f32 x - m\<bar>))) xs 0"

text \<open>
  \<^verbatim>\<open>print_average_leadership\<close>: the mean, and the argument of \<^verbatim>\<open>sqrtf\<close>. Without nodes the latter is
  0 / -1, with one node 0 / 0.
\<close>

definition print_average_leadership :: "node_t list \<Rightarrow> rat option \<times> rat option" where
  "print_average_leadership table =
     (let xs = map n_leadership table; n = uint_to_f32 (of_nat (length xs)) in
      (float_mean xs,
       case float_mean xs of
         None \<Rightarrow> Some 0
       | Some m \<Rightarrow> if f32 (n - 1) = 0 then None else Some (f32 (float_squares m xs / f32 (n - 1)))))"

section \<open>Elapsed times\<close>

text \<open>The scan of \<^verbatim>\<open>average_estimated_time\<close> has no lower bound: before the first second the index wraps and leaves the array.\<close>

fun last_second :: "(nat \<Rightarrow> uint) \<Rightarrow> uint \<Rightarrow> nat \<Rightarrow> nat res" where
  "last_second slots i 0 = Inl Out_Of_Range"
| "last_second slots i (Suc t) = (if slots t = i then Inr (Suc t) else last_second slots i t)"

definition elapsed_step :: "sim \<Rightarrow> uint list \<Rightarrow> nat \<Rightarrow> uint list res" where
  "elapsed_step s acc i =
     rbind (last_second (nodes_queue s) (of_nat i) (unat (s_time s))) (\<lambda>release_time.
     Inr (acc @ [of_nat release_time - arrival_time (s_table s ! i)]))"

text \<open>The elapsed times, their mean and the argument of \<^verbatim>\<open>sqrtf\<close>; without nodes it is 0 divided by the largest unsigned number.\<close>

definition average_estimated_time :: "sim \<Rightarrow> (uint list \<times> rat option \<times> rat option) res" where
  "average_estimated_time s =
     (if s_table s \<noteq> [] \<and> MAX_SIZE < unat (s_time s) then Inl Out_Of_Range
      else rbind (rfold (elapsed_step s) [] [0..<length (s_table s)]) (\<lambda>es.
           Inr (es, float_mean es,
             case float_mean es of
               None \<Rightarrow> Some 0
             | Some m \<Rightarrow> if length es = 1 then None else Some (f32 (float_squares m es / uint_to_f32 (of_nat (length es) - 1))))))"

section \<open>The mean\<close>

text \<open>Below \<open>2 ^ 24\<close> the sums of \<^verbatim>\<open>float\<close> are exact, so that the mean is the quotient rounded once.\<close>

lemma float_sum_exact:
  assumes "sum_list (map unat xs) \<le> 2 ^ 24"
  shows "float_sum xs = of_nat (sum_list (map unat xs))"
proof -
  have "fold (\<lambda>x s. f32 (s + uint_to_f32 x)) xs (of_nat a) = of_nat (a + sum_list (map unat xs))" if "a + sum_list (map unat xs) \<le> 2 ^ 24" for a
    using that
  proof (induction xs arbitrary: a)
    case (Cons x xs)
    have "f32 (of_nat a + uint_to_f32 x) = of_nat (a + unat x)"
      using Cons.prems uint_to_f32_exact [of x] f32_nat_exact [of "a + unat x"] by (simp del: of_nat_unat)
    then show ?case using Cons.IH [of "a + unat x"] Cons.prems by (simp add: add.assoc del: of_nat_unat of_nat_add)
  qed simp
  from this [of 0] assms show ?thesis by (simp add: float_sum_def)
qed

lemma float_mean_exact:
  assumes "xs \<noteq> []" and "length xs \<le> 2 ^ 24" and "sum_list (map unat xs) \<le> 2 ^ 24"
  shows "float_mean xs = Some (f32 (of_nat (sum_list (map unat xs)) / of_nat (length xs)))"
proof -
  have "unat (of_nat (length xs) :: uint) = length xs" using assms(2) by (intro unat_of_nat_uint) simp
  then have "uint_to_f32 (of_nat (length xs)) = of_nat (length xs)" using assms(2) uint_to_f32_exact [of "of_nat (length xs)"] by simp
  then show ?thesis using assms(1) float_sum_exact [OF assms(3)] by (simp add: float_mean_def)
qed

lemma float_mean_const:
  assumes "xs \<noteq> []" and "\<forall>x \<in> set xs. x = k" and "length xs * unat k \<le> 2 ^ 24" and "length xs \<le> 2 ^ 24"
  shows "float_mean xs = Some (uint_to_f32 k)"
proof -
  have sum: "sum_list (map unat xs) = length xs * unat k" using assms(2) by (induction xs) simp_all
  have "unat k \<le> length xs * unat k" using assms(1) by (cases xs) simp_all
  then have "unat k \<le> 2 ^ 24" using assms(3) by linarith
  moreover have "of_nat (length xs * unat k) / of_nat (length xs) = (of_nat (unat k) :: rat)" using assms(1) by (simp del: of_nat_unat)
  ultimately show ?thesis
    using float_mean_exact [OF assms(1,4)] assms(3) f32_nat_exact [of "unat k"] uint_to_f32_exact [of k] by (simp add: sum del: of_nat_unat)
qed

section \<open>The deviation\<close>

lemma float_squares_nonneg: "0 \<le> float_squares m xs"
proof -
  have "0 \<le> fold (\<lambda>x v. f32 (v + f32 (f32 \<bar>uint_to_f32 x - m\<bar> * f32 \<bar>uint_to_f32 x - m\<bar>))) xs a" if "0 \<le> a" for a
    using that by (induction xs arbitrary: a) (simp_all add: f32_nonneg)
  then show ?thesis by (simp add: float_squares_def)
qed

lemma float_squares_const: "\<forall>x \<in> set xs. x = k \<Longrightarrow> float_squares (uint_to_f32 k) xs = 0"
  unfolding float_squares_def by (induction xs) simp_all

lemma count_minus_one:
  assumes "n \<le> 2 ^ 24"
  shows "f32 (uint_to_f32 (of_nat n) - 1) = of_nat (n - 1)"
proof (cases n)
  case (Suc m)
  have "unat (of_nat n :: uint) = n" using assms by (intro unat_of_nat_uint) simp
  then have "uint_to_f32 (of_nat n) = of_nat n" using assms uint_to_f32_exact [of "of_nat n"] by simp
  then show ?thesis using Suc assms f32_nat_exact [of m] by simp
qed (simp add: uint_to_f32_def f32_def)

text \<open>
  What \<^verbatim>\<open>print_average_leadership\<close> prints: no node, no mean; one node, no deviation; and nodes that led equally
  often have their common number as the mean and no deviation from it.
\<close>

lemma print_average_leadership_defined:
  assumes "length table \<le> 2 ^ 24"
  shows "fst (print_average_leadership table) = None \<longleftrightarrow> table = []"
    and "snd (print_average_leadership table) = None \<longleftrightarrow> length table = 1"
    and "snd (print_average_leadership table) = Some v \<Longrightarrow> 0 \<le> v"
  using assms count_minus_one [OF assms] float_squares_nonneg
  by (auto simp: print_average_leadership_def float_mean_def Let_def f32_nonneg le_Suc_eq length_0_conv [symmetric]
      simp del: length_0_conv length_greater_0_conv split: if_splits)

lemma print_average_leadership_fair:
  assumes "2 \<le> length table" and "\<forall>nd \<in> set table. n_leadership nd = k" and "length table * unat k \<le> 2 ^ 24" and "length table \<le> 2 ^ 24"
  shows "print_average_leadership table = (Some (of_nat (unat k)), Some 0)"
proof -
  let ?xs = "map n_leadership table"
  have xs: "?xs \<noteq> []" "\<forall>x \<in> set ?xs. x = k" using assms(1,2) by auto
  have "unat k \<le> length table * unat k" using assms(1) by (cases table) simp_all
  then have "uint_to_f32 k = of_nat (unat k)" using assms(3) by (intro uint_to_f32_exact) linarith
  moreover have "float_mean ?xs = Some (uint_to_f32 k)" using float_mean_const [OF xs] assms(3,4) by simp
  moreover have "length table - 1 \<noteq> 0" using assms(1) by simp
  ultimately show ?thesis
    using count_minus_one [OF assms(4)] float_squares_const [OF xs(2)] by (simp add: print_average_leadership_def Let_def del: of_nat_unat)
qed

section \<open>The elapsed times\<close>

lemma last_second_release:
  "last_second f i n = (if \<exists>t < n. f t = i then Inr (release_time f i n) else Inl Out_Of_Range)"
  by (induction n) (auto simp: less_Suc_eq)

lemma elapsed_fold:
  assumes "\<forall>i < k. \<exists>t < unat (s_time s). nodes_queue s t = of_nat i"
  shows "rfold (elapsed_step s) [] [0..<k] =
    Inr (map (\<lambda>i. of_nat (release_time (nodes_queue s) (of_nat i) (unat (s_time s))) - arrival_time (s_table s ! i)) [0..<k])"
  using assms by (induction k) (simp_all add: rfold_append elapsed_step_def last_second_release)

text \<open>
  When every node has run, its elapsed time is its waiting time and its SGX time; a table with a node that
  has not run makes the scan leave the array, where \<^verbatim>\<open>waiting_time\<close> stops at the first second.
\<close>

lemma elapsed_is_waiting_and_running:
  assumes "\<forall>i < length (s_table s). \<exists>t < unat (s_time s). nodes_queue s t = of_nat i" and "unat (s_time s) \<le> MAX_SIZE"
  shows "\<exists>es ws avg dev. average_estimated_time s = Inr (es, avg, dev) \<and> waiting_time s = Inr ws \<and> length es = length ws
    \<and> (\<forall>i < length (s_table s). es ! i = ws ! i + sgx_time (s_table s ! i))"
  using elapsed_fold [OF assms(1)] assms(2) by (simp add: average_estimated_time_def waiting_time_def)

lemma elapsed_out_of_range:
  assumes "s_table s \<noteq> []" and "s_time s = 0"
  shows "average_estimated_time s = Inl Out_Of_Range" and "\<exists>ws. waiting_time s = Inr ws"
proof -
  have "[0..<length (s_table s)] = 0 # [1..<length (s_table s)]" using assms(1) by (simp add: upt_conv_Cons)
  then show "average_estimated_time s = Inl Out_Of_Range" using assms(2) by (simp add: average_estimated_time_def elapsed_step_def)
  show "\<exists>ws. waiting_time s = Inr ws" using assms(2) by (simp add: waiting_time_def)
qed

text \<open>After a complete simulation every node has run, so that the elapsed times are defined.\<close>

lemma complete_run_elapsed:
  assumes ok: "sim_ok cfg tb" and fits: "fits tb A" and inv: "loop_inv cfg tb A idle s" and w: "work_left tb s = 0"
  shows "\<exists>es ws avg dev. average_estimated_time s = Inr (es, avg, dev) \<and> waiting_time s = Inr ws \<and> length es = length ws
    \<and> (\<forall>i < length (s_table s). es ! i = ws ! i + sgx_time (s_table s ! i))"
proof (rule elapsed_is_waiting_and_running)
  have len: "length (s_table s) = length tb" and sl: "slots_ok tb idle s" using inv by (auto simp: loop_inv_def sched_ok_def)
  show "\<forall>i < length (s_table s). \<exists>t < unat (s_time s). nodes_queue s t = of_nat i"
  proof (intro allI impI)
    fix i assume "i < length (s_table s)"
    then have i: "i < length tb" by (simp add: len)
    have "0 < card {t. t < unat (s_time s) \<and> nodes_queue s t = of_nat i}"
      using slots_ok_card [OF sl i] loop_inv_end(4) [OF inv w i] sim_okD(1) [OF ok i] by linarith
    then have "{t. t < unat (s_time s) \<and> nodes_queue s t = of_nat i} \<noteq> {}" by (metis card.empty less_irrefl)
    then show "\<exists>t < unat (s_time s). nodes_queue s t = of_nat i" by blast
  qed
  show "unat (s_time s) \<le> MAX_SIZE" by (rule loop_inv_now [OF inv fits])
qed

end
