(* ===== verification/Simulation.thy ===== *)
theory Simulation imports Statistics
begin

text \<open>
  The \<^verbatim>\<open>main\<close> program of the simulation, \<^verbatim>\<open>POET++.cpp\<close>: the dialogue that reads the parameters and
  draws or reads the nodes, the run of the scheduler, and what is computed from its record. Numbers
  that the user enters are fields of \<open>entry\<close>; the generator behind \<^verbatim>\<open>srand\<close> and \<^verbatim>\<open>rand\<close>, the clock and
  the signal are arguments.
\<close>

section \<open>The program\<close>

record entry =
  e_seed :: int
  e_max_iterations :: int
  e_node_count :: int
  e_sgx_max :: int
  e_total_tiers :: int
  e_take_from_stdin :: int
  e_nodes_rejoin :: int
  e_arrival_time_max :: int
  e_nodes :: "(int \<times> int) list"

text \<open>The variables that the dialogue sets; the answers are stored as unsigned numbers.\<close>

definition entered_config :: "(int \<Rightarrow> nat \<Rightarrow> nat) \<Rightarrow> int \<Rightarrow> entry \<Rightarrow> config" where
  "entered_config prng now e =
     \<lparr>total_tiers = of_int (e_total_tiers e), sgx_max = of_int (e_sgx_max e), nodes_rejoin = (e_nodes_rejoin e \<noteq> 0),
      rand = prng (if e_seed e \<ge> 0 then max 0 (e_seed e) else now)\<rparr>"

definition entered_arrival :: "bool \<Rightarrow> entry \<Rightarrow> uint" where
  "entered_arrival prompt e = (if prompt \<and> e_take_from_stdin e = 0 then of_int (e_arrival_time_max e) else 0)"

text \<open>The tiers of all SGX times, which the dialogue prints at its end.\<close>

definition tier_listing :: "config \<Rightarrow> int list res" where
  "tier_listing cfg = rfold (\<lambda>acc time.
      rbind (sim_tier_number cfg \<lparr>node_id = 0, arrival_time = 0, sgx_time = of_nat time, n_leadership = 0, time_left = 0\<rparr>) (\<lambda>t. Inr (acc @ [t])))
     [] [1..<Suc (unat (sgx_max cfg))]"

text \<open>A line of the table that is not entered leaves \<^verbatim>\<open>at\<close> and \<^verbatim>\<open>time\<close> without a value.\<close>

definition get_input_from_user :: "bool \<Rightarrow> (int \<Rightarrow> nat \<Rightarrow> nat) \<Rightarrow> int \<Rightarrow> entry \<Rightarrow> (config \<times> node_t list \<times> nat \<times> int list) res" where
  "get_input_from_user prompt prng now e =
     (let cfg = entered_config prng now e; n = unat (of_int (e_node_count e) :: uint) in
      if MAX_SIZE < n then Inl Out_Of_Range
      else if e_take_from_stdin e \<noteq> 0 \<and> length (e_nodes e) < n then Inl Uninitialised
      else rbind (input_nodes cfg (entered_arrival prompt e)
                    (if e_take_from_stdin e \<noteq> 0 then map Some (take n (e_nodes e)) else replicate n None) 0) (\<lambda>(table, k).
           rbind (tier_listing cfg) (\<lambda>ts. Inr (cfg, table, k, ts))))"

text \<open>The condition on the clock and on the signal in round \<open>k\<close> of the loop of \<^verbatim>\<open>arrange\<close>.\<close>

definition may_continue :: "int \<Rightarrow> int \<Rightarrow> (nat \<Rightarrow> int) \<Rightarrow> (nat \<Rightarrow> bool) \<Rightarrow> nat \<Rightarrow> bool" where
  "may_continue max_iterations start_time clock should_terminate k \<longleftrightarrow>
     (max_iterations = - 1 \<or> clock k - start_time < max_iterations) \<and> \<not> should_terminate k"

definition show_overall_queue :: "sim \<Rightarrow> uint list res" where
  "show_overall_queue s =
     (if MAX_SIZE < unat (s_time s) then Inl Out_Of_Range else Inr (map (nodes_queue s) [0..<unat (s_time s)]))"

text \<open>The nodes reported by the check at the end of a debug build.\<close>

definition unfinished_nodes :: "sim \<Rightarrow> nat list" where
  "unfinished_nodes s = filter (\<lambda>i. time_left (s_table s ! i) > 0) [0..<length (s_table s)]"

record outcome =
  o_tiers :: "int list"
  o_sim :: sim
  o_waits :: "uint list"
  o_seconds :: "uint list"
  o_leadership :: "rat option \<times> rat option"
  o_unfinished :: "nat list"

definition sim_report :: "int list \<Rightarrow> sim \<Rightarrow> outcome res" where
  "sim_report ts s =
     rbind (waiting_time s) (\<lambda>ws.
     rbind (show_overall_queue s) (\<lambda>secs.
     rbind (queue_destructor 0 (s_queue s) False) (\<lambda>(_, q).
     Inr \<lparr>o_tiers = ts, o_sim = s\<lparr>s_queue := q\<rparr>, o_waits = ws, o_seconds = secs, o_leadership = print_average_leadership (s_table s),
       o_unfinished = unfinished_nodes s\<rparr>)))"

definition sim_main :: "bool \<Rightarrow> (int \<Rightarrow> nat \<Rightarrow> nat) \<Rightarrow> int \<Rightarrow> int \<Rightarrow> (nat \<Rightarrow> int) \<Rightarrow> (nat \<Rightarrow> bool) \<Rightarrow> entry \<Rightarrow> outcome res option" where
  "sim_main prompt prng now start_time clock should_terminate e =
     (case get_input_from_user prompt prng now e of
        Inl f \<Rightarrow> Some (Inl f)
      | Inr (cfg, table, k, ts) \<Rightarrow>
          map_option (\<lambda>r. rbind r (sim_report ts))
            (arrange cfg (may_continue (e_max_iterations e) start_time clock should_terminate) (initial_sim cfg table k)))"

section \<open>Specification\<close>

text \<open>Answers in the range where the counters of the scheduler are exact and the record has room.\<close>

definition answers_ok :: "entry \<Rightarrow> bool" where
  "answers_ok e \<longleftrightarrow> e_take_from_stdin e = 0 \<and> e_nodes_rejoin e = 0
     \<and> 1 \<le> e_sgx_max e \<and> e_sgx_max e < 2 ^ 24 \<and> 1 \<le> e_total_tiers e \<and> e_total_tiers e < 2 ^ 24
     \<and> 0 \<le> e_node_count e \<and> e_node_count e < 2 ^ 12 \<and> e_node_count e * e_sgx_max e < 2 ^ 24
     \<and> 0 \<le> e_arrival_time_max e \<and> e_arrival_time_max e + e_node_count e * e_sgx_max e \<le> int MAX_SIZE"

definition drawn :: "nat \<Rightarrow> nat \<Rightarrow> node_t \<Rightarrow> bool" where
  "drawn m a nd \<longleftrightarrow> 1 \<le> unat (sgx_time nd) \<and> unat (sgx_time nd) \<le> m \<and> time_left nd = sgx_time nd \<and> unat (arrival_time nd) \<le> a
     \<and> n_leadership nd = 0"

section \<open>The dialogue\<close>

lemma unat_of_int_small: "0 \<le> n \<Longrightarrow> n < 2 ^ 32 \<Longrightarrow> unat (of_int n :: uint) = nat n"
  by (simp add: unat_eq_nat_uint uint_word_of_int take_bit_int_eq_self)

lemma unat_lt_2p32: "unat (w :: uint) < 2 ^ 32"
  using unsigned_less [of w] by simp

lemma sint_of_int_small: "0 \<le> n \<Longrightarrow> n < 2 ^ 31 \<Longrightarrow> sint (of_int n :: uint) = n"
  by (simp add: sint_sbintrunc' signed_take_bit_int_eq_self)

lemma input_node_drawn:
  assumes "sgx_max cfg = of_int m" and "1 \<le> m" and "m < 2 ^ 24" and "0 \<le> a" and "a < 2 ^ 31"
  shows "\<exists>nd k'. input_node cfg (of_int a) None k = Inr (nd, k') \<and> drawn (nat m) (nat a) nd"
proof -
  have m: "sint (sgx_max cfg) = m" "m \<le> int_max" "1 + m \<le> int_max + 1"
    using assms(1-3) sint_of_int_small [of m] by (simp_all add: int_max_def)
  from randint_run [of 1 m "rand cfg" k] assms(2) m obtain r where
    r: "randint (rand cfg) 1 m k = Inr (of_int r, Suc k)" "1 \<le> r" "r < 1 + m" by auto
  have sr: "unat (of_int r :: uint) = nat r" using r assms(3) by (intro unat_of_int_small) simp_all
  have "\<exists>v k'. randint (rand cfg) 0 a (Suc k) = Inr (v, k') \<and> unat v \<le> nat a"
  proof (cases "a = 0")
    case True
    then show ?thesis by (simp add: randint_def)
  next
    case False
    with assms(4,5) have "0 < a" "a \<le> int_max" "0 + a \<le> int_max + 1" by (simp_all add: int_max_def)
    from randint_run [of 0 a "rand cfg" "Suc k"] this obtain v where
      v: "randint (rand cfg) 0 a (Suc k) = Inr (of_int v, Suc (Suc k))" "0 \<le> v" "v < a" by auto
    then have "unat (of_int v :: uint) = nat v" using assms(5) by (intro unat_of_int_small) simp_all
    with v show ?thesis by auto
  qed
  then obtain v k' where v: "randint (rand cfg) 0 a (Suc k) = Inr (v, k')" "unat v \<le> nat a" by blast
  have "sint (of_int a :: uint) = a" using assms(4,5) by (rule sint_of_int_small)
  moreover have "1 \<le> nat r \<and> nat r \<le> nat m" using r(2,3) by linarith
  ultimately show ?thesis using r(1) v m(1) sr by (simp add: input_node_def drawn_def)
qed

lemma input_nodes_drawn:
  assumes "sgx_max cfg = of_int m" and "1 \<le> m" and "m < 2 ^ 24" and "0 \<le> a" and "a < 2 ^ 31"
  shows "\<exists>nds k'. input_nodes cfg (of_int a) (replicate n None) k = Inr (nds, k') \<and> length nds = n \<and> list_all (drawn (nat m) (nat a)) nds"
proof (induction n arbitrary: k)
  case (Suc n)
  obtain nd k1 where nd: "input_node cfg (of_int a) None k = Inr (nd, k1)" "drawn (nat m) (nat a) nd"
    using input_node_drawn [OF assms] by blast
  obtain nds k2 where "input_nodes cfg (of_int a) (replicate n None) k1 = Inr (nds, k2)" "length nds = n" "list_all (drawn (nat m) (nat a)) nds"
    using Suc by blast
  with nd show ?case by simp
qed simp

lemma tier_listing_run:
  assumes "0 < unat (total_tiers cfg)" and "unat (total_tiers cfg) < 2 ^ 24"
  shows "\<exists>ts. tier_listing cfg = Inr ts \<and> length ts = unat (sgx_max cfg) \<and> list_all (\<lambda>t. 0 \<le> t \<and> t < int (unat (total_tiers cfg))) ts"
proof -
  let ?step = "\<lambda>acc time. rbind (sim_tier_number cfg \<lparr>node_id = 0, arrival_time = 0, sgx_time = of_nat time, n_leadership = 0, time_left = 0\<rparr>) (\<lambda>t. Inr (acc @ [t]))"
  have "\<exists>ts. rfold ?step [] [1..<Suc k] = Inr ts \<and> length ts = k \<and> list_all (\<lambda>t. 0 \<le> t \<and> t < int (unat (total_tiers cfg))) ts"
    if "k \<le> unat (sgx_max cfg)" for k
    using that
  proof (induction k)
    case (Suc k)
    then obtain ts where ts: "rfold ?step [] [1..<Suc k] = Inr ts" "length ts = k" "list_all (\<lambda>t. 0 \<le> t \<and> t < int (unat (total_tiers cfg))) ts" by auto
    let ?nd = "\<lparr>node_id = 0, arrival_time = 0, sgx_time = of_nat (Suc k), n_leadership = 0, time_left = 0\<rparr> :: node_t"
    have u: "unat (of_nat (Suc k) :: uint) = Suc k"
      using Suc.prems unat_lt_2p32 [of "sgx_max cfg"] by (intro unat_of_nat_uint) simp
    have "sgx_time ?nd \<le> sgx_max cfg" using Suc.prems u by (simp add: word_le_nat_alt del: of_nat_Suc)
    then have "sim_tier_number cfg ?nd = Inr (int (tier_of cfg ?nd)) \<and> tier_of cfg ?nd < unat (total_tiers cfg)"
      using u by (intro sim_tier_bounds [OF assms]) (simp_all del: of_nat_Suc)
    with ts show ?case by (simp add: rfold_append del: of_nat_Suc of_nat_unat)
  qed simp
  from this [OF order_refl] show ?thesis by (simp only: tier_listing_def)
qed

lemma answers_okD:
  assumes "answers_ok e"
  shows "0 \<le> e_node_count e * e_sgx_max e" "e_arrival_time_max e \<le> int MAX_SIZE"
    "nat (e_arrival_time_max e) + nat (e_node_count e * e_sgx_max e) \<le> MAX_SIZE"
proof -
  show p: "0 \<le> e_node_count e * e_sgx_max e" using assms by (intro mult_nonneg_nonneg) (simp_all add: answers_ok_def)
  have "e_arrival_time_max e + e_node_count e * e_sgx_max e \<le> int MAX_SIZE" "0 \<le> e_arrival_time_max e" using assms by (simp_all only: answers_ok_def)
  with p show "e_arrival_time_max e \<le> int MAX_SIZE" "nat (e_arrival_time_max e) + nat (e_node_count e * e_sgx_max e) \<le> MAX_SIZE" by linarith+
qed

lemma entry_run:
  fixes prng :: "int \<Rightarrow> nat \<Rightarrow> nat" and now :: int
  assumes "answers_ok e"
  defines "cfg \<equiv> entered_config prng now e"
  shows "\<exists>tb k ts. get_input_from_user prompt prng now e = Inr (cfg, tb, k, ts) \<and> length tb = nat (e_node_count e)
    \<and> list_all (drawn (nat (e_sgx_max e)) (nat (e_arrival_time_max e))) tb
    \<and> length ts = nat (e_sgx_max e) \<and> list_all (\<lambda>t. 0 \<le> t \<and> t < e_total_tiers e) ts"
proof -
  let ?m = "e_sgx_max e" and ?n = "nat (e_node_count e)" and ?T = "e_total_tiers e"
  define a where "a = (if prompt \<and> e_take_from_stdin e = 0 then e_arrival_time_max e else 0)"
  have e: "1 \<le> ?m" "?m < 2 ^ 24" "0 \<le> a" "a < 2 ^ 31" "a \<le> e_arrival_time_max e" "0 \<le> e_node_count e" "e_node_count e < 2 ^ 12"
    "1 \<le> ?T" "?T < 2 ^ 24" "e_take_from_stdin e = 0"
    using assms(1) answers_okD(2) [OF assms(1)] by (auto simp: answers_ok_def a_def MAX_SIZE_def)
  have cfg: "sgx_max cfg = of_int ?m" "total_tiers cfg = of_int ?T" by (simp_all add: cfg_def entered_config_def)
  have arr: "entered_arrival prompt e = of_int a" by (simp add: entered_arrival_def a_def)
  obtain tb k where tb: "input_nodes cfg (of_int a) (replicate ?n None) 0 = Inr (tb, k)" "length tb = ?n" "list_all (drawn (nat ?m) (nat a)) tb"
    using input_nodes_drawn [OF cfg(1) e(1-4), of ?n 0] by blast
  have "unat (total_tiers cfg) = nat ?T" "unat (sgx_max cfg) = nat ?m" "unat (of_int (e_node_count e) :: uint) = ?n"
    using e cfg by (simp_all add: unat_of_int_small)
  moreover obtain ts where "tier_listing cfg = Inr ts" "length ts = unat (sgx_max cfg)" "list_all (\<lambda>t. 0 \<le> t \<and> t < int (unat (total_tiers cfg))) ts"
    using tier_listing_run [of cfg] e(8,9) calculation(1) by (auto simp: nat_less_iff)
  moreover have "list_all (drawn (nat ?m) (nat (e_arrival_time_max e))) tb"
    using tb(3) e(5) by (auto simp: drawn_def list_all_iff intro: order_trans)
  moreover have "\<not> MAX_SIZE < ?n" using e by (simp add: MAX_SIZE_def)
  ultimately show ?thesis using tb e arr by (simp add: get_input_from_user_def Let_def flip: cfg_def)
qed

lemma entry_sim_ok:
  assumes "answers_ok e" and "length tb = nat (e_node_count e)" and tb: "list_all (drawn (nat (e_sgx_max e)) (nat (e_arrival_time_max e))) tb"
  shows "sim_ok (entered_config prng now e) tb" "fits tb (nat (e_arrival_time_max e))"
    "(\<Sum>i < length tb. unat (sgx_time (tb ! i))) \<le> nat (e_node_count e * e_sgx_max e)"
proof -
  let ?m = "e_sgx_max e" and ?n = "e_node_count e" and ?cfg = "entered_config prng now e"
  have e: "1 \<le> ?m" "?m < 2 ^ 24" "0 \<le> ?n" "?n < 2 ^ 12" "?n * ?m < 2 ^ 24" "1 \<le> e_total_tiers e" "e_total_tiers e < 2 ^ 24"
    "0 \<le> e_arrival_time_max e" "e_arrival_time_max e + ?n * ?m \<le> int MAX_SIZE"
    using assms(1) by (simp_all add: answers_ok_def)
  have cfg: "unat (total_tiers ?cfg) = nat (e_total_tiers e)" "unat (sgx_max ?cfg) = nat ?m"
    using e by (simp_all add: entered_config_def unat_of_int_small)
  have "nat (e_total_tiers e) < 2 ^ 24" "nat ?n < 2 ^ 12" using e by (simp_all add: nat_less_iff)
  note small = this
  have nm: "nat ?n * nat ?m = nat (?n * ?m)" using e by (simp add: nat_mult_distrib)
  have nd: "drawn (nat ?m) (nat (e_arrival_time_max e)) (tb ! i)" if "i < length tb" for i using tb that by (simp add: list_all_length)
  have "list_all (\<lambda>nd. 1 \<le> unat (sgx_time nd) \<and> sgx_time nd \<le> sgx_max ?cfg \<and> time_left nd \<le> sgx_time nd) tb"
    using nd cfg(2) by (simp add: list_all_length drawn_def word_le_nat_alt)
  moreover have "length tb * unat (sgx_max ?cfg) < 2 ^ 24" using e nm assms(2) cfg(2) by simp
  ultimately show "sim_ok ?cfg tb" using e(6) small assms(2) cfg by (simp add: sim_ok_def)
  have "(\<Sum>i < length tb. unat (sgx_time (tb ! i))) \<le> of_nat (card {..<length tb}) * nat ?m"
    using nd by (intro sum_bounded_above) (simp add: drawn_def)
  then show sum: "(\<Sum>i < length tb. unat (sgx_time (tb ! i))) \<le> nat (?n * ?m)" using assms(2) nm by simp
  show "fits tb (nat (e_arrival_time_max e))" using sum nd answers_okD(3) [OF assms(1)] by (auto simp: fits_def drawn_def)
qed

lemma sim_report_run:
  assumes "loop_inv cfg tb A idle s" and "fits tb A"
  shows "\<exists>r. sim_report ts s = Inr r \<and> o_tiers r = ts \<and> length (o_waits r) = length tb \<and> o_unfinished r = unfinished_nodes s
    \<and> o_seconds r = map (nodes_queue s) [0..<unat (s_time s)] \<and> o_leadership r = print_average_leadership (s_table s) \<and> queue_rep (s_queue (o_sim r)) []"
proof -
  have len: "length (s_table s) = length tb" using assms(1) by (simp add: loop_inv_def sched_ok_def)
  obtain xs where "queue_rep (s_queue s) xs" using assms(1) by (auto simp: loop_inv_def sched_ok_def)
  from queue_rep_destructor [OF this, of 0 False] obtain q where "queue_destructor 0 (s_queue s) False = Inr ([], q)" "queue_rep q []" by auto
  with loop_inv_now [OF assms] len show ?thesis by (simp add: sim_report_def waiting_time_def show_overall_queue_def)
qed

section \<open>Properties\<close>

text \<open>
  C10. Started with answers in range and without rejoining nodes, the simulator ends normally whatever
  the generator, the clock and the signal do: no assertion fails, the dialogue lists a valid tier for
  every SGX time, the queue is freed, and the record holds at most the latest arrival time plus the
  sum of the SGX times. The mean number of leaderships is a number unless there is no node, and its
  deviation unless there is one node. Without time limit and signal, the check at the end reports no node.
\<close>

theorem simulation_ends:
  assumes "answers_ok e"
  shows "\<exists>r. sim_main prompt prng now start_time clock should_terminate e = Some (Inr r)
     \<and> length (o_tiers r) = nat (e_sgx_max e) \<and> list_all (\<lambda>t. 0 \<le> t \<and> t < e_total_tiers e) (o_tiers r)
     \<and> length (o_waits r) = nat (e_node_count e) \<and> queue_rep (s_queue (o_sim r)) []
     \<and> int (length (o_seconds r)) \<le> e_arrival_time_max e + e_node_count e * e_sgx_max e
     \<and> (fst (o_leadership r) = None \<longleftrightarrow> e_node_count e = 0) \<and> (snd (o_leadership r) = None \<longleftrightarrow> e_node_count e = 1)
     \<and> (e_max_iterations e = - 1 \<and> (\<forall>k. \<not> should_terminate k) \<longrightarrow> o_unfinished r = [])"
proof -
  let ?cfg = "entered_config prng now e" and ?A = "nat (e_arrival_time_max e)"
  let ?go = "may_continue (e_max_iterations e) start_time clock should_terminate"
  obtain tb k ts where inp: "get_input_from_user prompt prng now e = Inr (?cfg, tb, k, ts)" and n: "length tb = nat (e_node_count e)"
    and tb: "list_all (drawn (nat (e_sgx_max e)) ?A) tb" and ts: "length ts = nat (e_sgx_max e)" "list_all (\<lambda>t. 0 \<le> t \<and> t < e_total_tiers e) ts"
    using entry_run [OF assms] by blast
  note ok = entry_sim_ok [OF assms n tb]
  have "\<not> nodes_rejoin ?cfg" using assms by (simp add: answers_ok_def entered_config_def)
  moreover have fresh: "time_left (tb ! i) = sgx_time (tb ! i)" if "i < length tb" for i using tb that by (simp add: list_all_length drawn_def)
  ultimately obtain s idle where s: "arrange ?cfg ?go (initial_sim ?cfg tb k) = Some (Inr s)" and inv: "loop_inv ?cfg tb ?A idle s"
    and w: "(\<forall>j. ?go j) \<longrightarrow> work_left tb s = 0"
    using arrange_run_until [OF ok(1) _ ok(2)] by blast
  from sim_report_run [OF inv ok(2), of ts] obtain r where r: "sim_report ts s = Inr r" "o_tiers r = ts" "length (o_waits r) = length tb"
    "o_unfinished r = unfinished_nodes s" "o_seconds r = map (nodes_queue s) [0..<unat (s_time s)]" "o_leadership r = print_average_leadership (s_table s)"
    "queue_rep (s_queue (o_sim r)) []" by blast
  have "o_unfinished r = []" if "e_max_iterations e = - 1 \<and> (\<forall>k. \<not> should_terminate k)"
  proof -
    have "work_left tb s = 0" using w that by (simp add: may_continue_def)
    from loop_inv_end(1) [OF inv this] inv show ?thesis by (auto simp: r(4) unfinished_nodes_def loop_inv_def sched_ok_def filter_empty_conv)
  qed
  moreover have "int (length (o_seconds r)) \<le> e_arrival_time_max e + e_node_count e * e_sgx_max e"
  proof -
    have "unat (s_time s) \<le> ?A + nat (e_node_count e * e_sgx_max e)" using loop_inv_seconds [OF inv] ok(3) by linarith
    moreover have "0 \<le> e_arrival_time_max e" using assms by (simp add: answers_ok_def)
    moreover have "length (o_seconds r) = unat (s_time s)" by (simp add: r(5))
    ultimately show ?thesis using answers_okD(1) [OF assms] by linarith
  qed
  moreover have "(fst (o_leadership r) = None \<longleftrightarrow> e_node_count e = 0) \<and> (snd (o_leadership r) = None \<longleftrightarrow> e_node_count e = 1)"
  proof -
    have len: "length (s_table s) = nat (e_node_count e)" using inv n by (simp add: loop_inv_def sched_ok_def)
    have "0 \<le> e_node_count e" "e_node_count e < 2 ^ 12" using assms by (simp_all add: answers_ok_def)
    then show ?thesis using print_average_leadership_defined(1,2) [of "s_table s"] len by (simp add: r(6) flip: length_0_conv) linarith
  qed
  ultimately show ?thesis using inp s r ts n by (simp add: sim_main_def)
qed

theorem simulation_ends_witness:
  "\<exists>r. sim_main True (\<lambda>_ k. 7 * k) 0 0 (\<lambda>k. int k) (\<lambda>_. False)
       \<lparr>e_seed = 1, e_max_iterations = - 1, e_node_count = 3, e_sgx_max = 10, e_total_tiers = 2, e_take_from_stdin = 0,
        e_nodes_rejoin = 0, e_arrival_time_max = 4, e_nodes = []\<rparr> = Some (Inr r) \<and> o_unfinished r = [] \<and> length (o_seconds r) \<le> 34"
  using simulation_ends [of "\<lparr>e_seed = 1, e_max_iterations = - 1, e_node_count = 3, e_sgx_max = 10, e_total_tiers = 2, e_take_from_stdin = 0,
        e_nodes_rejoin = 0, e_arrival_time_max = 4, e_nodes = []\<rparr>" True "\<lambda>_ k. 7 * k" 0 0 "\<lambda>k. int k" "\<lambda>_. False"]
  by (auto simp: answers_ok_def MAX_SIZE_def)

end
