(* ===== verification/Rejoin.thy ===== *)
theory Rejoin imports Simulator
begin

text \<open>
  The simulation of \<^verbatim>\<open>POET++.cpp\<close> when nodes join again: a node that has used up its time draws a new one
  and arrives in the next second. The scheduler keeps its invariant, but the record of the seconds is
  an array of fixed size, and with two nodes or more nothing but the time limit or a signal ends
  the run before the array is full.
\<close>

section \<open>The invariant\<close>

text \<open>\<open>tb\<close>: the table with the last drawn time of every node.\<close>

definition rejoin_inv :: "config \<Rightarrow> nat \<Rightarrow> node_t list \<Rightarrow> sim \<Rightarrow> bool" where
  "rejoin_inv cfg A tb s \<longleftrightarrow> sim_ok cfg tb \<and> sched_ok cfg tb (Suc (unat (s_time s))) {} s
     \<and> (\<forall>i < length tb. unat (arrival_time (tb ! i)) \<le> max A (Suc (unat (s_time s))))"

text \<open>The nodes that have arrived and have time left, which the queue holds.\<close>

definition waiting :: "node_t list \<Rightarrow> sim \<Rightarrow> nat set" where
  "waiting tb s = {i \<in> arrived tb (Suc (unat (s_time s))). 0 < unat (time_left (s_table s ! i))}"

text \<open>The clock is at most one second past the end of the record, and then somebody waits in the queue.\<close>

definition clock_ok :: "node_t list \<Rightarrow> sim \<Rightarrow> bool" where
  "clock_ok tb s \<longleftrightarrow> unat (s_time s) \<le> MAX_SIZE
     \<or> unat (s_time s) = Suc MAX_SIZE \<and> waiting tb s \<noteq> {}"

text \<open>All nodes but \<open>u\<close> have time left.\<close>

definition busy_but :: "nat \<Rightarrow> sim \<Rightarrow> bool" where
  "busy_but u s \<longleftrightarrow> (\<forall>i < length (s_table s). i \<noteq> u \<longrightarrow> 0 < unat (time_left (s_table s ! i)))"

section \<open>Joining again\<close>

lemma sched_ok_waiting:
  "sched_ok cfg tb (Suc (unat (s_time s))) {} s \<longleftrightarrow> length (s_table s) = length tb
     \<and> (\<forall>i < length tb. arrival_time (s_table s ! i) = arrival_time (tb ! i) \<and> sgx_time (s_table s ! i) = sgx_time (tb ! i)
          \<and> time_left (s_table s ! i) \<le> sgx_time (tb ! i)
          \<and> (i \<notin> arrived tb (Suc (unat (s_time s))) \<longrightarrow> time_left (s_table s ! i) = sgx_time (tb ! i)))
     \<and> (\<exists>xs. queue_rep (s_queue s) (map of_nat xs) \<and> distinct xs \<and> set xs = waiting tb s)
     \<and> length (tier_quantum_time s) = unat (total_tiers cfg)
     \<and> (\<forall>i \<in> arrived tb (Suc (unat (s_time s))). 0 < tier_quantum_time s ! tier_of cfg (tb ! i))"
  by (simp add: sched_ok_def waiting_def)

text \<open>A finished node that draws \<open>r\<close> is one that has not arrived.\<close>

lemma rejoin_redraw:
  assumes inv: "rejoin_inv cfg A tb s" and i: "i < length tb" and left: "time_left (s_table s ! i) = 0"
    and nd: "arrival_time nd = s_time s + 1" "sgx_time nd = r" "time_left nd = r" and r: "1 \<le> unat r" "r \<le> sgx_max cfg"
    and time: "unat (s_time s + 1) = Suc (unat (s_time s))"
  shows "rejoin_inv cfg A (tb[i := nd]) (s\<lparr>s_table := (s_table s)[i := nd], s_rand := k\<rparr>)"
    and "waiting (tb[i := nd]) (s\<lparr>s_table := (s_table s)[i := nd], s_rand := k\<rparr>) = waiting tb s"
proof -
  let ?k = "Suc (unat (s_time s))" and ?tb = "tb[i := nd]" and ?s = "s\<lparr>s_table := (s_table s)[i := nd], s_rand := k\<rparr>"
  have ok: "sim_ok cfg tb" and sched: "sched_ok cfg tb ?k {} s" using inv by (simp_all add: rejoin_inv_def)
  have len: "length (s_table s) = length tb" using sched by (simp add: sched_ok_def)
  have "sim_ok cfg ?tb" using ok i nd(2,3) r by (auto simp: sim_ok_def list_all_length nth_list_update)
  moreover have arr: "arrived ?tb ?k = arrived tb ?k - {i}" using i nd(1) time by (auto simp: arrived_def nth_list_update)
  show wait: "waiting ?tb ?s = waiting tb s" using left len i by (auto simp: waiting_def arr nth_list_update split: if_splits)
  have "sched_ok cfg ?tb (Suc (unat (s_time ?s))) {} ?s"
    using sched i nd len unfolding sched_ok_waiting wait by (simp add: nth_list_update arr)
  moreover have "\<forall>j < length ?tb. unat (arrival_time (?tb ! j)) \<le> max A ?k" using inv i nd(1) time by (auto simp: rejoin_inv_def nth_list_update)
  ultimately show "rejoin_inv cfg A ?tb ?s" by (simp add: rejoin_inv_def)
qed

lemma draw_again:
  assumes "sim_ok cfg tb" and "i < length tb"
  shows "\<exists>r k'. randint (rand cfg) 1 (sint (sgx_max cfg)) k = Inr (r, k') \<and> 1 \<le> unat r \<and> r \<le> sgx_max cfg"
proof -
  have "unat (sgx_max cfg) \<le> length tb * unat (sgx_max cfg)" using assms(2) by (cases tb) simp_all
  moreover have "length tb * unat (sgx_max cfg) < 2 ^ 24" using assms(1) by (simp only: sim_ok_def)
  ultimately have "unat (sgx_max cfg) < 2 ^ 24" by (rule le_less_trans)
  moreover have "1 \<le> unat (sgx_max cfg)" using sim_okD(1,2) [OF assms] by (simp add: word_le_nat_alt)
  ultimately have m: "1 \<le> sint (sgx_max cfg)" "sint (sgx_max cfg) < 2 ^ 24" "sint (sgx_max cfg) = int (unat (sgx_max cfg))"
    using sint_eq_unat [of "sgx_max cfg"] by (simp_all del: of_nat_unat)
  from randint_run [of 1 "sint (sgx_max cfg)" "rand cfg" k] m(1,2) obtain r where
    r: "randint (rand cfg) 1 (sint (sgx_max cfg)) k = Inr (of_int r, Suc k)" "1 \<le> r" "r < 1 + sint (sgx_max cfg)"
    by (auto simp: int_max_def)
  have "unat (of_int r :: uint) = nat r" using r m(2) by (simp add: unat_eq_nat_uint uint_word_of_int take_bit_int_eq_self)
  with r m(3) have "1 \<le> unat (of_int r :: uint)" "unat (of_int r :: uint) \<le> unat (sgx_max cfg)" by linarith+
  with r(1) show ?thesis by (auto simp: word_le_nat_alt)
qed

lemma rejoin_step:
  assumes inv: "rejoin_inv cfg A tb s" and rejoin: "nodes_rejoin cfg" and time: "unat (s_time s + 1) = Suc (unat (s_time s))"
    and i: "i < length tb"
  shows "\<exists>tb' s'. time_left_step cfg (b, s) i = Inr (b \<or> 0 < unat (time_left (s_table s ! i)), s') \<and> rejoin_inv cfg A tb' s'
     \<and> length tb' = length tb \<and> s_time s' = s_time s \<and> waiting tb' s' = waiting tb s
     \<and> 0 < unat (time_left (s_table s' ! i)) \<and> (\<forall>j. j \<noteq> i \<longrightarrow> s_table s' ! j = s_table s ! j)"
proof (cases "time_left (s_table s ! i) = 0")
  case False
  then have "time_left (s_table s ! i) > 0" "0 < unat (time_left (s_table s ! i))" by (simp_all add: word_neq_0_conv unat_gt_0)
  with False inv show ?thesis by (intro exI [of _ tb] exI [of _ s]) (simp add: time_left_step_def Let_def)
next
  case True
  have len: "length (s_table s) = length tb" and ok: "sim_ok cfg tb" using inv by (simp_all add: rejoin_inv_def sched_ok_def)
  obtain r k where r: "randint (rand cfg) 1 (sint (sgx_max cfg)) (s_rand s) = Inr (r, k)" "1 \<le> unat r" "r \<le> sgx_max cfg"
    using draw_again [OF ok i] by blast
  define nd where "nd = (s_table s ! i)\<lparr>n_leadership := n_leadership (s_table s ! i) + 1, time_left := r, sgx_time := r, arrival_time := s_time s + 1\<rparr>"
  have nd: "arrival_time nd = s_time s + 1" "sgx_time nd = r" "time_left nd = r" by (simp_all add: nd_def)
  have "time_left_step cfg (b, s) i = Inr (b, s\<lparr>s_table := (s_table s)[i := nd], s_rand := k\<rparr>)"
    using True rejoin r(1) by (simp add: time_left_step_def Let_def nd_def)
  then show ?thesis
    using rejoin_redraw [OF inv i True nd r(2,3) time, of k] True r(2) nd(3) i len
    by (intro exI [of _ "tb[i := nd]"] exI [of _ "s\<lparr>s_table := (s_table s)[i := nd], s_rand := k\<rparr>"]) simp
qed

lemma time_left_pass:
  assumes inv: "rejoin_inv cfg A tb s" and rejoin: "nodes_rejoin cfg" and time: "unat (s_time s + 1) = Suc (unat (s_time s))"
  shows "k \<le> length tb \<Longrightarrow> \<exists>tb' s'. rfold (time_left_step cfg) (False, s) [0..<k] = Inr (\<exists>i < k. 0 < unat (time_left (s_table s ! i)), s')
     \<and> rejoin_inv cfg A tb' s' \<and> length tb' = length tb \<and> s_time s' = s_time s \<and> waiting tb' s' = waiting tb s
     \<and> (\<forall>i < k. 0 < unat (time_left (s_table s' ! i))) \<and> (\<forall>i. k \<le> i \<longrightarrow> s_table s' ! i = s_table s ! i)"
proof (induction k)
  case 0
  show ?case using inv by auto
next
  case (Suc k)
  then obtain tb1 s1 where st: "rfold (time_left_step cfg) (False, s) [0..<k] = Inr (\<exists>i < k. 0 < unat (time_left (s_table s ! i)), s1)"
    and inv1: "rejoin_inv cfg A tb1 s1" and len: "length tb1 = length tb" and time1: "s_time s1 = s_time s" and wait: "waiting tb1 s1 = waiting tb s"
    and pos: "\<forall>i < k. 0 < unat (time_left (s_table s1 ! i))" and same: "\<forall>i. k \<le> i \<longrightarrow> s_table s1 ! i = s_table s ! i" by auto
  have "unat (s_time s1 + 1) = Suc (unat (s_time s1))" "k < length tb1" using time Suc.prems len by (simp_all add: time1)
  from rejoin_step [OF inv1 rejoin this, of "\<exists>i < k. 0 < unat (time_left (s_table s ! i))"] obtain tb' s' where
    s': "time_left_step cfg (\<exists>i < k. 0 < unat (time_left (s_table s ! i)), s1) k =
        Inr ((\<exists>i < k. 0 < unat (time_left (s_table s ! i))) \<or> 0 < unat (time_left (s_table s1 ! k)), s')"
    "rejoin_inv cfg A tb' s'" "length tb' = length tb1" "s_time s' = s_time s1" "waiting tb' s' = waiting tb1 s1"
    "0 < unat (time_left (s_table s' ! k))" "\<forall>j. j \<noteq> k \<longrightarrow> s_table s' ! j = s_table s1 ! j" by blast
  have "((\<exists>i < k. 0 < unat (time_left (s_table s ! i))) \<or> 0 < unat (time_left (s_table s1 ! k))) = (\<exists>i < Suc k. 0 < unat (time_left (s_table s ! i)))"
    using same by (auto simp: less_Suc_eq)
  then have "rfold (time_left_step cfg) (False, s) [0..<Suc k] = Inr (\<exists>i < Suc k. 0 < unat (time_left (s_table s ! i)), s')"
    using st s'(1) by (simp add: rfold_append)
  moreover have "\<forall>i < Suc k. 0 < unat (time_left (s_table s' ! i))" using pos s'(6,7) by (auto simp: less_Suc_eq)
  moreover have "\<forall>i. Suc k \<le> i \<longrightarrow> s_table s' ! i = s_table s ! i" using same s'(7) by simp
  ultimately show ?case using s'(2-5) len time1 wait by (intro exI [of _ tb'] exI [of _ s']) simp
qed

section \<open>One pass\<close>

lemma run_quantum_rejoin:
  assumes ok: "sim_ok cfg tb" and u: "u < length tb"
  shows "sched_ok cfg tb (Suc (unat (s_time s))) {u} s \<Longrightarrow> u \<in> arrived tb (Suc (unat (s_time s))) \<Longrightarrow> k \<le> unat (time_left (s_table s ! u)) \<Longrightarrow>
    run_quantum cfg u k s = Inl Out_Of_Range
    \<or> (\<exists>s'. run_quantum cfg u k s = Inr s' \<and> sched_ok cfg tb (Suc (unat (s_time s'))) {u} s' \<and> u \<in> arrived tb (Suc (unat (s_time s')))
         \<and> unat (s_time s') = unat (s_time s) + k \<and> (0 < k \<longrightarrow> unat (s_time s') \<le> MAX_SIZE) \<and> (\<forall>i. i \<noteq> u \<longrightarrow> s_table s' ! i = s_table s ! i))"
proof (induction k arbitrary: s)
  case (Suc k)
  show ?case
  proof (cases "unat (s_time s) < MAX_SIZE")
    case False
    then show ?thesis by (simp add: run_second_def)
  next
    case True
    have pos: "0 < unat (time_left (s_table s ! u))" using Suc.prems(3) by simp
    from run_second_sched [OF ok Suc.prems(1,2) pos True] obtain s1 where s1: "run_second cfg u s = Inr s1"
      "sched_ok cfg tb (Suc (unat (s_time s1))) {u} s1" "unat (s_time s1) = Suc (unat (s_time s))"
      "s_table s1 = (s_table s)[u := (s_table s ! u)\<lparr>time_left := time_left (s_table s ! u) - 1\<rparr>]" by (auto simp: same_run_def)
    have "length (s_table s) = length tb" using Suc.prems(1) by (simp add: sched_ok_def)
    then have "unat (time_left (s_table s1 ! u)) = unat (time_left (s_table s ! u)) - 1"
      using u pos by (simp add: s1(4) unat_minus_one unat_gt_0)
    then have k: "k \<le> unat (time_left (s_table s1 ! u))" using Suc.prems(3) by linarith
    have "u \<in> arrived tb (Suc (unat (s_time s1)))" using Suc.prems(2) s1(3) by (auto simp: arrived_def)
    from Suc.IH [OF s1(2) this k] s1 True show ?thesis by auto
  qed
qed auto

text \<open>With an empty queue every node is still to arrive.\<close>

lemma rejoin_idle:
  assumes inv: "rejoin_inv cfg A tb s" and clock: "clock_ok tb s" and A: "A \<le> MAX_SIZE"
    and all: "\<forall>i < length tb. 0 < unat (time_left (s_table s ! i))" and ne: "tb \<noteq> []"
    and q: "queue_rep (s_queue s) []" "waiting tb s = {}"
  shows "\<exists>s'. arrange_body cfg s = Inr s' \<and> rejoin_inv cfg A tb s' \<and> clock_ok tb s' \<and> busy_but 0 s' \<and> unat (s_time s) < unat (s_time s')"
proof -
  let ?k = "Suc (unat (s_time s))" and ?q1 = "call True Unlock (call True Rdlock (s_queue s))"
  have ok: "sim_ok cfg tb" and sched: "sched_ok cfg tb ?k {} s" and arr: "\<forall>i < length tb. unat (arrival_time (tb ! i)) \<le> max A ?k"
    using inv by (simp_all add: rejoin_inv_def)
  have now: "unat (s_time s) \<le> MAX_SIZE" using clock q(2) by (simp add: clock_ok_def)
  then have time: "unat (s_time s + 1) = ?k" by (simp add: MAX_SIZE_def unat_word_ariths(1))
  have "queue_is_empty (s_queue s) = Inr (True, ?q1)" using queue_rep_is_empty [OF q(1), of True] by (simp add: queue_is_empty_def)
  then have body: "arrange_body cfg s = check_node_arrive cfg (s\<lparr>s_queue := ?q1, s_time := s_time s + 1\<rparr>)" by (simp add: arrange_body_def)
  have "sched_ok cfg tb (Suc (unat (s_time (s\<lparr>s_queue := ?q1\<rparr>)))) {} (s\<lparr>s_queue := ?q1\<rparr>)" using sched by (simp add: sched_ok_def)
  from idle_sched [OF ok this] time obtain s' where s': "check_node_arrive cfg (s\<lparr>s_queue := ?q1, s_time := s_time s + 1\<rparr>) = Inr s'"
    "sched_ok cfg tb (Suc (unat (s_time s'))) {} s'" "s_table s' = s_table s" "s_time s' = s_time s + 1" by (auto simp: same_run_def)
  have "clock_ok tb s'"
  proof (cases "unat (s_time s) = MAX_SIZE")
    case True
    then have "unat (arrival_time (tb ! 0)) \<le> ?k" using arr ne A by (simp add: max_def split: if_splits)
    then have "0 \<in> waiting tb s'" using all ne time by (simp add: waiting_def arrived_def s'(3,4))
    then show ?thesis using True time by (auto simp: clock_ok_def s'(4))
  qed (use now time in \<open>simp add: clock_ok_def s'(4)\<close>)
  moreover have "rejoin_inv cfg A tb s'" using ok s'(2) arr time by (auto simp: rejoin_inv_def s'(4) max_def split: if_splits)
  moreover have "busy_but 0 s'" using all sched by (simp add: busy_but_def s'(3) sched_ok_def)
  ultimately show ?thesis using body s'(1,4) time by auto
qed

text \<open>With a node at the front of the queue the pass overruns the record, or takes time from that node only.\<close>

lemma rejoin_busy:
  assumes inv: "rejoin_inv cfg A tb s" and all: "\<forall>i < length tb. 0 < unat (time_left (s_table s ! i))"
    and xs: "queue_rep (s_queue s) (map of_nat (u # ys))" "distinct (u # ys)" "set (u # ys) = waiting tb s"
  shows "arrange_body cfg s = Inl Out_Of_Range
    \<or> (\<exists>s'. arrange_body cfg s = Inr s' \<and> rejoin_inv cfg A tb s' \<and> clock_ok tb s' \<and> busy_but u s' \<and> unat (s_time s) < unat (s_time s'))"
proof -
  let ?k = "Suc (unat (s_time s))"
  have ok: "sim_ok cfg tb" and sched: "sched_ok cfg tb ?k {} s" and arr: "\<forall>i < length tb. unat (arrival_time (tb ! i)) \<le> max A ?k"
    using inv by (simp_all add: rejoin_inv_def)
  obtain q m where m: "0 < m" "m \<le> unat (time_left (s_table s ! u))" and sched1: "sched_ok cfg tb ?k {u} (s\<lparr>s_queue := q\<rparr>)"
    and body: "arrange_body cfg s = rbind (run_quantum cfg u m (s\<lparr>s_queue := q\<rparr>)) (\<lambda>s3. if time_left (s_table s3 ! u) > 0
      then rbind (queue_push (s_queue s3) (of_nat u)) (\<lambda>q3. Inr (s3\<lparr>s_queue := q3\<rparr>)) else Inr s3)"
    using busy_start [OF ok sched xs [unfolded waiting_def]] by blast
  have u: "u \<in> arrived tb ?k" "u < length tb" using xs(3) by (auto simp: waiting_def arrived_def)
  show ?thesis
  proof (cases "run_quantum cfg u m (s\<lparr>s_queue := q\<rparr>) = Inl Out_Of_Range")
    case False
    with run_quantum_rejoin [OF ok u(2), of "s\<lparr>s_queue := q\<rparr>" m] sched1 u(1) m obtain s3 where
      s3: "run_quantum cfg u m (s\<lparr>s_queue := q\<rparr>) = Inr s3" "sched_ok cfg tb (Suc (unat (s_time s3))) {u} s3" "u \<in> arrived tb (Suc (unat (s_time s3)))"
      "unat (s_time s3) = unat (s_time s) + m" "unat (s_time s3) \<le> MAX_SIZE" "\<forall>i. i \<noteq> u \<longrightarrow> s_table s3 ! i = s_table s ! i" by auto
    obtain q3 where q3: "arrange_body cfg s = Inr (s3\<lparr>s_queue := q3\<rparr>)" "sched_ok cfg tb (Suc (unat (s_time s3))) {} (s3\<lparr>s_queue := q3\<rparr>)"
    proof (cases "unat (time_left (s_table s3 ! u)) = 0")
      case True
      with sched_ok_requeue(2) [OF s3(2,3)] that [of "s_queue s3"] show ?thesis by (simp add: body s3(1) word_less_nat_alt)
    next
      case nz: False
      with sched_ok_requeue(1) [OF s3(2,3)] that show ?thesis by (auto simp: body s3(1) word_less_nat_alt)
    qed
    have "length (s_table s3) = length tb" using s3(2) by (simp add: sched_ok_def)
    then have "busy_but u (s3\<lparr>s_queue := q3\<rparr>)" using all s3(6) by (simp add: busy_but_def)
    moreover have "rejoin_inv cfg A tb (s3\<lparr>s_queue := q3\<rparr>)" using ok q3(2) arr s3(4) by (auto simp: rejoin_inv_def max_def split: if_splits)
    moreover have "clock_ok tb (s3\<lparr>s_queue := q3\<rparr>)" using s3(5) by (simp add: clock_ok_def)
    ultimately show ?thesis using q3(1) s3(4) m(1) by auto
  qed (simp add: body)
qed

lemma rejoin_body:
  assumes "rejoin_inv cfg A tb s" and "clock_ok tb s" and "A \<le> MAX_SIZE"
    and "\<forall>i < length tb. 0 < unat (time_left (s_table s ! i))" and "tb \<noteq> []"
  shows "arrange_body cfg s = Inl Out_Of_Range
    \<or> (\<exists>s' u. arrange_body cfg s = Inr s' \<and> rejoin_inv cfg A tb s' \<and> clock_ok tb s' \<and> busy_but u s' \<and> unat (s_time s) < unat (s_time s'))"
proof -
  obtain xs where xs: "queue_rep (s_queue s) (map of_nat xs)" "distinct xs" "set xs = waiting tb s"
    using assms(1) by (auto simp: rejoin_inv_def sched_ok_waiting)
  show ?thesis
  proof (cases xs)
    case Nil
    with rejoin_idle [OF assms] xs show ?thesis by auto
  next
    case (Cons u ys)
    with rejoin_busy [OF assms(1,4), of u ys] xs show ?thesis by blast
  qed
qed

section \<open>The loop\<close>

lemma rejoin_loop:
  assumes rejoin: "nodes_rejoin cfg" and A: "A \<le> MAX_SIZE"
  shows "rejoin_inv cfg A tb s \<Longrightarrow> clock_ok tb s \<Longrightarrow> busy_but u s \<Longrightarrow> tb \<noteq> [] \<Longrightarrow>
    \<exists>r. arrange_loop cfg go k s = Some r \<and> (r = Inl Out_Of_Range \<or> (\<exists>s' tb'. r = Inr s' \<and> rejoin_inv cfg A tb' s' \<and> length tb' = length tb))
      \<and> (2 \<le> length tb \<and> (\<forall>j. go j) \<longrightarrow> r = Inl Out_Of_Range)"
proof (induction "MAX_SIZE + 2 - unat (s_time s)" arbitrary: s tb u k rule: less_induct)
  case less
  have len: "length (s_table s) = length tb" using less.prems(1) by (simp add: rejoin_inv_def sched_ok_def)
  have now: "unat (s_time s) \<le> Suc MAX_SIZE" using less.prems(2) by (auto simp: clock_ok_def)
  then have time: "unat (s_time s + 1) = Suc (unat (s_time s))" by (simp add: MAX_SIZE_def unat_word_ariths(1))
  let ?b = "\<exists>i < length tb. 0 < unat (time_left (s_table s ! i))"
  from time_left_pass [OF less.prems(1) rejoin time order_refl] obtain tb1 s1 where
    pass: "is_time_left cfg s = Inr (?b, s1)" and inv1: "rejoin_inv cfg A tb1 s1" and len1: "length tb1 = length tb"
    and same: "s_time s1 = s_time s" "waiting tb1 s1 = waiting tb s" and all: "\<forall>i < length tb1. 0 < unat (time_left (s_table s1 ! i))"
    by (auto simp: is_time_left_def len)
  have clock1: "clock_ok tb1 s1" using less.prems(2) by (simp add: clock_ok_def same)
  have b: ?b if "2 \<le> length tb"
  proof -
    have "(if u = 0 then 1 else 0) < length (s_table s)" "(if u = 0 then 1 else 0) \<noteq> u" using that len by auto
    then show ?thesis using less.prems(3) len unfolding busy_but_def by metis
  qed
  have loop: "arrange_loop cfg go k s = (if ?b \<and> go k then (case arrange_body cfg s1 of Inl e \<Rightarrow> Some (Inl e) | Inr s2 \<Rightarrow> arrange_loop cfg go (Suc k) s2) else Some (Inr s1))"
    by (simp add: arrange_loop.simps [of cfg go k s] pass)
  show ?case
  proof (cases "?b \<and> go k")
    case False
    have "arrange_loop cfg go k s = Some (Inr s1)" unfolding loop by (rule if_not_P [OF False])
    with False b inv1 len1 show ?thesis by auto
  next
    case True
    have "tb1 \<noteq> []" using less.prems(4) len1 by auto
    from rejoin_body [OF inv1 clock1 A all this] show ?thesis
    proof
      assume "arrange_body cfg s1 = Inl Out_Of_Range"
      with loop True show ?thesis by simp
    next
      assume "\<exists>s' u. arrange_body cfg s1 = Inr s' \<and> rejoin_inv cfg A tb1 s' \<and> clock_ok tb1 s' \<and> busy_but u s' \<and> unat (s_time s1) < unat (s_time s')"
      then obtain s2 v where s2: "arrange_body cfg s1 = Inr s2" "rejoin_inv cfg A tb1 s2" "clock_ok tb1 s2" "busy_but v s2" "unat (s_time s1) < unat (s_time s2)" by blast
      have "MAX_SIZE + 2 - unat (s_time s2) < MAX_SIZE + 2 - unat (s_time s)" using s2(5) same(1) now by simp
      from less.hyps [OF this s2(2-4) \<open>tb1 \<noteq> []\<close>, of "Suc k"] loop True s2(1) len1 show ?thesis by simp
    qed
  qed
qed

section \<open>Properties\<close>

text \<open>
  C27. When nodes join again, the simulation ends whatever the generator, the clock and the signal do, and
  no assertion fails: it ends normally, with drawn times in range, or writes past the end of the
  record of its seconds. With two nodes or more it always does the latter unless the time limit or
  a signal stops it.
\<close>

theorem rejoining_overruns:
  assumes ok: "sim_ok cfg tb" and rejoin: "nodes_rejoin cfg" and ne: "tb \<noteq> []"
    and arr: "\<And>i. i < length tb \<Longrightarrow> unat (arrival_time (tb ! i)) \<le> MAX_SIZE"
    and fresh: "\<And>i. i < length tb \<Longrightarrow> time_left (tb ! i) = sgx_time (tb ! i)"
  shows "\<exists>r. arrange cfg go (initial_sim cfg tb k) = Some r
    \<and> (r = Inl Out_Of_Range \<or> (\<exists>s. r = Inr s \<and> length (s_table s) = length tb
         \<and> (\<forall>i < length tb. 1 \<le> unat (sgx_time (s_table s ! i)) \<and> sgx_time (s_table s ! i) \<le> sgx_max cfg \<and> time_left (s_table s ! i) \<le> sgx_time (s_table s ! i))))
    \<and> (2 \<le> length tb \<and> (\<forall>j. go j) \<longrightarrow> r = Inl Out_Of_Range)"
proof -
  let ?s = "initial_sim cfg tb k"
  have "queue_rep (fresh_queue True) ([] :: size_t list)" by (rule fresh_queue_rep)
  then have "sched_ok cfg tb (unat (s_time ?s)) {} ?s"
    using fresh unfolding sched_ok_def initial_sim_def by (simp add: arrived_def)
  then obtain s1 where s1: "check_node_arrive cfg ?s = Inr s1" "sched_ok cfg tb (Suc (unat (s_time ?s))) {} s1" "same_run ?s s1"
    using check_node_arrive_run [OF ok, of ?s "{}"] by blast
  have t1: "s_time s1 = 0" "s_table s1 = tb" using s1(3) by (simp_all add: same_run_def initial_sim_def)
  have "rejoin_inv cfg MAX_SIZE tb s1" using ok s1(2) arr by (simp add: rejoin_inv_def t1 initial_sim_def le_max_iff_disj)
  moreover have "clock_ok tb s1" by (simp add: clock_ok_def t1)
  moreover have "busy_but 0 s1" using fresh sim_okD(1) [OF ok] by (auto simp: busy_but_def t1 Suc_le_eq)
  ultimately obtain r where r: "arrange_loop cfg go 0 s1 = Some r"
    "r = Inl Out_Of_Range \<or> (\<exists>s' tb'. r = Inr s' \<and> rejoin_inv cfg MAX_SIZE tb' s' \<and> length tb' = length tb)"
    "2 \<le> length tb \<and> (\<forall>j. go j) \<longrightarrow> r = Inl Out_Of_Range"
    using rejoin_loop [OF rejoin order_refl, of tb s1 0 go 0] ne by blast
  have "length (s_table s) = length tb' \<and> (\<forall>i < length tb'. 1 \<le> unat (sgx_time (s_table s ! i)) \<and> sgx_time (s_table s ! i) \<le> sgx_max cfg \<and> time_left (s_table s ! i) \<le> sgx_time (s_table s ! i))"
    if "rejoin_inv cfg MAX_SIZE tb' s" for tb' s
    using that sim_okD(1,2) [of cfg tb'] by (simp add: rejoin_inv_def sched_ok_def)
  then have "r = Inl Out_Of_Range \<or> (\<exists>s. r = Inr s \<and> length (s_table s) = length tb
     \<and> (\<forall>i < length tb. 1 \<le> unat (sgx_time (s_table s ! i)) \<and> sgx_time (s_table s ! i) \<le> sgx_max cfg \<and> time_left (s_table s ! i) \<le> sgx_time (s_table s ! i)))"
    using r(2) by metis
  with r(1,3) s1(1) show ?thesis by (simp add: arrange_def)
qed

theorem rejoining_overruns_witness:
  "arrange (sample_config\<lparr>nodes_rejoin := True\<rparr>) (\<lambda>_. True) (initial_sim (sample_config\<lparr>nodes_rejoin := True\<rparr>) [sample_node 0 1, sample_node 5 1] 0)
     = Some (Inl Out_Of_Range)"
proof -
  let ?cfg = "sample_config\<lparr>nodes_rejoin := True\<rparr>"
  have "sim_ok ?cfg [sample_node 0 1, sample_node 5 1]" using sample_ok(1) by (simp add: sim_ok_def)
  moreover have "unat (arrival_time ([sample_node 0 1, sample_node 5 1] ! i)) \<le> MAX_SIZE" if "i < length [sample_node 0 1, sample_node 5 1]" for i
    using that by (auto simp: sample_node_def MAX_SIZE_def less_Suc_eq)
  ultimately show ?thesis using rejoining_overruns [of ?cfg "[sample_node 0 1, sample_node 5 1]" "\<lambda>_. True" 0] sample_fresh by auto
qed

text \<open>
  A pass that finds every node finished ends the loop, although all of them have just drawn a new time: a
  single node never leads twice.
\<close>

lemma all_finished_stops:
  assumes inv: "rejoin_inv cfg A tb s" and rejoin: "nodes_rejoin cfg" and time: "unat (s_time s + 1) = Suc (unat (s_time s))"
    and fin: "\<forall>i < length tb. time_left (s_table s ! i) = 0"
  shows "\<exists>s'. arrange_loop cfg go k s = Some (Inr s') \<and> (\<forall>i < length tb. 0 < unat (time_left (s_table s' ! i)))"
proof -
  have len: "length (s_table s) = length tb" using inv by (simp add: rejoin_inv_def sched_ok_def)
  have "\<not> (\<exists>i < length tb. 0 < unat (time_left (s_table s ! i)))" using fin by simp
  with time_left_pass [OF inv rejoin time order_refl] obtain s' where
    "is_time_left cfg s = Inr (False, s')" "\<forall>i < length tb. 0 < unat (time_left (s_table s' ! i))" by (auto simp: is_time_left_def len)
  then show ?thesis by (simp add: arrange_loop.simps [of cfg go k s])
qed

end
