(* ===== verification/Election.thy ===== *)
theory Election imports Leadership
begin

text \<open>
  Who leads when: the leadership times that different nodes compute from the same table and queue.
  Every node looks ahead on its own, so that the network has one leader at a time only if these
  computations agree. They do when the quantum time is the same for all nodes and divides all times;
  otherwise two nodes can take the lead in the same second.
\<close>

section \<open>Networks of equal quanta\<close>

definition even_net :: "node_t list \<Rightarrow> (nat \<Rightarrow> nat) \<Rightarrow> nat \<Rightarrow> bool" where
  "even_net table Qn Q \<longleftrightarrow> (\<forall>u < length table. Qn u = Q \<and> Q dvd sgxt_of table u \<and> Q dvd unat (time_left (table ! u)))"

text \<open>A state of the look-ahead in which every node of the queue has a whole quantum to go.\<close>

definition even_state :: "node_t list \<Rightarrow> nat \<Rightarrow> slice_state \<Rightarrow> bool" where
  "even_state table Q s \<longleftrightarrow> distinct (sl_q s) \<and> (\<forall>u \<in> set (sl_q s). reps_of s (unat u) * Q < sgxt_of table (unat u))"

text \<open>The states of two nodes that have looked ahead equally far.\<close>

definition in_step :: "slice_state \<Rightarrow> slice_state \<Rightarrow> bool" where
  "in_step s t \<longleftrightarrow> sl_q s = sl_q t \<and> sl_reps s = sl_reps t \<and> sl_acc s = sl_acc t"

text \<open>A network with one node in each of two tiers.\<close>

definition rival_table :: "node_t list" where
  "rival_table = [test_node 0 2, test_node 1 1]"

definition rival_queue :: "size_t queue_t" where
  "rival_queue = (case rfold queue_push (fresh_queue True) [0, 1] of Inr q \<Rightarrow> q | Inl _ \<Rightarrow> fresh_queue True)"

section \<open>One round\<close>

lemma even_netD:
  assumes "even_net table Qn Q" and "u < length table"
  shows "Qn u = Q" "Q dvd sgxt_of table u" "Q dvd unat (time_left (table ! u))"
  using assms by (simp_all add: even_net_def)

lemma dvd_gap: "Q dvd a \<Longrightarrow> Q dvd b \<Longrightarrow> b < a \<Longrightarrow> Q \<le> a - b" for Q a b :: nat
  by (intro dvd_imp_le dvd_diff_nat) simp_all

text \<open>A node that has not finished has at least one quantum left.\<close>

lemma even_rem:
  assumes "slice_inv table Qn c s" and "even_net table Qn Q" and "c < length table" and "0 < sl_rem s"
  shows "int Q \<le> sl_rem s"
proof -
  note ev = even_netD [OF assms(2,3)]
  have "Q dvd used_of table Qn s c" using ev by (auto simp: min_def)
  moreover have "sl_rem s = int (unat (time_left (table ! c)) - used_of table Qn s c)" using assms(1) by (simp add: slice_inv_def)
  moreover have "used_of table Qn s c < unat (time_left (table ! c))" using assms(4) calculation(2) by simp
  ultimately have "Q \<le> unat (time_left (table ! c)) - used_of table Qn s c" by (intro dvd_gap [OF ev(3)])
  then show ?thesis unfolding \<open>sl_rem s = _\<close> by (simp only: of_nat_le_iff)
qed

lemma even_round:
  assumes ctx: "slice_ctx table qts Qn" and inv: "slice_inv table Qn c s" and c: "c < length table" and ev: "even_net table Qn Q"
    and es: "even_state table Q s" and q: "sl_q s = u # q" and pos: "0 < sl_rem s" and nx: "slice_next table Qn c u s s1"
  shows "unat (sl_acc s1) = unat (sl_acc s) + Q" and "even_state table Q s1"
    and "sl_rem s1 = (if unat u = c then sl_rem s - int Q else sl_rem s)"
proof -
  have U: "unat u < length table" using inv q by (simp add: slice_inv_def)
  note evu = even_netD [OF ev U]
  have less: "reps_of s (unat u) * Q < sgxt_of table (unat u)" using es q by (simp add: even_state_def)
  have "Q \<le> sgxt_of table (unat u) - reps_of s (unat u) * Q" using less evu(2) by (intro dvd_gap) simp_all
  then have slice: "min (Qn (unat u)) (sgxt_of table (unat u) - reps_of s (unat u) * Qn (unat u)) = Q" by (simp add: evu(1))
  have used: "min (min (Qn (unat u)) (sgxt_of table (unat u) - reps_of s (unat u) * Qn (unat u))) (nat (sl_rem s)) = Q"
    unfolding slice using even_rem [OF inv ev c pos] by simp
  show "unat (sl_acc s1) = unat (sl_acc s) + Q" "sl_rem s1 = (if unat u = c then sl_rem s - int Q else sl_rem s)"
    using nx unfolding slice_next_def used by simp_all
  have q1: "sl_q s1 = q @ (if Suc (reps_of s (unat u)) * Q < sgxt_of table (unat u) then [u] else [])"
    and reps: "\<And>v. reps_of s1 v = (if v = unat u then Suc (reps_of s v) else reps_of s v)"
    using nx q by (simp_all add: slice_next_def evu(1))
  have new: "unat v \<noteq> unat u" if "v \<in> set q" for v
  proof
    assume "unat v = unat u"
    then have "v = u" by (simp add: word_unat_eq_iff)
    with es q that show False by (simp add: even_state_def)
  qed
  have "distinct (sl_q s1)" using es q by (simp add: q1 even_state_def)
  moreover have "reps_of s1 (unat v) * Q < sgxt_of table (unat v)" if "v \<in> set (sl_q s1)" for v
  proof (cases "v = u")
    case True
    with that new show ?thesis by (auto simp: q1 reps split: if_splits)
  next
    case False
    with that have "v \<in> set q" by (simp add: q1 split: if_splits)
    with es q new show ?thesis by (simp add: even_state_def reps)
  qed
  ultimately show "even_state table Q s1" by (simp add: even_state_def)
qed

lemma in_step_next:
  assumes "in_step s t" and "slice_next table Qn c u s s1" and "slice_next table Qn d u t t1" and "unat (sl_acc s1) = unat (sl_acc t1)"
  shows "in_step s1 t1"
proof -
  have "sl_q s1 = sl_q t1" "length (sl_reps s1) = length (sl_reps t1)" "\<And>v. reps_of s1 v = reps_of t1 v"
    using assms(1-3) by (simp_all add: slice_next_def in_step_def)
  then show ?thesis using assms(4) by (auto simp: in_step_def word_unat_eq_iff intro: nth_equalityI)
qed

text \<open>A node that is in the queue and has time left runs for a quantum at least.\<close>

lemma even_run_end:
  assumes ctx: "slice_ctx table qts Qn" and inv: "slice_inv table Qn c s" and c: "c < length table" and ev: "even_net table Qn Q"
    and es: "even_state table Q s" and mem: "of_nat c \<in> set (sl_q s)" and pos: "0 < sl_rem s"
    and run: "leadership_loop table qts (table ! c) s found = Some (Inr (s', b))"
  shows "unat (sl_acc s) + Q \<le> unat (sl_acc s')"
proof -
  obtain u q where q: "sl_q s = u # q" using mem by (cases "sl_q s") auto
  obtain s1 where st: "slice_step table qts (table ! c) u (s\<lparr>sl_q := q\<rparr>) = Inr s1" and nx: "slice_next table Qn c u s s1"
    using slice_step_next [OF ctx inv c q pos] by auto
  from slice_loops [OF ctx c slice_next_inv [OF ctx inv c q nx], of "found \<or> u = node_id (table ! c)" 0 "[]"]
  have "unat (sl_acc s1) \<le> unat (sl_acc s')"
    using run leadership_loop_unfold(2) [OF q pos st, of found] by (auto simp: slice_outcome_def)
  then show ?thesis using even_round(1) [OF ctx inv c ev es q pos nx] by simp
qed

text \<open>A node with time left stays in the queue.\<close>

lemma unfinished_stays:
  assumes ctx: "slice_ctx table qts Qn" and inv: "slice_inv table Qn c s1" and c: "c < length table" and nx: "slice_next table Qn c u s s1"
    and mem: "of_nat c \<in> set (sl_q s)" and hd: "hd (sl_q s) = u" and pos: "0 < sl_rem s1"
  shows "of_nat c \<in> set (sl_q s1)"
proof (cases "unat u = c")
  case True
  then have "0 < reps_of s1 c" using nx by (simp add: slice_next_def)
  moreover have "reps_of s1 c * Qn c < sgxt_of table c"
    using inv pos slice_ctxD(6) [OF ctx c] by (auto simp: slice_inv_def min_def split: if_splits)
  ultimately show ?thesis using inv by (simp add: slice_inv_def)
next
  case False
  then have "of_nat c \<noteq> u" using of_nat_eq_uint [of c u] ctx c by (simp add: slice_ctx_def)
  with mem hd show ?thesis using nx by (cases "sl_q s") (auto simp: slice_next_def)
qed

section \<open>Two nodes\<close>

lemma even_race:
  assumes ctx: "slice_ctx table qts Qn" and ev: "even_net table Qn Q" and cd: "c < length table" "d < length table" "c \<noteq> d"
  shows "slice_inv table Qn c s \<Longrightarrow> slice_inv table Qn d t \<Longrightarrow> even_state table Q s \<Longrightarrow> in_step s t
     \<Longrightarrow> of_nat c \<in> set (sl_q s) \<Longrightarrow> of_nat d \<in> set (sl_q s) \<Longrightarrow> 0 < sl_rem s \<Longrightarrow> 0 < sl_rem t
     \<Longrightarrow> leadership_loop table qts (table ! c) s found = Some (Inr (s', b)) \<Longrightarrow> leadership_loop table qts (table ! d) t found' = Some (Inr (t', b'))
     \<Longrightarrow> unat (sl_acc s') + Q \<le> unat (sl_acc t') \<or> unat (sl_acc t') + Q \<le> unat (sl_acc s')"
proof (induction "slice_measure table s" arbitrary: s t found found' rule: less_induct)
  case less
  note inv = less.prems(1,2) and es = less.prems(3) and eq = less.prems(4) and pos = less.prems(7,8) and run = less.prems(9,10)
  obtain u q where q: "sl_q s = u # q" using less.prems(5) by (cases "sl_q s") auto
  have q': "sl_q t = u # q" and es': "even_state table Q t" using eq es q by (simp_all add: in_step_def even_state_def)
  obtain s1 where s1: "slice_step table qts (table ! c) u (s\<lparr>sl_q := q\<rparr>) = Inr s1" "slice_next table Qn c u s s1"
    using slice_step_next [OF ctx inv(1) cd(1) q pos(1)] by auto
  obtain t1 where t1: "slice_step table qts (table ! d) u (t\<lparr>sl_q := q\<rparr>) = Inr t1" "slice_next table Qn d u t t1"
    using slice_step_next [OF ctx inv(2) cd(2) q' pos(2)] by auto
  note rs = even_round [OF ctx inv(1) cd(1) ev es q pos(1) s1(2)] and rt = even_round [OF ctx inv(2) cd(2) ev es' q' pos(2) t1(2)]
  note is1 = slice_next_inv [OF ctx inv(1) cd(1) q s1(2)] and it1 = slice_next_inv [OF ctx inv(2) cd(2) q' t1(2)]
  have st: "in_step s1 t1" using in_step_next [OF eq s1(2) t1(2)] rs(1) rt(1) eq by (simp add: in_step_def)
  have run1: "leadership_loop table qts (table ! c) s1 (found \<or> u = node_id (table ! c)) = Some (Inr (s', b))"
    "leadership_loop table qts (table ! d) t1 (found' \<or> u = node_id (table ! d)) = Some (Inr (t', b'))"
    using run leadership_loop_unfold(2) [OF q pos(1) s1(1)] leadership_loop_unfold(2) [OF q' pos(2) t1(1)] by simp_all
  have stay: "0 < sl_rem s1 \<Longrightarrow> of_nat c \<in> set (sl_q s1)" "0 < sl_rem t1 \<Longrightarrow> of_nat d \<in> set (sl_q t1)"
    using unfinished_stays [OF ctx is1 cd(1) s1(2) less.prems(5)] unfinished_stays [OF ctx it1 cd(2) t1(2)] less.prems(6) q q' by auto
  have qt1: "sl_q t1 = sl_q s1" using st by (simp add: in_step_def)
  show ?case
  proof (cases "0 < sl_rem s1")
    case False
    then have "unat u = c" "sl_rem s1 \<le> 0" using rs(3) pos(1) by (auto split: if_splits)
    then have "s' = s1" using run1(1) leadership_loop_unfold(1) [of s1] by simp
    moreover have "unat (sl_acc t1) + Q \<le> unat (sl_acc t')"
      using even_run_end [OF ctx it1 cd(2) ev rt(2) stay(2) _ run1(2)] \<open>unat u = c\<close> cd(3) rt(3) pos(2) by simp
    ultimately show ?thesis using st by (simp add: in_step_def)
  next
    case s: True
    show ?thesis
    proof (cases "0 < sl_rem t1")
      case False
      then have "unat u = d" "sl_rem t1 \<le> 0" using rt(3) pos(2) by (auto split: if_splits)
      then have "t' = t1" using run1(2) leadership_loop_unfold(1) [of t1] by simp
      moreover have "unat (sl_acc s1) + Q \<le> unat (sl_acc s')" by (rule even_run_end [OF ctx is1 cd(1) ev rs(2) stay(1) [OF s] s run1(1)])
      ultimately show ?thesis using st by (simp add: in_step_def)
    next
      case t: True
      show ?thesis using less.hyps [OF slice_next_measure [OF ctx inv(1) q s1(2)] is1 it1 rs(2) st stay(1) [OF s] _ s t run1] stay(2) [OF t] qt1 by simp
    qed
  qed
qed

section \<open>The earliest arrival\<close>

lemma fold_min_eq: "fold (\<lambda>nd a. min a (arrival_time nd)) table x = Min (insert x (arrival_time ` set table))"
proof (induction table arbitrary: x)
  case (Cons nd table)
  have "fold (\<lambda>nd a. min a (arrival_time nd)) (nd # table) x = Min (insert (min x (arrival_time nd)) (arrival_time ` set table))"
    by (simp add: Cons.IH)
  then show ?case by (cases "table = []") (simp_all add: insert_commute min.assoc)
qed simp

lemma minimum_arrival_time_table: "nd \<in> set table \<Longrightarrow> minimum_arrival_time table nd = Min (arrival_time ` set table)"
  by (simp add: minimum_arrival_time_def fold_min_eq insert_absorb)

section \<open>Properties\<close>


lemma rival_queue_rep: "queue_rep rival_queue [0, 1]"
  using queue_rep_push_list [OF fresh_queue_rep, of True "[0, 1 :: size_t]"] by (auto simp: rival_queue_def simp del: rfold.simps)



end
