(* ===== verification/Machine.thy ===== *)
theory Machine imports Prelude
begin

text \<open>
  The interface of the state machines of the development: the threads that take mutexes, the thread
  pool, the connections of the server and the writers of the block file. A machine keeps its
  invariant in every step; a framed machine also bounds what its steps may change.
\<close>

locale machine =
  fixes step :: "'s \<Rightarrow> 's \<Rightarrow> bool" and inv :: "'s \<Rightarrow> bool"
  assumes keeps: "step s s' \<Longrightarrow> inv s \<Longrightarrow> inv s'"
begin

lemma reachable: "step\<^sup>*\<^sup>* s s' \<Longrightarrow> inv s \<Longrightarrow> inv s'"
  by (induction rule: rtranclp_induct) (auto intro: keeps)

text \<open>What holds in all states that satisfy the invariant holds in all reachable ones.\<close>

lemma always: "step\<^sup>*\<^sup>* s s' \<Longrightarrow> inv s \<Longrightarrow> (\<And>t. inv t \<Longrightarrow> P t) \<Longrightarrow> P s'"
  using reachable by blast

end

locale framed_machine = machine step inv
  for step :: "'s \<Rightarrow> 's \<Rightarrow> bool" and inv :: "'s \<Rightarrow> bool" +
  fixes frame :: "'s \<Rightarrow> 's \<Rightarrow> bool"
  assumes frame_refl: "frame s s"
    and frame_trans: "frame s t \<Longrightarrow> frame t u \<Longrightarrow> frame s u"
    and frame_step: "step s s' \<Longrightarrow> inv s \<Longrightarrow> frame s s'"
begin

lemma framed: "step\<^sup>*\<^sup>* s s' \<Longrightarrow> inv s \<Longrightarrow> inv s' \<and> frame s s'"
proof (induction rule: rtranclp_induct)
  case base
  then show ?case by (simp add: frame_refl)
next
  case (step t u)
  then show ?case using keeps frame_step frame_trans by blast
qed

end

end
