(* ===== verification/Registry.thy ===== *)
theory Registry imports Leadership
begin

text \<open>
  The server's shared state (\<^verbatim>\<open>struct global\<close> of \<^verbatim>\<open>general_structs.h\<close> and the file-level variables of
  \<^verbatim>\<open>poet_server_functions.cpp\<close>) and the code that keeps the SGX table and the node queue in step:
  \<^verbatim>\<open>queue_cleanup\<close> with its two callbacks and \<^verbatim>\<open>insert_node_into_sgx_table_and_queue\<close>. Both run with
  the table's mutex and the queue's lock held, so each is one step on the state. Memory for queue
  items and table entries is taken to be available.
\<close>

section \<open>State\<close>

text \<open>The callback state: \<^verbatim>\<open>previous\<close>, \<^verbatim>\<open>repetitions\<close> and whether the callback's assertion held so far.\<close>

record cleanup_state =
  cl_previous :: size_t
  cl_repetitions :: "size_t \<Rightarrow> nat"
  cl_ok :: bool

record 'sock global =
  server_starting_time :: int
  current_id :: uint
  sgxt_lowerbound :: size_t
  sgxmax :: size_t
  n_tiers :: uint
  g_queue :: "size_t queue_t"
  sgx_table :: "node_t list"
  secondary_socket_comms :: "(uint \<times> 'sock) list"
  public_keys :: "string \<Rightarrow> uint option"
  g_cleanup :: cleanup_state

section \<open>Cleaning up the queue\<close>

definition queue_delete_continuous_nodes :: "cleanup_state \<Rightarrow> bool \<Rightarrow> size_t \<Rightarrow> bool \<times> cleanup_state" where
  "queue_delete_continuous_nodes st first d =
     (if first
      then (False, st\<lparr>cl_previous := d, cl_repetitions := (\<lambda>_. 0)(d := 1)\<rparr>)
      else let reps = (cl_repetitions st)(d := cl_repetitions st d + 1) in
           if cl_previous st = d
           then (True, st\<lparr>cl_repetitions := reps(d := reps d - 1), cl_ok := cl_ok st \<and> reps d > 1\<rparr>)
           else (False, st\<lparr>cl_previous := d, cl_repetitions := reps\<rparr>))"

definition queue_delete_repeated_nodes :: "cleanup_state \<Rightarrow> bool \<Rightarrow> size_t \<Rightarrow> bool \<times> cleanup_state" where
  "queue_delete_repeated_nodes st first d =
     (if cl_repetitions st d > 1
      then (True, st\<lparr>cl_repetitions := (cl_repetitions st)(d := cl_repetitions st d - 1)\<rparr>)
      else (False, st))"

text \<open>With \<^verbatim>\<open>lock\<close> the function locks the address of the pointer \<^verbatim>\<open>cond_mutex\<close> instead of the mutex.\<close>

definition queue_cleanup :: "bool \<Rightarrow> 'sock global \<Rightarrow> 'sock global res" where
  "queue_cleanup lock g =
     (if lock then Inl Wild_Pointer
      else if sgx_table g = [] then Inr g
      else
        rbind (queue_pop_custom (g_queue g) False False) (\<lambda>q1.
        rbind (queue_selective_remove True True queue_delete_continuous_nodes (g_cleanup g) q1 False False)
          (\<lambda>(deleted, c1, _, q2).
        rbind (assertc (cl_ok c1)) (\<lambda>_.
        rbind (queue_selective_remove True True queue_delete_repeated_nodes c1 q2 False False)
          (\<lambda>(deleted', c2, _, q3).
        Inr (g\<lparr>g_queue := q3, g_cleanup := c2\<rparr>))))))"

section \<open>Inserting a node\<close>

definition insert_known :: "'sock global \<Rightarrow> node_t \<Rightarrow> 'sock global res" where
  "insert_known g node =
     (let i = unat (node_id node); n = sgx_table g ! i in
      rbind (assertc (node_id n = node_id node)) (\<lambda>_.
      rbind (assertc (sgx_time node = time_left node)) (\<lambda>_.
      let g1 = g\<lparr>sgx_table := (sgx_table g)[i := n\<lparr>sgx_time := sgx_time node,
                 arrival_time := arrival_time node, time_left := time_left node,
                 n_leadership := n_leadership n + 1\<rparr>]\<rparr>;
          (size, q) = queue_size_custom (g_queue g1) False in
      rbind (if of_nat (length (sgx_table g1)) \<le> size then queue_pop_custom q False False else Inr q) (\<lambda>q1.
      rbind (queue_push_custom True q1 (ucast (node_id node)) False False) (\<lambda>q2.
      rbind (queue_cleanup False (g1\<lparr>g_queue := q2\<rparr>)) (\<lambda>g2.
      Inr (g2\<lparr>g_queue := queue_broadcast (g_queue g2)\<rparr>)))))))"

definition insert_new :: "'sock global \<Rightarrow> node_t \<Rightarrow> 'sock global res" where
  "insert_new g node =
     (let g1 = g\<lparr>sgx_table := sgx_table g @ [node]\<rparr> in
      rbind (queue_push_custom True (g_queue g1) (ucast (node_id node)) False False) (\<lambda>q1.
      rbind (queue_cleanup False (g1\<lparr>g_queue := q1\<rparr>)) (\<lambda>g2.
      Inr (g2\<lparr>g_queue := queue_broadcast (g_queue g2)\<rparr>))))"

definition copy_queuet_std_set :: "size_t \<Rightarrow> uint set \<Rightarrow> uint set" where
  "copy_queuet_std_set node_ptr v = insert (ucast node_ptr) v"

text \<open>The ids that are missing from the queue are appended, unless their arrival time is zero.\<close>

definition fill_missing :: "'sock global \<Rightarrow> 'sock global res" where
  "fill_missing g =
     (let (size, q) = queue_size_custom (g_queue g) False in
      if size < of_nat (length (sgx_table g))
      then rbind (queue_print_func_dump_custom q copy_queuet_std_set {} False) (\<lambda>(v, q1).
           rbind (rfold (\<lambda>q i. if of_nat i \<notin> v \<and> arrival_time (sgx_table g ! i) \<noteq> 0
                               then queue_push_custom True q (of_nat i) False False else Inr q)
                   q1 [0..<length (sgx_table g)]) (\<lambda>q2.
           Inr (g\<lparr>g_queue := q2\<rparr>)))
      else Inr (g\<lparr>g_queue := q\<rparr>))"

text \<open>\<open>locks\<close>: whether the mutexes and the queue's lock could be taken, which is asserted.\<close>

definition insert_node_into_sgx_table_and_queue ::
    "bool \<Rightarrow> 'sock global \<Rightarrow> node_t \<Rightarrow> 'sock global res" where
  "insert_node_into_sgx_table_and_queue locks g node =
     rbind (assertc locks) (\<lambda>_.
     rbind (if unat (node_id node) < length (sgx_table g) then insert_known g node else insert_new g node) fill_missing)"

section \<open>Specification\<close>

text \<open>The queue as a list of ids, and the list operations behind the code.\<close>

definition missing_ids :: "node_t list \<Rightarrow> size_t list \<Rightarrow> size_t list" where
  "missing_ids table xs = map of_nat (filter (\<lambda>i. (of_nat i :: size_t) \<notin> set xs \<and> arrival_time (table ! i) \<noteq> 0)
     [0..<length table])"

definition filled :: "node_t list \<Rightarrow> size_t list \<Rightarrow> size_t list" where
  "filled table xs = (if length xs < length table then xs @ missing_ids table xs else xs)"

text \<open>
  The invariant of the registry: the queue object is well formed and holds ids of table entries, no
  id more than twice, every table entry stands at the position its id names, drew a time within the
  server's bounds and has no more than that left.
\<close>

definition entry_ok :: "'sock global \<Rightarrow> nat \<Rightarrow> bool" where
  "entry_ok g i \<longleftrightarrow> unat (node_id (sgx_table g ! i)) = i
     \<and> unat (sgxt_lowerbound g) \<le> unat (sgx_time (sgx_table g ! i))
     \<and> unat (sgx_time (sgx_table g ! i)) \<le> unat (sgxmax g)
     \<and> unat (time_left (sgx_table g ! i)) \<le> unat (sgx_time (sgx_table g ! i))"

definition registry_ok :: "'sock global \<Rightarrow> size_t list \<Rightarrow> bool" where
  "registry_ok g xs \<longleftrightarrow> queue_rep (g_queue g) xs \<and> tolerant (q_heap (g_queue g)) \<and> cl_ok (g_cleanup g)
     \<and> length (sgx_table g) < 2 ^ 30
     \<and> (\<forall>x \<in> set xs. unat x < length (sgx_table g) \<and> count_list xs x \<le> 2)
     \<and> (\<forall>i < length (sgx_table g). entry_ok g i)"

text \<open>What an insertion makes of the table and of the queue.\<close>

definition insert_table :: "node_t list \<Rightarrow> node_t \<Rightarrow> node_t list" where
  "insert_table table nd = (let i = unat (node_id nd) in
     if i < length table
     then table[i := (table ! i)\<lparr>sgx_time := sgx_time nd, arrival_time := arrival_time nd,
            time_left := time_left nd, n_leadership := n_leadership (table ! i) + 1\<rparr>]
     else table @ [nd])"

definition insert_queue :: "node_t list \<Rightarrow> size_t list \<Rightarrow> node_t \<Rightarrow> size_t list" where
  "insert_queue table xs nd =
     (let ys = (if unat (node_id nd) < length table \<and> length table \<le> length xs then tl xs else xs) in
      filled (insert_table table nd) (remdups (tl (ys @ [ucast (node_id nd)]))))"

text \<open>The state after \<^verbatim>\<open>global_variables_initialization\<close> and \<^verbatim>\<open>set_global_constants\<close>.\<close>

definition initial_global :: "bool \<Rightarrow> int \<Rightarrow> size_t \<Rightarrow> size_t \<Rightarrow> uint \<Rightarrow> 'sock global" where
  "initial_global tol start lower upper tiers =
     \<lparr>server_starting_time = start, current_id = 0, sgxt_lowerbound = lower, sgxmax = upper, n_tiers = tiers,
      g_queue = fresh_queue tol, sgx_table = [], secondary_socket_comms = [], public_keys = (\<lambda>_. None),
      g_cleanup = \<lparr>cl_previous = 0, cl_repetitions = (\<lambda>_. 0), cl_ok = True\<rparr>\<rparr>"

section \<open>The callbacks\<close>

lemma remdups_adj_hd: "remdups_adj (x # xs) = x # tl (remdups_adj (x # xs))"
  by (simp add: remdups_adj_Cons split: list.split)

lemma count_remdups_adj:
  "count_list (remdups_adj (x # xs)) d = (if x = d then 1 else 0) + count_list (tl (remdups_adj (x # xs))) d"
proof -
  obtain ys where "remdups_adj (x # xs) = x # ys" using remdups_adj_hd [of x xs] that by metis
  then show ?thesis by simp
qed

lemma continuous_spec:
  assumes "0 < cl_repetitions st (cl_previous st)"
  shows "\<exists>ds st'. selective_remove_spec queue_delete_continuous_nodes False st xs =
       (tl (remdups_adj (cl_previous st # xs)), ds, st')
     \<and> (\<forall>d. cl_repetitions st' d = cl_repetitions st d + count_list (tl (remdups_adj (cl_previous st # xs))) d)
     \<and> cl_ok st' = cl_ok st"
  using assms
proof (induction xs arbitrary: st)
  case (Cons x xs)
  let ?p = "cl_previous st" and ?r = "cl_repetitions st"
  show ?case
  proof (cases "?p = x")
    case True
    let ?st = "st\<lparr>cl_repetitions := ?r, cl_ok := cl_ok st \<and> ?r x + 1 > 1\<rparr>"
    have "queue_delete_continuous_nodes st False x = (True, ?st)"
      using True by (simp add: queue_delete_continuous_nodes_def Let_def)
    moreover have "cl_ok ?st = cl_ok st" using True Cons.prems by simp
    ultimately show ?thesis using Cons.IH [of ?st] Cons.prems True by auto
  next
    case False
    let ?st = "st\<lparr>cl_previous := x, cl_repetitions := ?r(x := ?r x + 1)\<rparr>"
    have "queue_delete_continuous_nodes st False x = (False, ?st)"
      using False by (simp add: queue_delete_continuous_nodes_def Let_def)
    moreover have "tl (remdups_adj (?p # x # xs)) = remdups_adj (x # xs)" using False by simp
    moreover obtain ds st' where "selective_remove_spec queue_delete_continuous_nodes False ?st xs =
        (tl (remdups_adj (x # xs)), ds, st')" "cl_ok st' = cl_ok st"
        "\<forall>d. cl_repetitions st' d = (?r(x := ?r x + 1)) d + count_list (tl (remdups_adj (x # xs))) d"
      using Cons.IH [of ?st] by auto
    moreover have "(?r(x := ?r x + 1)) d + count_list (tl (remdups_adj (x # xs))) d =
        ?r d + count_list (remdups_adj (x # xs)) d" for d
      by (simp add: count_remdups_adj)
    ultimately show ?thesis using remdups_adj_hd [of x xs] by simp
  qed
qed simp

lemma continuous_first:
  "\<exists>ds st'. selective_remove_spec queue_delete_continuous_nodes True st xs = (remdups_adj xs, ds, st')
     \<and> cl_ok st' = cl_ok st \<and> (\<forall>d \<in> set xs. cl_repetitions st' d = count_list (remdups_adj xs) d)"
proof (cases xs)
  case (Cons x ys)
  let ?st = "st\<lparr>cl_previous := x, cl_repetitions := (\<lambda>_. 0)(x := 1)\<rparr>"
  have "queue_delete_continuous_nodes st True x = (False, ?st)"
    by (simp add: queue_delete_continuous_nodes_def)
  moreover obtain ds st' where "selective_remove_spec queue_delete_continuous_nodes False ?st ys =
      (tl (remdups_adj (x # ys)), ds, st')" "cl_ok st' = cl_ok st"
      "\<forall>d. cl_repetitions st' d = ((\<lambda>_. 0)(x := 1)) d + count_list (tl (remdups_adj (x # ys))) d"
    using continuous_spec [of ?st ys] by auto
  ultimately show ?thesis using remdups_adj_hd [of x ys] Cons by (simp add: count_remdups_adj)
qed simp

lemma repeated_spec:
  "(\<forall>d \<in> set xs. cl_repetitions st d = count_list xs d) \<Longrightarrow>
     \<exists>ds st'. selective_remove_spec queue_delete_repeated_nodes first st xs = (remdups xs, ds, st') \<and> cl_ok st' = cl_ok st"
proof (induction xs arbitrary: st first)
  case (Cons x xs)
  let ?r = "cl_repetitions st"
  have x: "?r x = Suc (count_list xs x)" using Cons.prems by simp
  show ?case
  proof (cases "x \<in> set xs")
    case True
    let ?st = "st\<lparr>cl_repetitions := ?r(x := ?r x - 1)\<rparr>"
    have "0 < count_list xs x" using True by (metis count_list_0_iff neq0_conv)
    then have "queue_delete_repeated_nodes st first x = (True, ?st)"
      using x by (simp add: queue_delete_repeated_nodes_def)
    moreover have "\<forall>d \<in> set xs. cl_repetitions ?st d = count_list xs d" using Cons.prems x by auto
    ultimately show ?thesis using Cons.IH [of ?st False] True by auto
  next
    case False
    then have "queue_delete_repeated_nodes st first x = (False, st)"
      using x by (simp add: queue_delete_repeated_nodes_def)
    moreover have "\<forall>d \<in> set xs. cl_repetitions st d = count_list xs d" using Cons.prems False by auto
    ultimately show ?thesis using Cons.IH [of st False] False by auto
  qed
qed simp

lemma remdups_remdups_adj: "remdups (remdups_adj xs) = remdups xs"
  by (induction xs rule: remdups_adj.induct) auto

section \<open>Cleaning up\<close>

lemma queue_cleanup_rep:
  assumes "queue_rep (g_queue g) xs" and "tolerant (q_heap (g_queue g))" and "cl_ok (g_cleanup g)" and "sgx_table g \<noteq> []"
  shows "\<exists>q c. queue_cleanup False g = Inr (g\<lparr>g_queue := q, g_cleanup := c\<rparr>) \<and> queue_rep q (remdups (tl xs))
     \<and> tolerant (q_heap q) \<and> cl_ok c"
proof -
  from queue_rep_pop [OF assms(1), of False False] obtain q1 where
    q1: "queue_pop_custom (g_queue g) False False = Inr q1" "queue_rep q1 (tl xs)" "tolerant (q_heap q1)"
    using assms(2) by auto
  from continuous_first [of "g_cleanup g" "tl xs"] obtain ds c1 where
    c1: "selective_remove_spec queue_delete_continuous_nodes True (g_cleanup g) (tl xs) = (remdups_adj (tl xs), ds, c1)"
      "cl_ok c1" "\<forall>d \<in> set (tl xs). cl_repetitions c1 d = count_list (remdups_adj (tl xs)) d" using assms(3) by auto
  from queue_rep_selective_remove [OF q1(2,3) c1(1), of False True False] obtain q2 where
    q2: "queue_selective_remove True True queue_delete_continuous_nodes (g_cleanup g) q1 False False =
        Inr (length ds, c1, [], q2)" "queue_rep q2 (remdups_adj (tl xs))" "tolerant (q_heap q2)" by auto
  from repeated_spec [of "remdups_adj (tl xs)" c1 True] c1(2,3) obtain ds' c2 where
    c2: "selective_remove_spec queue_delete_repeated_nodes True c1 (remdups_adj (tl xs)) = (remdups (tl xs), ds', c2)" "cl_ok c2"
    by (auto simp: remdups_remdups_adj)
  from queue_rep_selective_remove [OF q2(2,3) c2(1), of False True False] obtain q3 where
    q3: "queue_selective_remove True True queue_delete_repeated_nodes c1 q2 False False =
        Inr (length ds', c2, [], q3)" "queue_rep q3 (remdups (tl xs))" "tolerant (q_heap q3)" by auto
  show ?thesis using assms(4) q1(1) q2(1) q3 c1(2) c2(2) by (auto simp: queue_cleanup_def)
qed

section \<open>Filling up\<close>

lemma push_filter:
  "queue_rep q xs \<Longrightarrow> \<exists>q'. rfold (\<lambda>q i. if P i then queue_push_custom True q (f i) False False else Inr q) q is = Inr q'
     \<and> queue_rep q' (xs @ map f (filter P is)) \<and> tolerant (q_heap q') = tolerant (q_heap q)"
proof (induction "is" arbitrary: q xs)
  case (Cons i "is")
  show ?case
  proof (cases "P i")
    case True
    from queue_rep_push [OF Cons.prems, of "f i" False False] obtain q1 where
      "queue_push_custom True q (f i) False False = Inr q1" "queue_rep q1 (xs @ [f i])"
      "tolerant (q_heap q1) = tolerant (q_heap q)" by auto
    with Cons.IH [of q1 "xs @ [f i]"] True show ?thesis by auto
  qed (use Cons in auto)
qed auto

lemma unat_ucast_uint: "unat x < 2 ^ 32 \<Longrightarrow> unat (ucast (x :: size_t) :: uint) = unat x"
  by (simp add: unsigned_ucast_eq take_bit_nat_eq_self_iff)

lemma unat_of_nat_size_t: "i < 2 ^ 64 \<Longrightarrow> unat (of_nat i :: size_t) = i"
  by (simp add: unat_of_nat)

lemma unat_ucast_size_t: "unat (ucast (x :: uint) :: size_t) = unat x"
  using unsigned_less [of x, where ?'a = nat] by (simp add: unsigned_ucast_eq take_bit_nat_eq_self_iff)

lemma id_in_queue:
  assumes "i < 2 ^ 32" and "\<forall>x \<in> set xs. unat x < 2 ^ 32"
  shows "(of_nat i :: uint) \<in> ucast ` set xs \<longleftrightarrow> (of_nat i :: size_t) \<in> set xs"
proof -
  have "(of_nat i = (ucast x :: uint)) = (of_nat i = x)" if "x \<in> set xs" for x
    using assms that unat_of_nat_uint [of i] unat_of_nat_size_t [of i] unat_ucast_uint [of x]
    by (auto simp: word_unat_eq_iff)
  then show ?thesis by (force simp: image_iff)
qed

lemma copy_set_fold: "fold copy_queuet_std_set xs v = v \<union> ucast ` set xs"
  by (induction xs arbitrary: v) (auto simp: copy_queuet_std_set_def)

lemma fill_missing_rep:
  assumes rep: "queue_rep (g_queue g) xs" and ids: "\<forall>x \<in> set xs. unat x < 2 ^ 32"
    and small: "length xs < 2 ^ 31" "length (sgx_table g) < 2 ^ 31"
  shows "\<exists>q. fill_missing g = Inr (g\<lparr>g_queue := q\<rparr>) \<and> queue_rep q (filled (sgx_table g) xs)
     \<and> tolerant (q_heap q) = tolerant (q_heap (g_queue g))"
proof -
  have size: "queue_size_custom (g_queue g) False = (of_nat (length xs), g_queue g)"
    using queue_rep_size [OF rep small(1), of False] by (simp add: call_def)
  have cmp: "(of_nat (length xs) < (of_nat (length (sgx_table g)) :: size_t)) = (length xs < length (sgx_table g))"
    using small unat_of_nat_size_t [of "length xs"] unat_of_nat_size_t [of "length (sgx_table g)"]
    by (simp add: word_less_nat_alt)
  show ?thesis
  proof (cases "length xs < length (sgx_table g)")
    case True
    let ?P = "\<lambda>i. (of_nat i :: uint) \<notin> ucast ` set xs \<and> arrival_time (sgx_table g ! i) \<noteq> 0"
    have dump: "queue_print_func_dump_custom (g_queue g) copy_queuet_std_set {} False = Inr (ucast ` set xs, g_queue g)"
      using queue_rep_dump [OF rep, of copy_queuet_std_set "{}" False] by (simp add: copy_set_fold call_def)
    have "filter ?P [0..<length (sgx_table g)] =
        filter (\<lambda>i. (of_nat i :: size_t) \<notin> set xs \<and> arrival_time (sgx_table g ! i) \<noteq> 0) [0..<length (sgx_table g)]"
      using small(2) id_in_queue [OF _ ids] by (intro filter_cong) auto
    then show ?thesis
      using push_filter [OF rep, of ?P of_nat "[0..<length (sgx_table g)]"] True
      by (auto simp: fill_missing_def size cmp dump filled_def missing_ids_def)
  next
    case False
    then show ?thesis using rep
      by (intro exI [of _ "g_queue g"]) (simp add: fill_missing_def size cmp filled_def)
  qed
qed

section \<open>Inserting\<close>

lemma queue_rep_broadcast [simp]: "queue_rep (queue_broadcast q) xs = queue_rep q xs"
  by (simp add: queue_broadcast_def)

lemma tolerant_broadcast [simp]: "tolerant (q_heap (queue_broadcast q)) = tolerant (q_heap q)"
  by (simp add: queue_broadcast_def)

lemma cleanup_broadcast_rep:
  assumes "queue_rep (g_queue g) xs" and "tolerant (q_heap (g_queue g))" and "cl_ok (g_cleanup g)" and "sgx_table g \<noteq> []"
  shows "\<exists>q c. rbind (queue_cleanup False g) (\<lambda>g2. Inr (g2\<lparr>g_queue := queue_broadcast (g_queue g2)\<rparr>)) =
       Inr (g\<lparr>g_queue := q, g_cleanup := c\<rparr>) \<and> queue_rep q (remdups (tl xs)) \<and> tolerant (q_heap q) \<and> cl_ok c"
proof -
  from queue_cleanup_rep [OF assms] obtain q c where
    "queue_cleanup False g = Inr (g\<lparr>g_queue := q, g_cleanup := c\<rparr>)" "queue_rep q (remdups (tl xs))"
    "tolerant (q_heap q)" "cl_ok c" by blast
  then show ?thesis by (intro exI [of _ "queue_broadcast q"] exI [of _ c]) simp
qed

lemma set_tl_subset: "set (tl xs) \<subseteq> set xs"
  by (cases xs) auto

lemma queue_rep_pop_if:
  assumes "queue_rep q xs"
  shows "\<exists>q'. (if b then queue_pop_custom q False False else Inr q) = Inr q' \<and> queue_rep q' (if b then tl xs else xs)
     \<and> tolerant (q_heap q') = tolerant (q_heap q)"
  using assms queue_rep_pop [OF assms, of False False] by auto

text \<open>
  Both branches end with the cleaned and broadcast queue; a known node first gives up the front of a
  full queue.
\<close>

lemma insert_known_rep:
  assumes rep: "queue_rep (g_queue g) xs" and tol: "tolerant (q_heap (g_queue g))" and ok: "cl_ok (g_cleanup g)"
    and small: "length xs < 2 ^ 31 - 1" "length (sgx_table g) < 2 ^ 31 - 1" and known: "unat (node_id nd) < length (sgx_table g)"
      "node_id (sgx_table g ! unat (node_id nd)) = node_id nd" "sgx_time nd = time_left nd"
  shows "\<exists>q c. insert_known g nd = Inr (g\<lparr>sgx_table := insert_table (sgx_table g) nd, g_queue := q, g_cleanup := c\<rparr>)
     \<and> queue_rep q (remdups (tl ((if length (sgx_table g) \<le> length xs then tl xs else xs) @ [ucast (node_id nd)])))
     \<and> tolerant (q_heap q) \<and> cl_ok c"
proof -
  let ?n = "length (sgx_table g)" and ?t = "insert_table (sgx_table g) nd"
  let ?ys = "(if ?n \<le> length xs then tl xs else xs) @ [ucast (node_id nd)]"
  have size: "queue_size_custom (g_queue g) False = (of_nat (length xs), g_queue g)"
    using queue_rep_size [OF rep, of False] small(1) by (simp add: call_def)
  have cmp: "((of_nat ?n :: size_t) \<le> of_nat (length xs)) = (?n \<le> length xs)"
    using small unat_of_nat_size_t [of "length xs"] unat_of_nat_size_t [of ?n] by (simp add: word_le_nat_alt)
  from queue_rep_pop_if [OF rep, of "?n \<le> length xs"] obtain q1 where
    q1: "(if ?n \<le> length xs then queue_pop_custom (g_queue g) False False else Inr (g_queue g)) = Inr q1"
    "queue_rep q1 (if ?n \<le> length xs then tl xs else xs)" "tolerant (q_heap q1)" using tol by auto
  from queue_rep_push [OF q1(2), of "ucast (node_id nd)" False False] obtain q2 where
    q2: "queue_push_custom True q1 (ucast (node_id nd)) False False = Inr q2" "queue_rep q2 ?ys" "tolerant (q_heap q2)"
    using q1(3) by auto
  have t: "?t \<noteq> []" using known(1) by (auto simp: insert_table_def Let_def)
  from cleanup_broadcast_rep [of "g\<lparr>sgx_table := ?t, g_queue := q2\<rparr>" ?ys] q2 ok t obtain q c where
    "rbind (queue_cleanup False (g\<lparr>sgx_table := ?t, g_queue := q2\<rparr>)) (\<lambda>g2. Inr (g2\<lparr>g_queue := queue_broadcast (g_queue g2)\<rparr>)) =
       Inr (g\<lparr>sgx_table := ?t, g_queue := q2\<rparr>\<lparr>g_queue := q, g_cleanup := c\<rparr>)"
    "queue_rep q (remdups (tl ?ys))" "tolerant (q_heap q)" "cl_ok c" by auto
  moreover have "insert_known g nd = rbind (queue_cleanup False (g\<lparr>sgx_table := ?t, g_queue := q2\<rparr>))
      (\<lambda>g2. Inr (g2\<lparr>g_queue := queue_broadcast (g_queue g2)\<rparr>))"
    using known by (simp add: insert_known_def insert_table_def Let_def size cmp q1(1) q2(1))
  ultimately show ?thesis by (intro exI [of _ q] exI [of _ c]) simp
qed

lemma insert_new_rep:
  assumes rep: "queue_rep (g_queue g) xs" and tol: "tolerant (q_heap (g_queue g))" and ok: "cl_ok (g_cleanup g)"
    and new: "\<not> unat (node_id nd) < length (sgx_table g)"
  shows "\<exists>q c. insert_new g nd = Inr (g\<lparr>sgx_table := insert_table (sgx_table g) nd, g_queue := q, g_cleanup := c\<rparr>)
     \<and> queue_rep q (remdups (tl (xs @ [ucast (node_id nd)]))) \<and> tolerant (q_heap q) \<and> cl_ok c"
proof -
  let ?t = "insert_table (sgx_table g) nd" and ?ys = "xs @ [ucast (node_id nd)]"
  from queue_rep_push [OF rep, of "ucast (node_id nd)" False False] obtain q2 where
    q2: "queue_push_custom True (g_queue g) (ucast (node_id nd)) False False = Inr q2" "queue_rep q2 ?ys" "tolerant (q_heap q2)"
    using tol by auto
  from cleanup_broadcast_rep [of "g\<lparr>sgx_table := ?t, g_queue := q2\<rparr>" ?ys] q2 ok new obtain q c where
    "rbind (queue_cleanup False (g\<lparr>sgx_table := ?t, g_queue := q2\<rparr>)) (\<lambda>g2. Inr (g2\<lparr>g_queue := queue_broadcast (g_queue g2)\<rparr>)) =
       Inr (g\<lparr>sgx_table := ?t, g_queue := q2\<rparr>\<lparr>g_queue := q, g_cleanup := c\<rparr>)"
    "queue_rep q (remdups (tl ?ys))" "tolerant (q_heap q)" "cl_ok c" by (auto simp: insert_table_def)
  moreover have "insert_new g nd = rbind (queue_cleanup False (g\<lparr>sgx_table := ?t, g_queue := q2\<rparr>))
      (\<lambda>g2. Inr (g2\<lparr>g_queue := queue_broadcast (g_queue g2)\<rparr>))"
    using new by (simp add: insert_new_def insert_table_def Let_def q2(1))
  ultimately show ?thesis by (intro exI [of _ q] exI [of _ c]) simp
qed

lemma insert_refines:
  assumes rep: "queue_rep (g_queue g) xs" and tol: "tolerant (q_heap (g_queue g))" and ok: "cl_ok (g_cleanup g)"
    and ids: "\<forall>x \<in> set xs. unat x < 2 ^ 32" and small: "length xs < 2 ^ 31 - 1" "length (sgx_table g) < 2 ^ 31 - 1"
    and known: "unat (node_id nd) < length (sgx_table g) \<longrightarrow>
      node_id (sgx_table g ! unat (node_id nd)) = node_id nd \<and> sgx_time nd = time_left nd"
  shows "\<exists>q c. insert_node_into_sgx_table_and_queue True g nd =
       Inr (g\<lparr>sgx_table := insert_table (sgx_table g) nd, g_queue := q, g_cleanup := c\<rparr>)
     \<and> queue_rep q (insert_queue (sgx_table g) xs nd) \<and> tolerant (q_heap q) \<and> cl_ok c"
proof -
  let ?i = "unat (node_id nd)" and ?n = "length (sgx_table g)" and ?t = "insert_table (sgx_table g) nd"
  let ?ys = "(if ?i < ?n \<and> ?n \<le> length xs then tl xs else xs) @ [ucast (node_id nd)]"
  obtain q c where 1: "(if ?i < ?n then insert_known g nd else insert_new g nd) =
       Inr (g\<lparr>sgx_table := ?t, g_queue := q, g_cleanup := c\<rparr>)" "queue_rep q (remdups (tl ?ys))" "tolerant (q_heap q)" "cl_ok c"
    using insert_known_rep [OF rep tol ok small, of nd] insert_new_rep [OF rep tol ok, of nd] known
    by (cases "?i < ?n") fastforce+
  let ?g = "g\<lparr>sgx_table := ?t, g_queue := q, g_cleanup := c\<rparr>"
  have sub: "set (remdups (tl ?ys)) \<subseteq> insert (ucast (node_id nd)) (set xs)"
    using set_tl_subset [of xs] set_tl_subset [of ?ys] by (auto split: if_splits)
  have "unat (ucast (node_id nd) :: size_t) < 2 ^ 32"
    using unsigned_less [of "node_id nd", where ?'a = nat] by (simp add: unat_ucast_size_t)
  with sub ids have ids': "\<forall>x \<in> set (remdups (tl ?ys)). unat x < 2 ^ 32" by blast
  have "length (remdups (tl ?ys)) \<le> length (tl ?ys)" by (rule length_remdups_leq)
  also have "\<dots> \<le> length xs" by simp
  finally have len: "length (remdups (tl ?ys)) < 2 ^ 31" using small(1) by linarith
  have tlen: "length ?t < 2 ^ 31" using small(2) by (simp add: insert_table_def Let_def)
  from fill_missing_rep [of ?g "remdups (tl ?ys)"] 1 ids' len tlen obtain q' where
    "fill_missing ?g = Inr (?g\<lparr>g_queue := q'\<rparr>)" "queue_rep q' (insert_queue (sgx_table g) xs nd)" "tolerant (q_heap q')"
    by (auto simp: insert_queue_def Let_def)
  then show ?thesis using 1
    by (intro exI [of _ q'] exI [of _ c]) (simp add: insert_node_into_sgx_table_and_queue_def)
qed

section \<open>The invariant\<close>

lemma of_nat_size_t_inj: "i < 2 ^ 64 \<Longrightarrow> j < 2 ^ 64 \<Longrightarrow> (of_nat i = (of_nat j :: size_t)) = (i = j)"
  by (metis unat_of_nat_size_t)

lemma ids_subset: "\<forall>x \<in> set xs. unat x < n \<Longrightarrow> set xs \<subseteq> (of_nat :: nat \<Rightarrow> size_t) ` {..<n}"
  by (force intro: rev_image_eqI)

lemma registry_length:
  assumes "\<forall>x \<in> set xs. unat (x :: size_t) < n \<and> count_list xs x \<le> 2"
  shows "length xs \<le> 2 * n"
proof -
  have sub: "set xs \<subseteq> (of_nat :: nat \<Rightarrow> size_t) ` {..<n}" using assms ids_subset by blast
  have "length xs = sum (count_list xs) (set xs)" by (simp add: sum_count_set)
  also have "\<dots> \<le> sum (\<lambda>_. 2) (set xs)" using assms by (intro sum_mono) simp
  also have "\<dots> = 2 * card (set xs)" by simp
  also have "card (set xs) \<le> card ((of_nat :: nat \<Rightarrow> size_t) ` {..<n})" using sub by (intro card_mono) auto
  also have "card ((of_nat :: nat \<Rightarrow> size_t) ` {..<n}) \<le> n" by (metis card_image_le card_lessThan finite_lessThan)
  finally show ?thesis by simp
qed

lemma distinct_missing: "length table < 2 ^ 64 \<Longrightarrow> distinct (missing_ids table xs)"
  by (auto simp: missing_ids_def distinct_map inj_on_def of_nat_size_t_inj)

lemma filled_ok:
  assumes dist: "distinct xs" and ids: "\<forall>x \<in> set xs. unat x < length table" and small: "length table < 2 ^ 64"
  shows "distinct (filled table xs)" and "\<forall>x \<in> set (filled table xs). unat x < length table"
    and "\<forall>i < length table. arrival_time (table ! i) \<noteq> 0 \<longrightarrow> of_nat i \<in> set (filled table xs)"
proof -
  show "distinct (filled table xs)"
    using dist distinct_missing [OF small] by (auto simp: filled_def missing_ids_def)
  show "\<forall>x \<in> set (filled table xs). unat x < length table"
    using ids small by (auto simp: filled_def missing_ids_def unat_of_nat_size_t)
  show "\<forall>i < length table. arrival_time (table ! i) \<noteq> 0 \<longrightarrow> of_nat i \<in> set (filled table xs)"
  proof (cases "length xs < length table")
    case False
    let ?all = "(of_nat :: nat \<Rightarrow> size_t) ` {..<length table}"
    have "card ?all \<le> length table" by (metis card_image_le card_lessThan finite_lessThan)
    then have "card ?all \<le> card (set xs)" using False dist by (simp add: distinct_card)
    then have "set xs = ?all" using ids_subset [OF ids] by (intro card_seteq) auto
    then show ?thesis by (auto simp: filled_def)
  qed (auto simp: filled_def missing_ids_def)
qed

lemma count_distinct: "distinct xs \<Longrightarrow> count_list xs x \<le> 1"
  by (induction xs) (auto simp: count_list_0_iff)

lemma insert_keeps:
  fixes g :: "'sock global"
  assumes reg: "registry_ok g xs" and id: "unat (node_id nd) \<le> length (sgx_table g)"
    and room: "Suc (length (sgx_table g)) < 2 ^ 30" and drawn: "sgx_time nd = time_left nd"
    and bounds: "unat (sgxt_lowerbound g) \<le> unat (sgx_time nd)" "unat (sgx_time nd) \<le> unat (sgxmax g)"
  shows "\<exists>q c. let t = insert_table (sgx_table g) nd; ys = insert_queue (sgx_table g) xs nd;
            g' = g\<lparr>sgx_table := t, g_queue := q, g_cleanup := c\<rparr> in
       insert_node_into_sgx_table_and_queue True g nd = Inr g' \<and> registry_ok g' ys \<and> distinct ys
     \<and> (\<forall>i < length t. arrival_time (t ! i) \<noteq> 0 \<longrightarrow> of_nat i \<in> set ys)"
proof -
  let ?n = "length (sgx_table g)" and ?i = "unat (node_id nd)"
  let ?t = "insert_table (sgx_table g) nd" and ?ys = "insert_queue (sgx_table g) xs nd"
  have ids: "\<forall>x \<in> set xs. unat x < ?n" using reg by (auto simp: registry_ok_def)
  then have ids32: "\<forall>x \<in> set xs. unat x < 2 ^ 32" using room by fastforce
  have "length xs \<le> 2 * ?n" using reg registry_length [of xs ?n] by (simp add: registry_ok_def)
  then have small: "length xs < 2 ^ 31 - 1" "?n < 2 ^ 31 - 1" using room by simp_all
  have "unat (node_id (sgx_table g ! ?i)) = ?i" if "?i < ?n" using reg that by (simp add: registry_ok_def entry_ok_def)
  then have known: "?i < ?n \<longrightarrow> node_id (sgx_table g ! ?i) = node_id nd \<and> sgx_time nd = time_left nd"
    using drawn by (auto simp: word_unat_eq_iff)
  from insert_refines [OF _ _ _ ids32 small known] reg obtain q c where
    run: "insert_node_into_sgx_table_and_queue True g nd = Inr (g\<lparr>sgx_table := ?t, g_queue := q, g_cleanup := c\<rparr>)"
    and q: "queue_rep q ?ys" "tolerant (q_heap q)" "cl_ok c" by (auto simp: registry_ok_def)
  have len: "length ?t < 2 ^ 30" "?n \<le> length ?t" "?i < length ?t" using room id by (auto simp: insert_table_def Let_def)
  define zs where "zs = remdups (tl ((if ?i < ?n \<and> ?n \<le> length xs then tl xs else xs) @ [ucast (node_id nd)]))"
  have ys: "?ys = filled ?t zs" by (simp add: insert_queue_def zs_def Let_def)
  have sub: "set zs \<subseteq> insert (ucast (node_id nd)) (set xs)"
    using set_tl_subset [of xs] set_tl_subset [of "(if ?i < ?n \<and> ?n \<le> length xs then tl xs else xs) @ [ucast (node_id nd)]"]
    by (auto simp: zs_def split: if_splits)
  have "unat (ucast (node_id nd) :: size_t) < length ?t" using len by (simp add: unat_ucast_size_t)
  moreover have "\<forall>x \<in> set xs. unat x < length ?t" using ids len(2) by (meson order_less_le_trans)
  ultimately have zs: "\<forall>x \<in> set zs. unat x < length ?t" using sub by blast
  have dist: "distinct zs" by (simp add: zs_def)
  have "entry_ok (g\<lparr>sgx_table := ?t, g_queue := q, g_cleanup := c\<rparr>) j" if "j < length ?t" for j
    using reg that id drawn bounds
    by (auto simp: registry_ok_def entry_ok_def insert_table_def Let_def nth_list_update nth_append less_Suc_eq)
  moreover note filled_ok [OF dist zs] len(1)
  ultimately show ?thesis
    using run q count_distinct [of ?ys] unfolding Let_def
    by (intro exI [of _ q] exI [of _ c]) (auto simp: registry_ok_def ys intro: le_trans [of _ 1 2])
qed

lemma initial_registry: "registry_ok (initial_global True start lower upper tiers) []"
  by (simp add: registry_ok_def initial_global_def fresh_queue_rep) (simp add: fresh_queue_def empty_heap_def)

section \<open>Properties\<close>

text \<open>
  \<^verbatim>\<open>queue_cleanup\<close> drops the front of the node queue and keeps, of every id that remains, its last
  occurrence only, in the same order; the assertion in its first callback never fails. (On a C
  library that tolerates the stale reads of \<^verbatim>\<open>queue_selective_remove\<close>.)
\<close>

theorem queue_cleanup_refines:
  fixes g :: "'sock global"
  assumes "queue_rep (g_queue g) xs" and "tolerant (q_heap (g_queue g))" and "cl_ok (g_cleanup g)" and "sgx_table g \<noteq> []"
  shows "\<exists>g'. queue_cleanup False g = Inr g' \<and> queue_rep (g_queue g') (remdups (tl xs)) \<and> sgx_table g' = sgx_table g"
  using queue_cleanup_rep [OF assms] by force

theorem queue_cleanup_refines_witness:
  "\<exists>(g :: unit global) g'. queue_rep (g_queue g) [3, 1, 1, 2, 1] \<and> queue_cleanup False g = Inr g'
     \<and> queue_rep (g_queue g') [2, 1]"
proof -
  obtain q where q: "queue_rep q [3, 1, 1, 2, 1 :: size_t]" "tolerant (q_heap q)" using queue_rep_exists [of _ True] by blast
  let ?g = "(initial_global True 0 1 9 1 :: unit global)\<lparr>g_queue := q, sgx_table := [test_node 0 5]\<rparr>"
  have "\<exists>g'. queue_cleanup False ?g = Inr g' \<and> queue_rep (g_queue g') (remdups (tl [3, 1, 1, 2, 1])) \<and> sgx_table g' = sgx_table ?g"
    using q by (intro queue_cleanup_refines) (simp_all add: initial_global_def)
  then obtain g' where "queue_cleanup False ?g = Inr g'" "queue_rep (g_queue g') [2, 1]" by auto
  moreover have "queue_rep (g_queue ?g) [3, 1, 1, 2, 1]" using q by simp
  ultimately show ?thesis by blast
qed

text \<open>
  C38. Inserting a node that is known or next in line keeps the registry's invariant: the table holds
  every node at the position of its id, with a time within the bounds, and the queue holds ids of
  the table only. After the insertion no id is in the queue twice and every node whose arrival
  time is not zero is in it.
\<close>

theorem insert_node_keeps_registry:
  fixes g :: "'sock global"
  assumes "registry_ok g xs" and "unat (node_id nd) \<le> length (sgx_table g)"
    and "Suc (length (sgx_table g)) < 2 ^ 30" and "sgx_time nd = time_left nd"
    and "unat (sgxt_lowerbound g) \<le> unat (sgx_time nd)" and "unat (sgx_time nd) \<le> unat (sgxmax g)"
  shows "\<exists>g' ys. insert_node_into_sgx_table_and_queue True g nd = Inr g' \<and> registry_ok g' ys
     \<and> sgx_table g' = insert_table (sgx_table g) nd \<and> distinct ys
     \<and> (\<forall>i < length (sgx_table g'). arrival_time (sgx_table g' ! i) \<noteq> 0 \<longrightarrow> of_nat i \<in> set ys)"
  using insert_keeps [OF assms] by (force simp: Let_def)

theorem insert_node_keeps_registry_witness:
  "\<exists>g' ys. insert_node_into_sgx_table_and_queue True (initial_global True 0 1 9 1 :: unit global)
       ((test_node 0 5)\<lparr>arrival_time := 3\<rparr>) = Inr g' \<and> registry_ok g' ys \<and> 0 \<in> set ys"
  using insert_node_keeps_registry [OF initial_registry [of 0 1 9 1], of "(test_node 0 5)\<lparr>arrival_time := 3\<rparr>"]
  by (fastforce simp: initial_global_def test_node_def insert_table_def)

text \<open>
  A node that joins in the very second the server started has arrival time zero: it enters the
  table, is dropped from the queue by the clean-up of its own insertion, and is not put back.
\<close>

theorem insert_loses_node_of_second_zero:
  fixes g :: "'sock global"
  assumes "registry_ok g []" and "sgx_table g = []" and "node_id nd = 0" and "arrival_time nd = 0"
  shows "\<exists>g'. insert_node_into_sgx_table_and_queue True g nd = Inr g' \<and> sgx_table g' = [nd] \<and> queue_rep (g_queue g') []"
proof -
  have "insert_queue (sgx_table g) [] nd = []"
    using assms(2-4) by (simp add: insert_queue_def insert_table_def filled_def missing_ids_def)
  then show ?thesis
    using insert_refines [of g "[]" nd] assms by (force simp: registry_ok_def insert_table_def)
qed

theorem insert_loses_node_of_second_zero_witness:
  "\<exists>g'. insert_node_into_sgx_table_and_queue True (initial_global True 0 1 9 1 :: unit global) (test_node 0 5) = Inr g'
     \<and> sgx_table g' = [test_node 0 5] \<and> queue_rep (g_queue g') []"
  by (rule insert_loses_node_of_second_zero [OF initial_registry]) (simp_all add: initial_global_def test_node_def)

text \<open>
  The table is filled in the order in which nodes announce their times, but indexed by the ids
  they got at registration: when the second node to register announces first, the announcement of
  the first one fails an assertion and ends the server.
\<close>

theorem insert_out_of_order_aborts:
  fixes g :: "'sock global"
  assumes "registry_ok g []" and "sgx_table g = []" and "node_id n1 = 1" and "node_id n0 = 0"
  shows "rbind (insert_node_into_sgx_table_and_queue True g n1)
     (\<lambda>g'. insert_node_into_sgx_table_and_queue True g' n0) = Inl Assertion_Failed"
proof -
  obtain q c where "insert_node_into_sgx_table_and_queue True g n1 =
      Inr (g\<lparr>sgx_table := [n1], g_queue := q, g_cleanup := c\<rparr>)"
    using insert_refines [of g "[]" n1] assms by (force simp: registry_ok_def insert_table_def)
  then show ?thesis
    using assms by (simp add: insert_node_into_sgx_table_and_queue_def insert_known_def)
qed

theorem insert_out_of_order_aborts_witness:
  "rbind (insert_node_into_sgx_table_and_queue True (initial_global True 0 1 9 1 :: unit global) (test_node 1 5))
     (\<lambda>g'. insert_node_into_sgx_table_and_queue True g' (test_node 0 4)) = Inl Assertion_Failed"
  by (rule insert_out_of_order_aborts [OF initial_registry]) (simp_all add: initial_global_def test_node_def)

end
