(* ===== verification/Json.thy ===== *)
theory Json imports Quantum
begin

text \<open>
  The JSON layer: \<^verbatim>\<open>check_json_compliance\<close>, \<^verbatim>\<open>find_value\<close> and \<^verbatim>\<open>check_json_success_status\<close> of
  \<^verbatim>\<open>poet_shared_functions.cpp\<close>, \<^verbatim>\<open>node_t_to_json\<close> and \<^verbatim>\<open>json_to_node_t\<close> of
  \<^verbatim>\<open>general_structs.cpp\<close>. The JSON checker and parser are libraries outside the repository:
  their functions are the fields of \<open>json_lib\<close>, an argument of the definitions that call them.
  Memory for the search queue is taken to be available.
\<close>

section \<open>Documents\<close>

datatype json =
    JObject "(string \<times> json) list"
  | JArray "json list"
  | JInteger int
  | JDouble
  | JString string
  | JBoolean bool
  | JNull
  | JNone

text \<open>\<^verbatim>\<open>strcmp\<close> reads up to the first zero character.\<close>

definition cstr :: "string \<Rightarrow> string" where
  "cstr s = takeWhile (\<lambda>c. c \<noteq> CHR 0x00) s"

definition streq :: "string \<Rightarrow> string \<Rightarrow> bool" where
  "streq a b \<longleftrightarrow> cstr a = cstr b"

text \<open>
  The library: the checker's constructor, step and final check, the parser (\<open>None\<close> is
  \<^verbatim>\<open>nullptr\<close>) and what the union field \<^verbatim>\<open>u.integer\<close> holds for a value, which for
  \<^verbatim>\<open>json_integer\<close> is the number.
\<close>

record 'c json_lib =
  new_JSON_checker :: "nat \<Rightarrow> 'c"
  JSON_checker_char :: "'c \<Rightarrow> char \<Rightarrow> bool \<times> 'c"
  JSON_checker_done :: "'c \<Rightarrow> bool"
  json_parse :: "string \<Rightarrow> json option"
  u_integer :: "json \<Rightarrow> int"

section \<open>The compliance check\<close>

fun compliance_loop :: "'c json_lib \<Rightarrow> 'c \<Rightarrow> string \<Rightarrow> bool \<times> 'c" where
  "compliance_loop lib jc [] = (True, jc)"
| "compliance_loop lib jc (c # cs) =
     (if c = CHR 0x00 then (True, jc)
      else case JSON_checker_char lib jc c of
             (True, jc') \<Rightarrow> compliance_loop lib jc' cs
           | (False, jc') \<Rightarrow> (False, jc'))"

text \<open>\<open>buffer\<close> holds the first \<^verbatim>\<open>buffer_len\<close> characters.\<close>

definition check_json_compliance :: "'c json_lib \<Rightarrow> string \<Rightarrow> bool" where
  "check_json_compliance lib buffer =
     (if length buffer = 0 then False
      else case compliance_loop lib (new_JSON_checker lib (length buffer)) buffer of
             (is_valid, jc) \<Rightarrow> is_valid \<and> JSON_checker_done lib jc)"

section \<open>Breadth-first search\<close>

fun push_entries ::
    "('s, json) queue_ops \<Rightarrow> string \<Rightarrow> 's \<Rightarrow> (string \<times> json) list \<Rightarrow> (json option \<times> 's) res" where
  "push_entries ops name s [] = Inr (None, s)"
| "push_entries ops name s ((k, v) # es) =
     rbind (op_push ops s v) (\<lambda>s1.
     if streq k name then Inr (Some v, s1) else push_entries ops name s1 es)"

definition visit ::
    "('s, json) queue_ops \<Rightarrow> string \<Rightarrow> 's \<Rightarrow> json \<Rightarrow> (json option \<times> 's) res" where
  "visit ops name s u = (case u of
       JObject es \<Rightarrow> push_entries ops name s es
     | JArray vs \<Rightarrow> rbind (rfold (op_push ops) s vs) (\<lambda>s1. Inr (None, s1))
     | _ \<Rightarrow> Inr (None, s))"

text \<open>
  The \<^verbatim>\<open>while\<close> loop. Every round takes one value out of the queue and no value enters it twice, so
  the number of values of the document, which \<open>find_value\<close> passes, is fuel enough.
\<close>

fun find_loop ::
    "('s, json) queue_ops \<Rightarrow> nat \<Rightarrow> string \<Rightarrow> 's \<Rightarrow> json option \<Rightarrow> (json option \<times> 's) res" where
  "find_loop ops n name s r =
     rbind (op_is_empty ops s) (\<lambda>(e, s1).
     if e \<or> r \<noteq> None then Inr (r, s1)
     else case n of
         0 \<Rightarrow> Inl Diverges
       | Suc m \<Rightarrow> rbind (op_take ops s1) (\<lambda>(u, s2).
           rbind (visit ops name s2 u) (\<lambda>(r', s3). find_loop ops m name s3 r')))"

fun json_values :: "json \<Rightarrow> nat" where
  "json_values (JObject es) = Suc (sum_list (map (\<lambda>e. json_values (snd e)) es))"
| "json_values (JArray vs) = Suc (sum_list (map json_values vs))"
| "json_values _ = 1"

definition find_value :: "json \<Rightarrow> string \<Rightarrow> json option res" where
  "find_value u name =
     rbind (queue_push (fresh_queue True) u) (\<lambda>q.
     rbind (find_loop (linked_ops JNone) (json_values u) name q None) (\<lambda>(r, q').
     rbind (queue_destructor JNone q' False) (\<lambda>_. Inr r)))"

definition check_json_success_status :: "'c json_lib \<Rightarrow> string \<Rightarrow> json option res" where
  "check_json_success_status lib buffer =
     (if check_json_compliance lib buffer
      then case json_parse lib buffer of
             None \<Rightarrow> Inl Assertion_Failed
           | Some json \<Rightarrow> rbind (find_value json ''status'') (\<lambda>status.
               Inr (case status of
                      Some (JString s) \<Rightarrow> if streq s ''success'' then Some json else None
                    | _ \<Rightarrow> Some json))
      else Inr None)"

section \<open>Nodes as JSON\<close>

fun decimal :: "nat \<Rightarrow> string" where
  "decimal n = (if n < 10 then [char_of (48 + n)] else decimal (n div 10) @ [char_of (48 + n mod 10)])"

definition node_text :: "node_t \<Rightarrow> string" where
  "node_text nd =
     ''{\"node_id\": '' @ decimal (unat (node_id nd)) @ '', \"sgx_time\": '' @ decimal (unat (sgx_time nd))
     @ '', \"arrival_time\": '' @ decimal (unat (arrival_time nd))
     @ '', \"time_left\": '' @ decimal (unat (time_left nd))
     @ '', \"n_leadership\": '' @ decimal (unat (n_leadership nd)) @ ''}''"

text \<open>
  \<^verbatim>\<open>NULL\<close> when the first \<^verbatim>\<open>malloc\<close> fails; when only the second does, the larger buffer with the same
  text is returned.
\<close>

definition node_t_to_json :: "bool \<Rightarrow> node_t \<Rightarrow> string option" where
  "node_t_to_json alloc nd = (if alloc then Some (node_text nd) else None)"

text \<open>
  One field: look up its name and store the value through \<open>upd\<close>; \<open>state\<close> turns false for good at
  the first missing field.
\<close>

definition read_field ::
    "'c json_lib \<Rightarrow> json \<Rightarrow> string \<Rightarrow> (int \<Rightarrow> node_t \<Rightarrow> node_t) \<Rightarrow> bool \<times> node_t \<Rightarrow> (bool \<times> node_t) res" where
  "read_field lib doc name upd s =
     (case s of (state, nd) \<Rightarrow>
      if state
      then rbind (find_value doc name) (\<lambda>v. case v of
             None \<Rightarrow> Inr (False, nd)
           | Some value \<Rightarrow> Inr (True, upd (max (u_integer lib value) 0) nd))
      else Inr (False, nd))"

definition json_to_node_t :: "'c json_lib \<Rightarrow> json \<Rightarrow> node_t \<Rightarrow> (bool \<times> node_t) res" where
  "json_to_node_t lib json nd =
     rbind (assertc (case json of JObject _ \<Rightarrow> True | _ \<Rightarrow> False)) (\<lambda>_.
     rbind (read_field lib json ''node_id'' (\<lambda>x nd. nd\<lparr>node_id := of_int x\<rparr>) (True, nd)) (\<lambda>s.
     rbind (read_field lib json ''sgx_time'' (\<lambda>x nd. nd\<lparr>sgx_time := of_int x\<rparr>) s) (\<lambda>s.
     rbind (read_field lib json ''n_leadership'' (\<lambda>x nd. nd\<lparr>n_leadership := of_int x\<rparr>) s) (\<lambda>s.
     rbind (read_field lib json ''time_left''
              (\<lambda>x nd. nd\<lparr>time_left := of_int (min (uint (sgx_time nd)) x)\<rparr>) s) (\<lambda>s.
     read_field lib json ''arrival_time'' (\<lambda>x nd. nd\<lparr>arrival_time := of_int x\<rparr>) s)))))"

section \<open>Specification\<close>

text \<open>The entries and the children of a value.\<close>

definition entries :: "json \<Rightarrow> (string \<times> json) list" where
  "entries u = (case u of JObject es \<Rightarrow> es | _ \<Rightarrow> [])"

definition children :: "json \<Rightarrow> json list" where
  "children u = (case u of JObject es \<Rightarrow> map snd es | JArray vs \<Rightarrow> vs | _ \<Rightarrow> [])"

fun lookup :: "string \<Rightarrow> (string \<times> json) list \<Rightarrow> json option" where
  "lookup name [] = None"
| "lookup name ((k, v) # es) = (if streq k name then Some v else lookup name es)"

text \<open>Search of the queue as a list.\<close>

function bfs :: "string \<Rightarrow> json list \<Rightarrow> json option" where
  "bfs name [] = None"
| "bfs name (u # q) = (case lookup name (entries u) of Some v \<Rightarrow> Some v | None \<Rightarrow> bfs name (q @ children u))"
  by pat_completeness auto

text \<open>An entry \<open>k: v\<close> at depth \<open>d\<close> of a document.\<close>

inductive entry_at :: "nat \<Rightarrow> json \<Rightarrow> string \<Rightarrow> json \<Rightarrow> bool" where
  here: "(k, v) \<in> set (entries u) \<Longrightarrow> entry_at 0 u k v"
| below: "w \<in> set (children u) \<Longrightarrow> entry_at d w k v \<Longrightarrow> entry_at (Suc d) u k v"

text \<open>The documents \<^verbatim>\<open>node_t_to_json\<close> prints, as the parser reads them.\<close>

definition node_json :: "node_t \<Rightarrow> json" where
  "node_json nd = JObject [(''node_id'', JInteger (uint (node_id nd))), (''sgx_time'', JInteger (uint (sgx_time nd))),
     (''arrival_time'', JInteger (uint (arrival_time nd))), (''time_left'', JInteger (uint (time_left nd))),
     (''n_leadership'', JInteger (uint (n_leadership nd)))]"

text \<open>A library for the examples: a checker that accepts everything and a parser that knows one text.\<close>

definition stub_lib :: "string \<Rightarrow> json \<Rightarrow> unit json_lib" where
  "stub_lib s doc = \<lparr>new_JSON_checker = (\<lambda>_. ()), JSON_checker_char = (\<lambda>_ _. (True, ())),
     JSON_checker_done = (\<lambda>_. True), json_parse = (\<lambda>t. if t = s then Some doc else None),
     u_integer = (\<lambda>v. case v of JInteger i \<Rightarrow> i | _ \<Rightarrow> 0)\<rparr>"

lemma json_values_children: "json_values u = Suc (sum_list (map json_values (children u)))"
  by (cases u) (simp_all add: children_def comp_def)

termination bfs
  by (relation "measure (\<lambda>(name, q). sum_list (map json_values q))")
    (auto simp: json_values_children [of u for u])

section \<open>The search over any queue\<close>

text \<open>A queue of JSON values, as \<^verbatim>\<open>find_value\<close> uses it.\<close>

locale json_fifo = fifo ops invar contents
  for ops :: "('s, json) queue_ops" and invar :: "'s \<Rightarrow> bool" and contents :: "'s \<Rightarrow> json list"
begin

lemma push_entries_lookup:
  "invar s \<Longrightarrow> \<exists>s'. push_entries ops name s es = Inr (lookup name es, s') \<and> invar s'
     \<and> (lookup name es = None \<longrightarrow> contents s' = contents s @ map snd es)"
proof (induction es arbitrary: s)
  case (Cons e es)
  obtain k v where e: "e = (k, v)" by (cases e)
  from push_law [OF Cons.prems, of v] obtain s1 where s1: "op_push ops s v = Inr s1" "invar s1"
      "contents s1 = contents s @ [v]" by blast
  from Cons.IH [OF s1(2)] s1 show ?case by (auto simp: e)
qed auto

lemma visit_lookup:
  "invar s \<Longrightarrow> \<exists>s'. visit ops name s u = Inr (lookup name (entries u), s') \<and> invar s'
     \<and> (lookup name (entries u) = None \<longrightarrow> contents s' = contents s @ children u)"
proof (cases u)
  case (JObject es)
  assume "invar s"
  with push_entries_lookup [of s name es] JObject show ?thesis by (simp add: visit_def entries_def children_def)
next
  case (JArray vs)
  assume "invar s"
  with push_all [of s vs] JArray show ?thesis by (auto simp: visit_def entries_def children_def)
qed (auto simp: visit_def entries_def children_def)

lemma find_loop_done: "invar s \<Longrightarrow> \<exists>s'. find_loop ops n name s (Some v) = Inr (Some v, s') \<and> invar s'"
  using is_empty_law [of s] by auto

lemma find_loop_bfs:
  "invar s \<Longrightarrow> sum_list (map json_values (contents s)) \<le> n \<Longrightarrow>
     \<exists>s'. find_loop ops n name s None = Inr (bfs name (contents s), s') \<and> invar s'"
proof (induction n arbitrary: s)
  case 0
  then have "contents s = []" by (cases "contents s") (auto simp: json_values_children)
  with is_empty_law [OF 0(1)] show ?case by auto
next
  case (Suc n)
  from is_empty_law [OF Suc.prems(1)] obtain s1 where
    s1: "op_is_empty ops s = Inr (contents s = [], s1)" "invar s1" "contents s1 = contents s" by blast
  show ?case
  proof (cases "contents s")
    case Nil
    with s1 show ?thesis by auto
  next
    case (Cons u q)
    with s1 take_law [of s1 u q] obtain s2 where
      s2: "op_take ops s1 = Inr (u, s2)" "invar s2" "contents s2 = q" by auto
    from visit_lookup [OF s2(2), of name u] obtain s3 where
      s3: "visit ops name s2 u = Inr (lookup name (entries u), s3)" "invar s3"
        "lookup name (entries u) = None \<longrightarrow> contents s3 = q @ children u" by (auto simp: s2)
    show ?thesis
    proof (cases "lookup name (entries u)")
      case None
      with Suc.prems(2) Cons s3 have "sum_list (map json_values (contents s3)) \<le> n"
        using json_values_children [of u] by simp
      from Suc.IH [OF s3(2) this] None s1 s2 s3 Cons show ?thesis by (simp del: find_loop.simps) (simp add: find_loop.simps [of ops "Suc n"])
    next
      case (Some v)
      with find_loop_done [OF s3(2), of n name v] s1 s2 s3 Cons show ?thesis
        by (simp del: find_loop.simps) (simp add: find_loop.simps [of ops "Suc n"])
    qed
  qed
qed

end

interpretation json_queue: json_fifo "linked_ops null" queue_wf queue_list
  by unfold_locales

lemma find_value_bfs: "find_value u name = Inr (bfs name [u])"
proof -
  from queue_repI [OF fresh_queue_rep] have fresh: "queue_wf (fresh_queue True)" "queue_list (fresh_queue True) = []"
    by blast+
  from linked.push_law [OF fresh(1), of JNone u] fresh(2) obtain q where
    q: "queue_push (fresh_queue True) u = Inr q" "queue_wf q" "queue_list q = [u]" by (auto simp: linked_ops_def)
  from json_queue.find_loop_bfs [OF q(2), of "json_values u" JNone name] q(3) obtain q' where
    q': "find_loop (linked_ops JNone) (json_values u) name q None = Inr (bfs name [u], q')" "queue_wf q'"
    by (auto simp del: find_loop.simps bfs.simps)
  from q'(2) obtain xs where "queue_rep q' xs" by (auto simp: queue_wf_def)
  from queue_rep_destructor [OF this, of JNone False] q(1) q'(1) show ?thesis
    by (auto simp: find_value_def simp del: find_loop.simps bfs.simps)
qed

section \<open>What the search finds\<close>

lemma lookup_Some: "lookup name es = Some v \<Longrightarrow> \<exists>k. (k, v) \<in> set es \<and> streq k name"
  by (induction name es rule: lookup.induct) (auto split: if_splits)

lemma lookup_None: "lookup name es = None \<longleftrightarrow> (\<forall>(k, v) \<in> set es. \<not> streq k name)"
  by (induction name es rule: lookup.induct) auto

text \<open>The search of a queue is the search of its entries, then of the next level.\<close>

lemma bfs_append:
  "bfs name (xs @ ys) = (case lookup name (concat (map entries xs)) of
      Some v \<Rightarrow> Some v | None \<Rightarrow> bfs name (ys @ concat (map children xs)))"
proof (induction xs arbitrary: ys)
  case (Cons x xs)
  have "lookup name (as @ bs) = (case lookup name as of Some v \<Rightarrow> Some v | None \<Rightarrow> lookup name bs)" for as bs
    by (induction name as rule: lookup.induct) auto
  with Cons [of "ys @ children x"] show ?case by (auto split: option.split)
qed simp

lemma bfs_level: "bfs name xs = (case lookup name (concat (map entries xs)) of
    Some v \<Rightarrow> Some v | None \<Rightarrow> bfs name (concat (map children xs)))"
  using bfs_append [of name xs "[]"] by (simp only: append_Nil append_Nil2)

inductive_simps entry_at_0: "entry_at 0 u k v"

inductive_simps entry_at_Suc: "entry_at (Suc d) u k v"

lemma next_level_values:
  "sum_list (map json_values (concat (map children xs))) + length xs = sum_list (map json_values xs)"
proof (induction xs)
  case (Cons x xs)
  with json_values_children [of x] show ?case by simp
qed simp

lemma bfs_shallowest:
  "(case bfs name xs of
      None \<Rightarrow> (\<forall>d u k v. u \<in> set xs \<longrightarrow> entry_at d u k v \<longrightarrow> \<not> streq k name)
    | Some v \<Rightarrow> (\<exists>d u k. u \<in> set xs \<and> entry_at d u k v \<and> streq k name
        \<and> (\<forall>d' u' k' v'. d' < d \<longrightarrow> u' \<in> set xs \<longrightarrow> entry_at d' u' k' v' \<longrightarrow> \<not> streq k' name)))"
proof (induction "sum_list (map json_values xs)" arbitrary: xs rule: less_induct)
  case less
  show ?case
  proof (cases "lookup name (concat (map entries xs))")
    case (Some v)
    from lookup_Some [OF this] obtain k u where "u \<in> set xs" "(k, v) \<in> set (entries u)" "streq k name" by auto
    then have "entry_at 0 u k v" by (intro entry_at.here)
    with \<open>u \<in> set xs\<close> \<open>streq k name\<close> show ?thesis by (subst bfs_level) (auto simp: Some)
  next
    case None
    then have top: "\<not> streq k name" if "u \<in> set xs" "entry_at 0 u k v" for u k v
      using that by (auto simp: lookup_None entry_at_0)
    show ?thesis
    proof (cases "xs = []")
      case False
      let ?next = "concat (map children xs)"
      have "sum_list (map json_values ?next) + length xs = sum_list (map json_values xs)"
        using next_level_values .
      with False have "sum_list (map json_values ?next) < sum_list (map json_values xs)" by (cases xs) simp_all
      note IH = less.hyps [OF this]
      have eq: "bfs name xs = bfs name ?next" by (subst bfs_level) (simp add: None)
      show ?thesis
      proof (cases "bfs name ?next")
        case None
        with IH have deep: "\<forall>d u k v. u \<in> set ?next \<longrightarrow> entry_at d u k v \<longrightarrow> \<not> streq k name" by simp
        have "\<not> streq k name" if "u \<in> set xs" "entry_at d u k v" for d u k v
          using that deep top by (cases d) (auto simp: entry_at_Suc)
        then show ?thesis using None eq by simp
      next
        case (Some v)
        with IH obtain d w k where w: "w \<in> set ?next" "entry_at d w k v" "streq k name"
          and min: "\<forall>d' u' k' v'. d' < d \<longrightarrow> u' \<in> set ?next \<longrightarrow> entry_at d' u' k' v' \<longrightarrow> \<not> streq k' name" by auto
        from w obtain u where u: "u \<in> set xs" "entry_at (Suc d) u k v" by (auto intro: entry_at.below)
        have "\<not> streq k' name" if "d' < Suc d" "u' \<in> set xs" "entry_at d' u' k' v'" for d' u' k' v'
          using that min top by (cases d') (auto simp: entry_at_Suc)
        then show ?thesis unfolding eq Some option.case using u w(3) by blast
      qed
    qed simp
  qed
qed

section \<open>Compliance\<close>

lemma compliance_cstr: "compliance_loop lib jc buffer = compliance_loop lib jc (cstr buffer)"
  by (induction lib jc buffer rule: compliance_loop.induct) (auto simp: cstr_def split: prod.split bool.split)

section \<open>Nodes\<close>

lemma read_field_eq:
  "read_field lib doc name upd (True, nd) = Inr (case bfs name [doc] of
      None \<Rightarrow> (False, nd) | Some v \<Rightarrow> (True, upd (max (u_integer lib v) 0) nd))"
  "read_field lib doc name upd (False, nd) = Inr (False, nd)"
  by (simp_all add: read_field_def find_value_bfs split: option.split)

lemma rbind_total: "\<exists>x. m = Inr x \<Longrightarrow> (\<And>x. \<exists>y. f x = Inr y) \<Longrightarrow> \<exists>y. rbind m f = Inr y"
  by auto

lemma read_field_total: "\<exists>s'. read_field lib doc name upd s = Inr s'"
  by (cases s; cases "fst s") (auto simp: read_field_eq split: option.split)

lemma json_to_node_t_total: "\<exists>s. json_to_node_t lib (JObject es) nd = Inr s"
  unfolding json_to_node_t_def by (intro rbind_total read_field_total) simp

lemma clamp_le: "0 \<le> x \<Longrightarrow> (of_int (min (uint w) x) :: uint) \<le> w" for w :: uint
proof -
  assume x: "0 \<le> x"
  let ?y = "min (uint w) x"
  have "0 \<le> ?y" "?y < 2 ^ LENGTH(32)" using x uint_lt2p [of w] by (auto simp: min_def)
  then have "uint (of_int ?y :: uint) = ?y" by (simp add: uint_word_of_int)
  then show ?thesis by (simp add: word_le_def)
qed

lemma of_int_uint_max: "(of_int (max (uint w) 0) :: uint) = w" for w :: uint
  by (simp add: max_def)

lemma read_field_True:
  "read_field lib doc name upd s = Inr (True, nd') \<Longrightarrow> \<exists>nd x. s = (True, nd) \<and> 0 \<le> x \<and> nd' = upd x nd"
  by (cases s; cases "fst s") (auto simp: read_field_eq split: option.splits, (metis max.cobounded2)+)

lemma json_to_node_t_success:
  assumes "json_to_node_t lib doc nd = Inr (True, nd')"
  shows "\<exists>a b c d e. nd' = nd\<lparr>node_id := a, sgx_time := b, n_leadership := c, time_left := d, arrival_time := e\<rparr> \<and> d \<le> b"
proof -
  from assms obtain s1 s2 s3 s4 where
    "read_field lib doc ''node_id'' (\<lambda>x nd. nd\<lparr>node_id := of_int x\<rparr>) (True, nd) = Inr s1"
    "read_field lib doc ''sgx_time'' (\<lambda>x nd. nd\<lparr>sgx_time := of_int x\<rparr>) s1 = Inr s2"
    "read_field lib doc ''n_leadership'' (\<lambda>x nd. nd\<lparr>n_leadership := of_int x\<rparr>) s2 = Inr s3"
    "read_field lib doc ''time_left'' (\<lambda>x nd. nd\<lparr>time_left := of_int (min (uint (sgx_time nd)) x)\<rparr>) s3 = Inr s4"
    and e: "read_field lib doc ''arrival_time'' (\<lambda>x nd. nd\<lparr>arrival_time := of_int x\<rparr>) s4 = Inr (True, nd')"
    unfolding json_to_node_t_def rbind_eq_Inr by blast
  then show ?thesis
    by (auto dest!: read_field_True) (metis clamp_le)
qed

lemma node_json_bfs:
  "bfs ''node_id'' [node_json nd] = Some (JInteger (uint (node_id nd)))"
  "bfs ''sgx_time'' [node_json nd] = Some (JInteger (uint (sgx_time nd)))"
  "bfs ''arrival_time'' [node_json nd] = Some (JInteger (uint (arrival_time nd)))"
  "bfs ''time_left'' [node_json nd] = Some (JInteger (uint (time_left nd)))"
  "bfs ''n_leadership'' [node_json nd] = Some (JInteger (uint (n_leadership nd)))"
  by (simp_all add: node_json_def entries_def streq_def cstr_def)

lemma json_to_node_t_node_json:
  assumes ints: "\<And>i. u_integer lib (JInteger i) = i"
  shows "json_to_node_t lib (node_json nd) x = Inr (True, nd\<lparr>time_left := min (time_left nd) (sgx_time nd)\<rparr>)"
proof -
  have "(of_int (min (uint s) (max (uint t) 0)) :: uint) = min t s" for s t :: uint
    by (auto simp: min_def max_def word_le_def)
  then show ?thesis
    by (simp add: json_to_node_t_def read_field_eq node_json_bfs ints of_int_uint_max del: bfs.simps)
       (simp add: node_json_def)
qed

section \<open>Properties\<close>

text \<open>
  C21. \<^verbatim>\<open>find_value\<close> ends, fails no assertion, and returns the value of an entry with the given name
  at the smallest depth of the document; it returns \<^verbatim>\<open>nullptr\<close> only when no entry at any depth has
  that name.
\<close>

theorem find_value_shallowest:
  "\<exists>r. find_value u name = Inr r \<and>
     (case r of
        None \<Rightarrow> (\<forall>d k v. entry_at d u k v \<longrightarrow> \<not> streq k name)
      | Some v \<Rightarrow> (\<exists>d k. entry_at d u k v \<and> streq k name
          \<and> (\<forall>d' k' v'. d' < d \<longrightarrow> entry_at d' u k' v' \<longrightarrow> \<not> streq k' name)))"
  using bfs_shallowest [where name = name and xs = "[u]"] unfolding find_value_bfs
  by (cases "bfs name [u]") (simp_all del: bfs.simps)

theorem find_value_shallowest_witness:
  "\<not> entry_at 0 (JObject [(''a'', JObject [(''status'', JNull)])]) ''status'' JNull
   \<and> (\<exists>r. find_value (JObject [(''a'', JObject [(''status'', JNull)])]) ''status'' = Inr r \<and> r = Some JNull)"
proof -
  let ?doc = "JObject [(''a'', JObject [(''status'', JNull)])]"
  obtain r where r: "find_value ?doc ''status'' = Inr r"
    "r = None \<Longrightarrow> \<not> entry_at 1 ?doc ''status'' JNull" "\<And>v. r = Some v \<Longrightarrow> \<exists>d k. entry_at d ?doc k v \<and> streq k ''status''"
    using find_value_shallowest [of ?doc "''status''"] by (fastforce simp: streq_def split: option.splits)
  have "bfs ''status'' [?doc] = Some JNull" by code_simp
  with r(1) find_value_bfs [of ?doc "''status''"] show ?thesis by (auto simp: entry_at_0 entries_def)
qed

text \<open>
  The compliance check sees a buffer only up to its first zero character: two buffers of the
  same length with the same text before it get the same verdict, whatever follows.
\<close>

theorem check_json_compliance_prefix:
  assumes "length a = length b" and "cstr a = cstr b"
  shows "check_json_compliance lib a = check_json_compliance lib b"
  using assms compliance_cstr [of lib _ a] compliance_cstr [of lib _ b]
  by (simp add: check_json_compliance_def)

theorem check_json_compliance_prefix_witness:
  "check_json_compliance (stub_lib [] JNull) [CHR ''1'', CHR 0x00, CHR ''x''] =
   check_json_compliance (stub_lib [] JNull) [CHR ''1'', CHR 0x00, CHR ''y'']"
  by (rule check_json_compliance_prefix) (simp_all add: cstr_def)

text \<open>
  C22. \<^verbatim>\<open>json_to_node_t\<close> fails only by its assertion, on a document that is not an object. When it
  reports success, the node it filled in has no more time left than it drew, whatever numbers the
  document held.
\<close>

theorem json_to_node_t_clamps:
  "(\<exists>ok nd'. json_to_node_t lib (JObject es) nd = Inr (ok, nd') \<and> (ok \<longrightarrow> unat (time_left nd') \<le> unat (sgx_time nd')))
   \<and> json_to_node_t lib (JArray vs) nd = Inl Assertion_Failed"
proof -
  obtain ok nd' where run: "json_to_node_t lib (JObject es) nd = Inr (ok, nd')"
    using json_to_node_t_total [of lib es nd] by (metis surj_pair)
  have "unat (time_left nd') \<le> unat (sgx_time nd')" if ok
    using run json_to_node_t_success [of lib "JObject es" nd nd'] that by (auto simp: word_le_nat_alt)
  with run show ?thesis by (simp add: json_to_node_t_def)
qed

theorem json_to_node_t_clamps_witness:
  "\<exists>nd'. json_to_node_t (stub_lib [] JNull) (node_json ((test_node 1 5)\<lparr>time_left := 9\<rparr>)) (test_node 0 0) = Inr (True, nd')
     \<and> unat (time_left nd') \<le> unat (sgx_time nd')"
proof -
  let ?nd = "(test_node 1 5)\<lparr>time_left := 9\<rparr>" and ?lib = "stub_lib [] JNull"
  obtain es where es: "node_json ?nd = JObject es" by (simp add: node_json_def)
  have "\<exists>nd'. json_to_node_t ?lib (node_json ?nd) (test_node 0 0) = Inr (True, nd')"
    by (simp add: json_to_node_t_def read_field_eq node_json_bfs del: bfs.simps) (simp add: node_json_def)
  with json_to_node_t_clamps [of ?lib es "test_node 0 0" "[]"] show ?thesis by (auto simp: es)
qed



end
