(* ===== verification/Base64.thy ===== *)
theory Base64 imports Prelude
begin

text \<open>
  \<^verbatim>\<open>base64.c\<close> and the text encodings of \<^verbatim>\<open>general_structs.cpp\<close> that carry public keys and
  signatures: \<^verbatim>\<open>base64_encode\<close>, \<^verbatim>\<open>base64_decode\<close>, \<^verbatim>\<open>encode_64base\<close>, \<^verbatim>\<open>decode_64base\<close>,
  \<^verbatim>\<open>encode_hex\<close>, \<^verbatim>\<open>hexchr2bin\<close> and \<^verbatim>\<open>decode_hex\<close>. Bytes are 8-bit words, buffers are lists of
  bytes, and a write that does not fit its buffer is the fault \<open>Out_Of_Range\<close>. The argument
  \<open>alloc\<close> says whether \<^verbatim>\<open>malloc\<close> succeeds.
\<close>

unbundle bit_operations_syntax

section \<open>Base64\<close>

definition base64_table :: "uchar list" where
  "base64_table = map of_nat ([65..<91] @ [97..<123] @ [48..<58] @ [43, 47])"

text \<open>The characters \<^verbatim>\<open>'='\<close> and \<^verbatim>\<open>'\n'\<close>.\<close>

definition pad_char :: uchar where "pad_char = 61"

definition newline :: uchar where "newline = 10"

text \<open>\<^verbatim>\<open>*pos++ = c\<close> for a block of \<open>cap\<close> bytes.\<close>

fun put :: "nat \<Rightarrow> uchar list \<Rightarrow> uchar list \<Rightarrow> uchar list res" where
  "put cap out [] = Inr out"
| "put cap out (c # cs) = (if length out < cap then put cap (out @ [c]) cs else Inl Out_Of_Range)"

text \<open>The character of a six-bit group.\<close>

definition chr64 :: "uchar \<Rightarrow> uchar" where
  "chr64 i = base64_table ! unat i"

definition block3 :: "uchar \<Rightarrow> uchar \<Rightarrow> uchar \<Rightarrow> uchar list" where
  "block3 a b c = [chr64 (drop_bit 2 a), chr64 (push_bit 4 (a AND 3) OR drop_bit 4 b),
     chr64 (push_bit 2 (b AND 15) OR drop_bit 6 c), chr64 (c AND 63)]"

text \<open>The loop over whole blocks: the rest of the input, the length of the line and the output.\<close>

fun encode_blocks :: "nat \<Rightarrow> uchar list \<Rightarrow> nat \<Rightarrow> uchar list \<Rightarrow> (uchar list \<times> nat \<times> uchar list) res" where
  "encode_blocks cap (a # b # c # inp) line_len out =
     rbind (put cap out (block3 a b c)) (\<lambda>out.
     if line_len + 4 \<ge> 72
     then rbind (put cap out [newline]) (encode_blocks cap inp 0)
     else encode_blocks cap inp (line_len + 4) out)"
| "encode_blocks cap inp line_len out = Inr (inp, line_len, out)"

fun encode_tail :: "nat \<Rightarrow> uchar list \<Rightarrow> nat \<Rightarrow> uchar list \<Rightarrow> (nat \<times> uchar list) res" where
  "encode_tail cap [] line_len out = Inr (line_len, out)"
| "encode_tail cap [a] line_len out =
     rbind (put cap out [chr64 (drop_bit 2 a), chr64 (push_bit 4 (a AND 3)), pad_char, pad_char]) (\<lambda>out.
     Inr (line_len + 4, out))"
| "encode_tail cap (a # b # inp) line_len out =
     rbind (put cap out [chr64 (drop_bit 2 a), chr64 (push_bit 4 (a AND 3) OR drop_bit 4 b),
        chr64 (push_bit 2 (b AND 15)), pad_char]) (\<lambda>out.
     Inr (line_len + 4, out))"

text \<open>The size of the output block, computed in \<^verbatim>\<open>size_t\<close>.\<close>

definition encode_olen :: "size_t \<Rightarrow> size_t" where
  "encode_olen len = (let olen = len * 4 div 3 + 4 in olen + olen div 72 + 1)"

text \<open>The bytes before the terminating zero, whose number is \<^verbatim>\<open>*out_len\<close>; \<open>None\<close> is \<^verbatim>\<open>NULL\<close>.\<close>

definition base64_encode :: "bool \<Rightarrow> uchar list \<Rightarrow> uchar list option res" where
  "base64_encode alloc src =
     (let len = of_nat (length src); olen = encode_olen len; cap = unat olen in
      if olen < len \<or> \<not> alloc then Inr None
      else rbind (encode_blocks cap src 0 []) (\<lambda>(inp, line_len, out).
           rbind (encode_tail cap inp line_len out) (\<lambda>(line_len, out).
           rbind (if line_len > 0 then put cap out [newline] else Inr out) (\<lambda>out.
           rbind (put cap out [0]) (\<lambda>_. Inr (Some out))))))"

definition dtable :: "uchar list" where
  "dtable = (fold (\<lambda>i d. d[unat (base64_table ! i) := of_nat i]) [0..<64] (replicate 256 0x80))
     [unat pad_char := 0]"

definition dvalue :: "uchar \<Rightarrow> uchar" where
  "dvalue c = dtable ! unat c"

definition block4 :: "uchar list \<Rightarrow> uchar list" where
  "block4 b = [push_bit 2 (b ! 0) OR drop_bit 4 (b ! 1), push_bit 4 (b ! 1) OR drop_bit 2 (b ! 2),
     push_bit 6 (b ! 2) OR b ! 3]"

fun decode_loop :: "nat \<Rightarrow> uchar list \<Rightarrow> uchar list \<Rightarrow> nat \<Rightarrow> uchar list \<Rightarrow> uchar list option res" where
  "decode_loop cap [] block pad out = Inr (Some out)"
| "decode_loop cap (c # cs) block pad out =
     (let tmp = dvalue c in
      if tmp = 0x80 then decode_loop cap cs block pad out
      else
        let pad = (if c = pad_char then pad + 1 else pad); block = block @ [tmp] in
        if length block = 4
        then rbind (put cap out (block4 block)) (\<lambda>out.
             if pad = 0 then decode_loop cap cs [] pad out
             else if pad = 1 then Inr (Some (take (length out - 1) out))
             else if pad = 2 then Inr (Some (take (length out - 2) out))
             else Inr None)
        else decode_loop cap cs block pad out)"

definition base64_decode :: "bool \<Rightarrow> uchar list \<Rightarrow> uchar list option res" where
  "base64_decode alloc src =
     (let count = length (filter (\<lambda>c. dvalue c \<noteq> 0x80) src) in
      if count = 0 \<or> count mod 4 \<noteq> 0 \<or> \<not> alloc then Inr None
      else decode_loop (count div 4 * 3) src [] 0 [])"

text \<open>
  \<^verbatim>\<open>encode_64base\<close> overwrites the last byte before the terminator, the line feed: what remains is the
  string up to it. With no output that byte lies before the block.
\<close>

definition encode_64base :: "bool \<Rightarrow> uchar list \<Rightarrow> uchar list option res" where
  "encode_64base alloc buffer =
     rbind (base64_encode alloc buffer) (\<lambda>r. case r of
        None \<Rightarrow> Inr None
      | Some out \<Rightarrow> if out = [] then Inl Out_Of_Range else Inr (Some (butlast out)))"

definition decode_64base :: "bool \<Rightarrow> uchar list \<Rightarrow> uchar list option res" where
  "decode_64base alloc buffer = base64_decode alloc buffer"

section \<open>Hexadecimal\<close>

definition buf_write :: "uchar list \<Rightarrow> nat \<Rightarrow> uchar list \<Rightarrow> uchar list res" where
  "buf_write buf k bs = (if k + length bs \<le> length buf
     then Inr (take k buf @ bs @ drop (k + length bs) buf) else Inl Out_Of_Range)"

definition hex_digit :: "uchar \<Rightarrow> uchar" where
  "hex_digit n = (if n < 10 then 48 + n else 87 + n)"

text \<open>\<^verbatim>\<open>sprintf\<close> with \<^verbatim>\<open>%02x\<close> writes two digits and a zero.\<close>

definition encode_hex :: "bool \<Rightarrow> uchar list \<Rightarrow> uchar list option res" where
  "encode_hex alloc buffer =
     (let wbuffer_len = unat (of_nat (length buffer) * 2 + 10 :: size_t) in
      if \<not> alloc then Inr None
      else rbind (rfold (\<lambda>wbuffer i.
             rbind (assertc (2 * i < wbuffer_len)) (\<lambda>_.
             buf_write wbuffer (2 * i) [hex_digit (drop_bit 4 (buffer ! i)), hex_digit (buffer ! i AND 15), 0]))
             (replicate wbuffer_len 0) [0..<length buffer]) (\<lambda>wbuffer. Inr (Some wbuffer)))"

definition hexchr2bin :: "uchar \<Rightarrow> uchar" where
  "hexchr2bin hex = (if 48 \<le> hex \<and> hex \<le> 57 then hex - 48
     else if 65 \<le> hex \<and> hex \<le> 70 then hex - 65 + 10
     else if 97 \<le> hex \<and> hex \<le> 102 then hex - 97 + 10
     else 0)"

text \<open>\<open>buffer\<close> is the memory the pointer leads to, \<open>buffer_len\<close> the length argument.\<close>

definition decode_hex :: "bool \<Rightarrow> uchar list \<Rightarrow> nat \<Rightarrow> uchar list option res" where
  "decode_hex alloc buffer buffer_len =
     rbind (assertc (buffer_len > 0)) (\<lambda>_.
     let wbuff_len = buffer_len div 2 + 1 in
     if \<not> alloc then Inr None
     else rbind (rfold (\<lambda>(wbuffer, pos) i.
            rbind (assertc (pos < wbuff_len)) (\<lambda>_.
            rbind (vec_get buffer (2 * i)) (\<lambda>h.
            rbind (vec_get buffer (2 * i + 1)) (\<lambda>l.
            rbind (vec_set wbuffer pos (push_bit 4 (hexchr2bin h) OR hexchr2bin l)) (\<lambda>wbuffer.
            Inr (wbuffer, pos + 1))))))
            (replicate wbuff_len 0, 0) [0..<(buffer_len + 1) div 2]) (\<lambda>(wbuffer, _). Inr (Some wbuffer)))"

text \<open>The encoded text with its line feeds, and without them.\<close>

fun enc_lines :: "uchar list \<Rightarrow> nat \<Rightarrow> uchar list" where
  "enc_lines (a # b # c # inp) l =
     block3 a b c @ (if l + 4 \<ge> 72 then newline # enc_lines inp 0 else enc_lines inp (l + 4))"
| "enc_lines [] l = (if l > 0 then [newline] else [])"
| "enc_lines [a] l = [chr64 (drop_bit 2 a), chr64 (push_bit 4 (a AND 3)), pad_char, pad_char, newline]"
| "enc_lines [a, b] l = [chr64 (drop_bit 2 a), chr64 (push_bit 4 (a AND 3) OR drop_bit 4 b),
     chr64 (push_bit 2 (b AND 15)), pad_char, newline]"

fun enc :: "uchar list \<Rightarrow> uchar list" where
  "enc (a # b # c # inp) = block3 a b c @ enc inp"
| "enc [] = []"
| "enc [a] = [chr64 (drop_bit 2 a), chr64 (push_bit 4 (a AND 3)), pad_char, pad_char]"
| "enc [a, b] = [chr64 (drop_bit 2 a), chr64 (push_bit 4 (a AND 3) OR drop_bit 4 b),
     chr64 (push_bit 2 (b AND 15)), pad_char]"

abbreviation valid64 :: "uchar \<Rightarrow> bool" where
  "valid64 c \<equiv> dvalue c \<noteq> 0x80"

text \<open>The digits of the bytes, most significant first.\<close>

definition hex_text :: "uchar list \<Rightarrow> uchar list" where
  "hex_text xs = concat (map (\<lambda>a. [hex_digit (drop_bit 4 a), hex_digit (a AND 15)]) xs)"

section \<open>The tables\<close>

lemma dtable_checks:
  "(let d = dtable in list_all (\<lambda>i. d ! unat (base64_table ! i) = of_nat i) [0..<64]
     \<and> d ! 61 = 0 \<and> d ! 10 = 0x80 \<and> d ! 0 = 0x80)"
  by code_simp

lemma table_checks: "length base64_table = 64" "list_all (\<lambda>c. c \<noteq> 61) base64_table"
  by (simp add: base64_table_def) code_simp

lemma dvalue_special: "dvalue pad_char = 0" "dvalue newline = 0x80" "dvalue 0 = 0x80"
  using dtable_checks by (simp_all add: dvalue_def pad_char_def newline_def Let_def)

lemma chr64_dvalue:
  assumes "unat i < 64"
  shows "dvalue (chr64 i) = i" and "chr64 i \<noteq> pad_char" and "dvalue (chr64 i) \<noteq> 0x80"
proof -
  have "\<forall>k < 64. dtable ! unat (base64_table ! k) = of_nat k"
    using dtable_checks by (simp add: Let_def list_all_iff atLeast0LessThan)
  with assms show d: "dvalue (chr64 i) = i" by (simp add: dvalue_def chr64_def)
  have "chr64 i \<in> set base64_table" using assms table_checks(1) by (simp add: chr64_def)
  then show "chr64 i \<noteq> pad_char" using table_checks(2) by (auto simp: list_all_iff pad_char_def)
  show "dvalue (chr64 i) \<noteq> 0x80" unfolding d using assms by (auto simp: word_unat_eq_iff)
qed

lemma and_masks:
  "(a :: uchar) AND 3 = take_bit 2 a" "(a :: uchar) AND 15 = take_bit 4 a" "(a :: uchar) AND 63 = take_bit 6 a"
  by (simp_all add: take_bit_eq_mask mask_eq_exp_minus_1)

lemma uchar_eqI:
  fixes x y :: uchar
  assumes "list_all (\<lambda>n. bit x n = bit y n) [0, 1, 2, 3, 4, 5, 6, 7]"
  shows "x = y"
proof (rule bit_word_eqI)
  fix n assume "n < LENGTH(8)"
  then have "n = 0 \<or> n = 1 \<or> n = 2 \<or> n = 3 \<or> n = 4 \<or> n = 5 \<or> n = 6 \<or> n = 7" by simp linarith
  with assms show "bit x n = bit y n" by auto
qed

lemma bit_uchar_high: "8 \<le> n \<Longrightarrow> \<not> bit (a :: uchar) n"
  using bit_imp_le_length [of a n] by auto

lemma b64_bits:
  fixes a b c :: uchar
  shows "push_bit 2 (drop_bit 2 a) OR drop_bit 4 (push_bit 4 (a AND 3) OR drop_bit 4 b) = a"
    and "push_bit 4 (push_bit 4 (a AND 3) OR drop_bit 4 b) OR drop_bit 2 (push_bit 2 (b AND 15) OR drop_bit 6 c) = b"
    and "push_bit 6 (push_bit 2 (b AND 15) OR drop_bit 6 c) OR (c AND 63) = c"
  unfolding and_masks by (rule uchar_eqI; (simp add: bit_simps)?; (simp add: bit_uchar_high numeral_2_eq_2 numeral_3_eq_3)?)+

lemma b64_bits0:
  "push_bit 2 (drop_bit 2 a) OR drop_bit 4 (push_bit 4 (a AND 3)) = (a :: uchar)"
  "push_bit 4 (push_bit 4 (a AND 3) OR drop_bit 4 b) OR drop_bit 2 (push_bit 2 (b AND 15)) = (b :: uchar)"
  unfolding and_masks by (rule uchar_eqI; (simp add: bit_simps)?; (simp add: bit_uchar_high numeral_2_eq_2 numeral_3_eq_3)?)+

lemma hex_bits: "push_bit 4 (drop_bit 4 a) OR (a AND 15) = (a :: uchar)"
  unfolding and_masks by (rule uchar_eqI) (simp add: bit_simps)

lemma six_bitsI: "take_bit 6 x = x \<Longrightarrow> unat (x :: uchar) < 64"
proof -
  assume "take_bit 6 x = x"
  moreover have "unat (take_bit 6 x) = take_bit 6 (unat x)" by (rule unsigned_take_bit_eq)
  moreover have "take_bit 6 (unat x) < 2 ^ 6" by (rule take_bit_nat_less_exp)
  ultimately show ?thesis by simp
qed

lemma six_bits:
  fixes a b c :: uchar
  shows "unat (drop_bit 2 a) < 64" "unat (push_bit 4 (a AND 3) OR drop_bit 4 b) < 64"
    "unat (push_bit 2 (b AND 15) OR drop_bit 6 c) < 64" "unat (c AND 63) < 64"
    "unat (push_bit 4 (a AND 3)) < 64" "unat (push_bit 2 (b AND 15)) < 64"
  unfolding and_masks by (rule six_bitsI; rule uchar_eqI; (simp add: bit_simps)?; (simp add: bit_uchar_high numeral_2_eq_2 numeral_3_eq_3)?)+

lemma four_bits: "drop_bit 4 (a :: uchar) < 16" "(a :: uchar) AND 15 < 16"
proof -
  have less: "x < 16" if "take_bit 4 x = x" for x :: uchar
  proof -
    have "unat (take_bit 4 x) = take_bit 4 (unat x)" by (rule unsigned_take_bit_eq)
    moreover have "take_bit 4 (unat x) < 2 ^ 4" by (rule take_bit_nat_less_exp)
    ultimately show ?thesis using that by (simp add: word_less_nat_alt)
  qed
  show "drop_bit 4 a < 16" "a AND 15 < 16"
    unfolding and_masks by (rule less; rule uchar_eqI; (simp add: bit_simps)?; (simp add: bit_uchar_high numeral_2_eq_2 numeral_3_eq_3)?)+
qed

section \<open>Encoding\<close>

lemma put_eq: "put cap out cs = (if length out + length cs \<le> cap \<or> cs = [] then Inr (out @ cs) else Inl Out_Of_Range)"
  by (induction cap out cs rule: put.induct) auto

lemma put_ok [simp]: "length out + length cs \<le> cap \<Longrightarrow> put cap out cs = Inr (out @ cs)"
  by (simp add: put_eq)

lemma length_block3 [simp]: "length (block3 a b c) = 4"
  by (simp add: block3_def)

lemma encode_lines:
  "length out + length (enc_lines inp l) \<le> cap \<Longrightarrow>
   rbind (encode_blocks cap inp l out) (\<lambda>(inp, line_len, out).
     rbind (encode_tail cap inp line_len out) (\<lambda>(line_len, out).
     if line_len > 0 then put cap out [newline] else Inr out)) = Inr (out @ enc_lines inp l)"
  by (induction inp l arbitrary: out rule: enc_lines.induct) (auto simp: put_eq split: if_splits)

lemma length_enc_lines:
  "k < 18 \<Longrightarrow> length (enc_lines inp (4 * k)) =
     4 * ((length inp + 2) div 3) + (k + (length inp + 2) div 3 + 17) div 18"
proof (induction inp "4 * k" arbitrary: k rule: enc_lines.induct)
  case (1 a b c inp)
  have "(5 + length inp) div 3 = Suc (Suc (Suc (length inp)) div 3)" by presburger
  note [simp] = this
  show ?case
  proof (cases "4 * k + 4 \<ge> 72")
    case True
    with 1(3) have "k = 17" by linarith
    with 1(1) [OF True, of 0] show ?thesis by simp
  next
    case False
    with 1(2) [OF False, of "Suc k"] show ?thesis by (simp add: add.commute [of "4 * k"])
  qed
qed auto

lemma olen_unat:
  assumes "unat (x :: size_t) = k"
  shows "unat (let olen = x div 3 + 4 in olen + olen div 72 + 1) = (let e = k div 3 + 4 in e + e div 72 + 1)"
proof -
  have "k < 2 ^ 64" using unsigned_less [of x, where ?'a = nat] assms by simp
  moreover have "3 * (k div 3) \<le> k" "72 * ((k div 3 + 4) div 72) \<le> k div 3 + 4"
    by (rule times_div_less_eq_dividend)+
  ultimately have b: "k div 3 + 4 + (k div 3 + 4) div 72 + 1 < 2 ^ 64" by simp
  define y where "y = x div 3 + 4"
  have "unat y = k div 3 + 4" using assms b by (simp add: y_def unat_word_ariths unat_div)
  with b have "unat (y + y div 72 + 1) = k div 3 + 4 + (k div 3 + 4) div 72 + 1"
    by (simp add: unat_word_ariths unat_div)
  then show ?thesis by (simp only: Let_def y_def)
qed

lemma enc_lines_fits:
  assumes "length src * 4 < 2 ^ 64"
  shows "length (enc_lines src 0) + 1 \<le> unat (encode_olen (of_nat (length src)))"
    and "length src \<le> unat (encode_olen (of_nat (length src)))"
proof -
  let ?n = "length src" and ?e = "length src * 4 div 3 + 4"
  have "unat (of_nat ?n * 4 :: size_t) = ?n * 4"
    using assms by (simp add: unat_word_ariths unat_of_nat)
  from olen_unat [OF this] have olen: "unat (encode_olen (of_nat ?n)) = (let e = ?e in e + e div 72 + 1)"
    by (simp add: encode_olen_def)
  show "length (enc_lines src 0) + 1 \<le> unat (encode_olen (of_nat ?n))"
  proof -
    let ?d = "?n * 4 div 3" and ?g = "(?n + 2) div 3"
    have "3 * ?g \<le> ?n + 2" "?n * 4 < 3 * Suc ?d" by (simp_all add: dividend_less_times_div)
    then have g: "4 * ?g + 1 \<le> ?e" by linarith
    have "18 * ((?g + 17) div 18) \<le> ?g + 17" "?e < 72 * Suc (?e div 72)" by (simp_all add: dividend_less_times_div)
    with g have "(?g + 17) div 18 \<le> Suc (?e div 72)" by linarith
    with g have "4 * ?g + (?g + 17) div 18 + 1 \<le> ?e + ?e div 72 + 1" by linarith
    then show ?thesis unfolding olen using length_enc_lines [of 0 src] by (simp add: Let_def)
  qed
  show "?n \<le> unat (encode_olen (of_nat ?n))"
  proof -
    have "?n * 4 < 3 * Suc (?n * 4 div 3)" by (simp add: dividend_less_times_div)
    then have "?n \<le> ?e" by linarith
    then show ?thesis unfolding olen by (simp add: Let_def)
  qed
qed

text \<open>A product that wraps around gives a size below the length: the check for overflow catches it.\<close>

lemma encode_olen_wraps:
  assumes "2 ^ 64 \<le> n * 4" and "n < 2 ^ 64"
  shows "encode_olen (of_nat n) < of_nat n"
proof -
  let ?r = "n * 4 mod 2 ^ 64"
  have n: "unat (of_nat n :: size_t) = n" using assms(2) by (simp add: unat_of_nat)
  have "unat (of_nat n * 4 :: size_t) = ?r" by (simp add: unat_word_ariths unat_of_nat mod_mult_left_eq)
  from olen_unat [OF this] have olen: "unat (encode_olen (of_nat n)) = (let e = ?r div 3 + 4 in e + e div 72 + 1)"
    by (simp add: encode_olen_def)
  have "n * 4 div 2 ^ 64 * 2 ^ 64 + ?r = n * 4" by (rule div_mult_mod_eq)
  moreover have "1 \<le> n * 4 div 2 ^ 64" using assms(1) by (simp add: less_eq_div_iff_mult_less_eq)
  moreover have "n * 4 div 2 ^ 64 < 4" using assms(2) by (intro div_less_iff_less_mult [THEN iffD2]) simp_all
  moreover have "3 * (?r div 3) \<le> ?r" "72 * ((?r div 3 + 4) div 72) \<le> ?r div 3 + 4"
    by (rule times_div_less_eq_dividend)+
  moreover have "?r < 2 ^ 64" by simp
  moreover have M: "(2 :: nat) ^ 64 = 18446744073709551616" by simp
  ultimately have "?r div 3 + 4 + (?r div 3 + 4) div 72 + 1 < n" unfolding M by linarith
  then have "(let e = ?r div 3 + 4 in e + e div 72 + 1) < n" by (simp only: Let_def)
  then show ?thesis by (simp add: word_less_nat_alt n olen)
qed

lemma encode_eq:
  assumes "length src * 4 < 2 ^ 64"
  shows "base64_encode True src = Inr (Some (enc_lines src 0))"
proof -
  let ?cap = "unat (encode_olen (of_nat (length src)))"
  note fits = enc_lines_fits [OF assms]
  have "unat (of_nat (length src) :: size_t) = length src" using assms by (simp add: unat_of_nat)
  with fits(2) have "\<not> encode_olen (of_nat (length src)) < of_nat (length src)"
    by (simp add: word_less_nat_alt)
  moreover have "rbind (rbind (encode_blocks ?cap src 0 []) (\<lambda>(inp, line_len, out).
     rbind (encode_tail ?cap inp line_len out) (\<lambda>(line_len, out).
     if line_len > 0 then put ?cap out [newline] else Inr out))) (\<lambda>out.
     rbind (put ?cap out [0]) (\<lambda>_. Inr (Some out))) = Inr (Some (enc_lines src 0))"
    using encode_lines [of "[]" src 0 ?cap] fits(1) by simp
  ultimately show ?thesis by (simp add: base64_encode_def Let_def rbind_assoc split_def)
qed

lemma encode_null:
  "base64_encode False src = Inr None"
  "2 ^ 64 \<le> length src * 4 \<Longrightarrow> length src < 2 ^ 64 \<Longrightarrow> base64_encode alloc src = Inr None"
  using encode_olen_wraps [of "length src"] by (simp_all add: base64_encode_def Let_def)

section \<open>Decoding\<close>

lemma decode_loop_filter: "decode_loop cap (filter valid64 s) block pad out = decode_loop cap s block pad out"
  by (induction cap s block pad out rule: decode_loop.induct) (auto simp: Let_def intro!: rbind_cong)

lemmas chr64_valid = chr64_dvalue(3) [OF six_bits(1)] chr64_dvalue(3) [OF six_bits(2)] chr64_dvalue(3) [OF six_bits(3)]
  chr64_dvalue(3) [OF six_bits(4)] chr64_dvalue(3) [OF six_bits(5)] chr64_dvalue(3) [OF six_bits(6)]

lemma enc_valid: "filter valid64 (enc_lines xs l) = enc xs"
  by (induction xs l rule: enc_lines.induct)
    (simp_all add: block3_def chr64_valid dvalue_special del: push_bit_and)

lemma third_step: "(5 + n) div 3 = Suc (Suc (Suc n) div 3)" for n :: nat
  by presburger

lemma length_enc: "length (enc xs) = 4 * ((length xs + 2) div 3)"
  by (induction xs rule: enc.induct) (auto simp: third_step)

lemma enc_lines_snoc: "xs \<noteq> [] \<or> 0 < l \<Longrightarrow> \<exists>ys. enc_lines xs l = ys @ [newline]"
proof (induction xs l rule: enc_lines.induct)
  case (1 a b c inp l)
  show ?case
  proof (cases "72 \<le> l + 4")
    case True
    then show ?thesis using 1(1) by (cases inp) (auto simp flip: append_Cons)
  next
    case False
    with 1(2) show ?thesis by fastforce
  qed
qed auto

lemma decode_char:
  "unat i < 64 \<Longrightarrow> length block < 3 \<Longrightarrow>
     decode_loop cap (chr64 i # cs) block pad out = decode_loop cap cs (block @ [i]) pad out"
  using chr64_dvalue [of i] by (simp add: Let_def)

lemma decode_block:
  assumes "unat i < 64" "unat j < 64" "unat k < 64" "unat l < 64" and "length out + 3 \<le> cap"
  shows "decode_loop cap (chr64 i # chr64 j # chr64 k # chr64 l # cs) [] 0 out =
    decode_loop cap cs [] 0 (out @ block4 [i, j, k, l])"
  using assms chr64_dvalue [of l]
  by (simp add: decode_char del: decode_loop.simps) (simp add: Let_def block4_def)

lemma decode_padded:
  assumes "unat i < 64" "unat j < 64" "unat k < 64" and "length out + 3 \<le> cap"
  shows "decode_loop cap [chr64 i, chr64 j, chr64 k, pad_char] [] 0 out =
      Inr (Some (out @ take 2 (block4 [i, j, k, 0])))"
    and "decode_loop cap [chr64 i, chr64 j, pad_char, pad_char] [] 0 out =
      Inr (Some (out @ take 1 (block4 [i, j, 0, 0])))"
  using assms
  by (simp_all add: decode_char del: decode_loop.simps) (simp_all add: Let_def dvalue_special block4_def)

lemma block4_block3:
  "block4 [drop_bit 2 a, push_bit 4 (a AND 3) OR drop_bit 4 b, push_bit 2 (b AND 15) OR drop_bit 6 c, c AND 63] = [a, b, c]"
  "take 2 (block4 [drop_bit 2 a, push_bit 4 (a AND 3) OR drop_bit 4 b, push_bit 2 (b AND 15), 0]) = [a, b]"
  "take 1 (block4 [drop_bit 2 a, push_bit 4 (a AND 3), 0, 0]) = [a]"
  using b64_bits(1) [of a b] b64_bits(2) [of a b c] b64_bits(3) [of b c] b64_bits0(1) [of a] b64_bits0(2) [of a b]
  by (simp_all add: block4_def numeral_2_eq_2 del: push_bit_and)

lemma decode_enc:
  "length out + 3 * ((length xs + 2) div 3) \<le> cap \<Longrightarrow> decode_loop cap (enc xs) [] 0 out = Inr (Some (out @ xs))"
proof (induction xs arbitrary: out rule: enc.induct)
  case (1 a b c inp)
  then show ?case
    unfolding enc.simps block3_def append_Cons append_Nil
    by (subst decode_block [OF six_bits(1-4)]) (simp_all add: third_step block4_block3 del: push_bit_and)
next
  case (3 a)
  then show ?case unfolding enc.simps
    by (subst decode_padded(2) [OF six_bits(1,5,5)]) (simp_all only: block4_block3, simp)
next
  case (4 a b)
  then show ?case unfolding enc.simps
    by (subst decode_padded(1) [OF six_bits(1,2,6)]) (simp_all only: block4_block3, simp)
qed simp

lemma decode_loop_safe:
  "length block < 4 \<Longrightarrow> length out + 3 * ((length block + length (filter valid64 s)) div 4) \<le> cap \<Longrightarrow>
     \<exists>r. decode_loop cap s block pad out = Inr r \<and> (\<forall>bs. r = Some bs \<longrightarrow> length bs \<le> cap)"
proof (induction cap s block pad out rule: decode_loop.induct)
  case (2 cap c cs block pad out)
  show ?case
  proof (cases "valid64 c \<and> length block = 3")
    case True
    have "(4 + length (filter valid64 cs)) div 4 = Suc (length (filter valid64 cs) div 4)" by simp
    with True 2 show ?thesis by (auto simp: Let_def put_eq block4_def)
  next
    case False
    with 2 show ?thesis by (auto simp: Let_def)
  qed
qed auto

section \<open>Hexadecimal\<close>

lemma hexchr2bin_digit: "n < 16 \<Longrightarrow> hexchr2bin (hex_digit n) = n"
proof -
  assume n: "n < 16"
  have "list_all (\<lambda>k. hexchr2bin (hex_digit (of_nat k)) = of_nat k) [0..<16]" by code_simp
  then have all: "hexchr2bin (hex_digit (of_nat k)) = of_nat k" if "k < 16" for k
    using that by (simp add: list_all_iff)
  from n have "unat n < 16" by (simp add: word_less_nat_alt)
  from all [OF this] show ?thesis by simp
qed

lemma length_hex_text [simp]: "length (hex_text xs) = 2 * length xs"
  by (induction xs) (auto simp: hex_text_def)

lemma hex_text_nth:
  "i < length xs \<Longrightarrow> hex_text xs ! (2 * i) = hex_digit (drop_bit 4 (xs ! i))
     \<and> hex_text xs ! (2 * i + 1) = hex_digit (xs ! i AND 15)"
proof (induction xs arbitrary: i)
  case (Cons x xs)
  then show ?case by (cases i) (auto simp: hex_text_def)
qed simp

lemma hex_text_append: "hex_text (xs @ ys) = hex_text xs @ hex_text ys"
  by (simp add: hex_text_def)

lemma encode_hex_eq:
  assumes "2 * length xs + 10 < 2 ^ 64"
  shows "encode_hex True xs = Inr (Some (hex_text xs @ replicate 10 0))"
proof -
  have cap: "unat (of_nat (length xs) * 2 + 10 :: size_t) = 2 * length xs + 10"
    using assms by (simp add: unat_word_ariths unat_of_nat)
  let ?step = "\<lambda>wbuffer i. rbind (assertc (2 * i < 2 * length xs + 10)) (\<lambda>_.
             buf_write wbuffer (2 * i) [hex_digit (drop_bit 4 (xs ! i)), hex_digit (xs ! i AND 15), 0])"
  have "rfold ?step (replicate (2 * length xs + 10) 0) [0..<k] =
      Inr (hex_text (take k xs) @ replicate (2 * (length xs - k) + 10) 0)" if "k \<le> length xs" for k
    using that
  proof (induction k)
    case 0
    show ?case by (simp add: hex_text_def)
  next
    case (Suc k)
    then have k: "k < length xs" by simp
    then have "2 * (length xs - k) + 10 = Suc (Suc (Suc (2 * (length xs - Suc k) + 9)))" by simp
    then have rep: "replicate (2 * (length xs - k) + 10) (0 :: uchar) =
        0 # 0 # 0 # replicate (2 * (length xs - Suc k) + 9) 0" by (simp only: replicate_Suc)
    have "2 * (length xs - Suc k) + 10 = Suc (2 * (length xs - Suc k) + 9)" by simp
    then have rep': "replicate (2 * (length xs - Suc k) + 10) (0 :: uchar) = 0 # replicate (2 * (length xs - Suc k) + 9) 0"
      by (simp only: replicate_Suc)
    have "length (hex_text (take k xs)) = 2 * k" using k by simp
    then show ?case
      using Suc k by (simp add: rfold_append buf_write_def rep rep' take_Suc_conv_app_nth hex_text_append
          hex_text_def [of "[_]"] del: replicate.simps)
  qed
  from this [of "length xs"] show ?thesis by (simp add: encode_hex_def cap)
qed

lemma decode_hex_eq:
  assumes "xs \<noteq> []"
  shows "decode_hex True (hex_text xs @ rest) (2 * length xs) = Inr (Some (xs @ [0]))"
proof -
  let ?step = "\<lambda>(wbuffer, pos) i. rbind (assertc (pos < length xs + 1)) (\<lambda>_.
            rbind (vec_get (hex_text xs @ rest) (2 * i)) (\<lambda>h.
            rbind (vec_get (hex_text xs @ rest) (2 * i + 1)) (\<lambda>l.
            rbind (vec_set wbuffer pos (push_bit 4 (hexchr2bin h) OR hexchr2bin l)) (\<lambda>wbuffer.
            Inr (wbuffer, pos + 1)))))"
  have "rfold ?step (replicate (length xs + 1) 0, 0) [0..<k] =
      Inr (take k xs @ replicate (length xs - k + 1) 0, k)" if "k \<le> length xs" for k
    using that
  proof (induction k)
    case (Suc k)
    then have k: "k < length xs" by simp
    have "push_bit 4 (hexchr2bin (hex_digit (drop_bit 4 (xs ! k)))) OR hexchr2bin (hex_digit (xs ! k AND 15)) = xs ! k"
      by (simp only: hexchr2bin_digit four_bits hex_bits)
    moreover have "length xs - k = Suc (length xs - Suc k)" using k by simp
    ultimately show ?case
      using Suc k hex_text_nth [OF k]
      by (simp add: rfold_append nth_append list_update_append take_Suc_conv_app_nth)
  qed simp
  from this [of "length xs"] show ?thesis using assms by (simp add: decode_hex_def Let_def)
qed

section \<open>Properties\<close>

text \<open>
  \<^verbatim>\<open>base64_encode\<close> never writes outside the block it allocates, for any length a \<^verbatim>\<open>size_t\<close>
  can hold: when the product in the size computation wraps around, the overflow check rejects the
  input, and otherwise the text with its line feeds and its terminator fits.
\<close>

theorem base64_encode_in_bounds:
  assumes "length src < 2 ^ 64"
  shows "base64_encode alloc src =
    Inr (if alloc \<and> length src * 4 < 2 ^ 64 then Some (enc_lines src 0) else None)"
proof (cases "alloc \<and> length src * 4 < 2 ^ 64")
  case True
  then show ?thesis using encode_eq [of src] by simp
next
  case False
  then show ?thesis using encode_null(1) [of src] encode_null(2) [of src alloc] assms by (cases alloc) auto
qed

theorem base64_encode_in_bounds_witness:
  "base64_encode True [77, 97, 110] = Inr (Some [84, 87, 70, 117, 10])"
  using base64_encode_in_bounds [of "[77, 97, 110]" True]
  by (simp add: block3_def chr64_def base64_table_def newline_def upt_rec)

text \<open>
  C24. \<^verbatim>\<open>base64_decode\<close> is safe on every input, however malformed: it returns, every write lies
  within the \<open>3 * (count / 4)\<close> bytes it allocates, and so does the length it reports.
\<close>

theorem base64_decode_safe:
  "\<exists>r. base64_decode alloc src = Inr r \<and>
     (case r of None \<Rightarrow> True
      | Some bs \<Rightarrow> length bs \<le> length (filter (\<lambda>c. dvalue c \<noteq> 0x80) src) div 4 * 3)"
  using decode_loop_safe [of "[]" "[]" src "length (filter valid64 src) div 4 * 3" 0]
  by (auto simp: base64_decode_def Let_def split: option.split)

text \<open>
  C25. What \<^verbatim>\<open>encode_64base\<close> makes of a public key or a signature, \<^verbatim>\<open>decode_64base\<close> turns back into
  the same bytes.
\<close>

theorem encode_64base_roundtrip:
  assumes "xs \<noteq> []" and "length xs * 4 < 2 ^ 64"
  shows "\<exists>s. encode_64base True xs = Inr (Some s) \<and> decode_64base True s = Inr (Some xs)"
proof -
  from enc_lines_snoc [of xs 0] assms(1) obtain ys where ys: "enc_lines xs 0 = ys @ [newline]" by auto
  then have "filter valid64 ys = enc xs" using enc_valid [of xs 0] by (simp add: dvalue_special)
  moreover from assms(1) have "0 < (length xs + 2) div 3" by (cases xs) auto
  ultimately have "decode_64base True ys = Inr (Some xs)"
    using decode_enc [of "[]" xs "(length xs + 2) div 3 * 3"] decode_loop_filter [of _ ys "[]" 0 "[]"]
    by (simp add: decode_64base_def base64_decode_def length_enc)
  then show ?thesis by (simp add: encode_64base_def encode_eq [OF assms(2)] ys)
qed

theorem encode_64base_roundtrip_witness:
  "\<exists>s. encode_64base True [1, 2, 3, 4] = Inr (Some s) \<and> decode_64base True s = Inr (Some [1, 2, 3, 4])"
  by (rule encode_64base_roundtrip) simp_all

text \<open>
  On an empty buffer \<^verbatim>\<open>base64_encode\<close> writes nothing and reports length 0, and
  \<^verbatim>\<open>encode_64base\<close> then writes the byte before the block.
\<close>

theorem encode_64base_empty_out_of_range:
  "base64_encode True [] = Inr (Some []) \<and> encode_64base True [] = Inl Out_Of_Range"
  using encode_eq [of "[]"] by (simp add: encode_64base_def)

text \<open>
  \<^verbatim>\<open>encode_hex\<close> stays within its buffer, its assertion holds, and \<^verbatim>\<open>decode_hex\<close> of the digits
  gives the bytes back, followed by one zero.
\<close>

theorem hex_roundtrip:
  assumes "xs \<noteq> []" and "2 * length xs + 10 < 2 ^ 64"
  shows "\<exists>w. encode_hex True xs = Inr (Some w) \<and> length w = 2 * length xs + 10
     \<and> decode_hex True w (2 * length xs) = Inr (Some (xs @ [0]))"
  using encode_hex_eq [OF assms(2)] decode_hex_eq [OF assms(1)] by auto

theorem hex_roundtrip_witness:
  "\<exists>w. encode_hex True [171, 5] = Inr (Some w) \<and> length w = 14
     \<and> decode_hex True w 4 = Inr (Some ([171, 5] @ [0]))"
  using hex_roundtrip [of "[171, 5]"] by simp

end
