(* ===== verification/Server.thy ===== *)
theory Server imports Machine Registry Json Base64
begin

text \<open>
  The request handlers of \<^verbatim>\<open>poet_server_functions.cpp\<close>, the dispatch of messages and the
  connection threads of \<^verbatim>\<open>poet_server.cpp\<close>. A handler maps the server's state, the context of the
  connection and the connection itself to a return value and their new values. What the operating
  system decides (clock, locks, whether a message could be sent) is the argument \<open>env\<close>; small
  allocations are taken to succeed.
\<close>

section \<open>Connections\<close>

record poet_context =
  ctx_node :: "node_t option"
  ctx_public_key :: "uchar list option"
  ctx_signature :: "uchar list option"

definition empty_context :: poet_context where
  "empty_context = \<lparr>ctx_node = None, ctx_public_key = None, ctx_signature = None\<rparr>"

definition free_poet_context :: "poet_context \<Rightarrow> poet_context" where
  "free_poet_context ctx = ctx\<lparr>ctx_node := None, ctx_public_key := None, ctx_signature := None\<rparr>"

record conn =
  sent :: "string list"
  conn_closed :: bool

text \<open>
  The outcomes: the current time, the timed read lock on the public keys, the locks for the next id,
  the asserted locks on table and queue, the timed lock on the table, and sending.
\<close>

record env =
  env_now :: int
  env_keys_lock :: bool
  env_id_locks :: bool
  env_table_locks :: bool
  env_table_timedlock :: bool
  env_send :: bool

definition conn_send :: "env \<Rightarrow> conn \<Rightarrow> string \<Rightarrow> bool \<times> conn" where
  "conn_send env soc msg =
     (env_send env, if env_send env then soc\<lparr>sent := sent soc @ [msg]\<rparr> else soc)"

definition conn_close :: "conn \<Rightarrow> conn" where
  "conn_close soc = soc\<lparr>conn_closed := True\<rparr>"

type_synonym 'sock world = "'sock global \<times> poet_context \<times> conn"

type_synonym ('c, 'sock) handler = "'c json_lib \<Rightarrow> env \<Rightarrow> json \<Rightarrow> 'sock world \<Rightarrow> (bool \<times> 'sock world) res"

section \<open>Registration\<close>

definition bytes_of :: "string \<Rightarrow> uchar list" where
  "bytes_of s = map (\<lambda>c. of_nat (of_char c)) s"

text \<open>
  Decoding a key or a signature into its 32 bytes: the copy reads 32 bytes of whatever the decoder
  returned, also after a failure. Bytes the decoder did not report are not tracked.
\<close>

definition copy_decoded :: "string \<Rightarrow> (bool \<times> uchar list) res" where
  "copy_decoded s =
     rbind (decode_64base True (bytes_of s)) (\<lambda>buff. case buff of
        None \<Rightarrow> Inl Null_Deref
      | Some bs \<Rightarrow>
          if length (filter (\<lambda>c. dvalue c \<noteq> 0x80) (bytes_of s)) div 4 * 3 < 32 then Inl Out_Of_Range
          else Inr (length bs = 32, take 32 bs))"

text \<open>The loop that should look for a byte other than zero.\<close>

fun validity_loop :: "uchar list \<Rightarrow> bool \<Rightarrow> bool" where
  "validity_loop [] valid = valid"
| "validity_loop (b # bs) valid = (if valid then validity_loop bs (valid \<or> b \<noteq> 0) else valid)"

definition check_public_key_and_signature_registration ::
    "env \<Rightarrow> 'sock global \<Rightarrow> poet_context \<Rightarrow> string \<Rightarrow> string \<Rightarrow> (bool \<times> poet_context) res" where
  "check_public_key_and_signature_registration env g ctx pk_str sign_str =
     (if \<not> env_keys_lock env then Inr (False, ctx)
      else
        rbind (case public_keys g pk_str of
                 None \<Rightarrow> Inr ctx
               | Some i \<Rightarrow> (case ctx_node ctx of
                     None \<Rightarrow> Inl Null_Deref
                   | Some nd \<Rightarrow> Inr (ctx\<lparr>ctx_node := Some (nd\<lparr>node_id := i\<rparr>)\<rparr>))) (\<lambda>ctx.
        rbind (copy_decoded pk_str) (\<lambda>(valid, pk).
        let ctx = ctx\<lparr>ctx_public_key := Some pk\<rparr> in
        if \<not> valid then Inr (False, ctx)
        else rbind (copy_decoded sign_str) (\<lambda>(valid, sign).
             Inr (validity_loop sign (validity_loop pk valid), ctx\<lparr>ctx_signature := Some sign\<rparr>)))))"

definition zero_node :: node_t where
  "zero_node = \<lparr>node_id = 0, arrival_time = 0, sgx_time = 0, n_leadership = 0, time_left = 0\<rparr>"

definition register_reply :: "'sock global \<Rightarrow> node_t \<Rightarrow> string" where
  "register_reply g nd =
     ''{\"status\":\"success\", \"data\": {\"sgxmax\" : '' @ decimal (unat (sgxmax g))
     @ '', \"sgxt_lower\": '' @ decimal (unat (sgxt_lowerbound g)) @ '', \"node_id\" : '' @ decimal (unat (node_id nd))
     @ '', \"n_tiers\": '' @ decimal (unat (n_tiers g))
     @ '', \"server_starting_time\": '' @ decimal (unat (of_int (server_starting_time g) :: size_t)) @ ''}}''"

text \<open>The branch that gives out the next id; \<^verbatim>\<open>std::map::insert\<close> does not overwrite.\<close>

definition assign_id :: "env \<Rightarrow> string \<Rightarrow> 'sock global \<Rightarrow> node_t \<Rightarrow> 'sock global \<times> node_t" where
  "assign_id env pk g nd =
     (if env_id_locks env
      then (g\<lparr>current_id := current_id g + 1,
              public_keys := (case public_keys g pk of
                 None \<Rightarrow> (public_keys g)(pk := Some (current_id g)) | Some _ \<Rightarrow> public_keys g)\<rparr>,
            nd\<lparr>node_id := current_id g\<rparr>)
      else (g, nd))"

definition register_keys :: "env \<Rightarrow> string \<Rightarrow> string \<Rightarrow> 'sock world \<Rightarrow> (bool \<times> 'sock world) res" where
  "register_keys env pk sign w = (case w of (g, ctx, soc) \<Rightarrow>
     rbind (check_public_key_and_signature_registration env g ctx pk sign) (\<lambda>(ok, ctx).
     if ok
     then (case ctx_node ctx of
             None \<Rightarrow> Inl Null_Deref
           | Some nd \<Rightarrow>
               let (g', nd') = assign_id env pk g nd;
                   (_, soc') = conn_send env soc (register_reply g' nd') in
               Inr (True, g', ctx\<lparr>ctx_node := Some nd'\<rparr>, soc'))
     else Inr (False, g, ctx, conn_close soc)))"

definition poet_register :: "('c, 'sock) handler" where
  "poet_register lib env json w = (case w of (g, ctx, soc) \<Rightarrow>
     let ctx = (if ctx_node ctx = None then ctx\<lparr>ctx_node := Some zero_node\<rparr> else ctx) in
     rbind (find_value json ''public_key'') (\<lambda>pk_json. case pk_json of
       Some (JString pk) \<Rightarrow>
         rbind (find_value json ''signature'') (\<lambda>sign_json. case sign_json of
           Some (JString sign) \<Rightarrow> register_keys env (cstr pk) (cstr sign) (g, ctx, soc)
         | _ \<Rightarrow> Inr (True, g, ctx, conn_close soc))
     | _ \<Rightarrow> Inr (True, g, ctx, conn_close soc)))"

definition success_msg :: string where "success_msg = ''{\"status\":\"success\"}''"

definition failure_msg :: string where "failure_msg = ''{\"status\":\"failure\"}''"

text \<open>The build defines \<^verbatim>\<open>NO_RA\<close>.\<close>

definition poet_remote_attestation :: "('c, 'sock) handler" where
  "poet_remote_attestation lib env json w = (case w of (g, ctx, soc) \<Rightarrow>
     let (ok, soc') = conn_send env soc success_msg in Inr (ok, g, ctx, soc'))"

section \<open>Announcing a time\<close>

definition broadcast_reply :: "'sock global \<Rightarrow> string" where
  "broadcast_reply g = ''{\"status\":\"success\", \"data\": {\"n_nodes\": '' @ decimal (unat (current_id g))
     @ '', \"n_tiers\": '' @ decimal (unat (n_tiers g)) @ '', \"arrival_times\": [], \"quantum_times\": []}}''"

definition poet_sgx_time_broadcast :: "('c, 'sock) handler" where
  "poet_sgx_time_broadcast lib env json w = (case w of (g, ctx, soc) \<Rightarrow>
     rbind (find_value json ''sgxt'') (\<lambda>json_sgxt.
     let sgxt = (case json_sgxt of Some (JInteger i) \<Rightarrow> of_int i | _ \<Rightarrow> 0) :: uint;
         state = (case json_sgxt of Some (JInteger _) \<Rightarrow> True | _ \<Rightarrow> False)
           \<and> sgxt_lowerbound g \<le> ucast sgxt \<and> ucast sgxt \<le> sgxmax g in
     if state
     then (case ctx_node ctx of
             None \<Rightarrow> Inl Null_Deref
           | Some nd \<Rightarrow>
               let nd' = nd\<lparr>arrival_time := of_int (env_now env - server_starting_time g), n_leadership := 0,
                            sgx_time := sgxt, time_left := sgxt\<rparr> in
               rbind (insert_node_into_sgx_table_and_queue (env_table_locks env) g nd') (\<lambda>g'.
               let (_, soc') = conn_send env soc (broadcast_reply g') in
               Inr (True, g', ctx\<lparr>ctx_node := Some nd'\<rparr>, soc')))
     else let (_, soc') = conn_send env soc failure_msg in Inr (False, g, ctx, soc')))"

section \<open>Queries\<close>

definition drop_comma :: "string \<Rightarrow> string" where
  "drop_comma s = (if s \<noteq> [] \<and> last s = CHR '','' then butlast s else s)"

definition get_sgx_table_str :: "bool \<Rightarrow> 'sock global \<Rightarrow> string" where
  "get_sgx_table_str locked g =
     drop_comma (''['' @ (if locked then concat (map (\<lambda>nd. node_text nd @ '','') (sgx_table g)) else [])) @ '']''"

definition print_queue_value_into_buffer :: "node_t list \<Rightarrow> size_t \<Rightarrow> string \<Rightarrow> string" where
  "print_queue_value_into_buffer table d s =
     (let i = sint (ucast d :: uint) in
      if i < 0 \<or> int (length table) \<le> i then s
      else s @ decimal (unat (node_id (table ! nat i))) @ '','')"

definition get_queue_str :: "'sock global \<Rightarrow> (string \<times> 'sock global) res" where
  "get_queue_str g =
     rbind (queue_print_func_dump (g_queue g) (print_queue_value_into_buffer (sgx_table g)) ''['') (\<lambda>(s, q).
     Inr (drop_comma s @ '']'', g\<lparr>g_queue := q\<rparr>))"

definition poet_get_sgxtable :: "('c, 'sock) handler" where
  "poet_get_sgxtable lib env json w = (case w of (g, ctx, soc) \<Rightarrow>
     let str = get_sgx_table_str (env_table_timedlock env) g;
         (ok, soc') = conn_send env soc (''{\"status\":\"success\", \"data\":{\"sgx_table\": '' @ str @ ''}}'') in
     Inr (ok, g, ctx, soc'))"

definition poet_get_queue :: "('c, 'sock) handler" where
  "poet_get_queue lib env json w = (case w of (g, ctx, soc) \<Rightarrow>
     rbind (get_queue_str g) (\<lambda>(s, g').
     let (ok, soc') = conn_send env soc (''{\"status\":\"success\", \"data\":{\"queue\": '' @ s @ ''}}'') in
     Inr (ok, g', ctx, soc')))"

text \<open>When the table's mutex is taken, the error report measures a buffer that was never written.\<close>

definition poet_get_sgxtable_and_queue :: "('c, 'sock) handler" where
  "poet_get_sgxtable_and_queue lib env json w = (case w of (g, ctx, soc) \<Rightarrow>
     if \<not> env_table_timedlock env then Inl Uninitialised
     else rbind (get_queue_str g) (\<lambda>(qs, g').
          let sgxt_str = get_sgx_table_str True g';
              (ok, soc') = conn_send env soc
                (''{\"status\":\"success\", \"data\":{\"queue\": '' @ qs @ '', \"sgx_table\": '' @ sgxt_str @ ''}}'') in
          Inr (ok, g', ctx, soc')))"

definition poet_close_connection :: "('c, 'sock) handler" where
  "poet_close_connection lib env json w = (case w of (g, ctx, soc) \<Rightarrow>
     let (ok, soc') = conn_send env soc success_msg in Inr (ok, g, ctx, conn_close soc'))"

section \<open>Unfinished nodes\<close>

definition unfinished_update :: "'sock global \<Rightarrow> node_t \<Rightarrow> (bool \<times> 'sock global) res" where
  "unfinished_update g new_node =
     (let i = unat (node_id new_node); dest = sgx_table g ! i in
      rbind (assertc (node_id dest = node_id new_node)) (\<lambda>_.
      rbind (assertc (arrival_time dest \<noteq> arrival_time new_node \<or> time_left new_node \<le> time_left dest)) (\<lambda>_.
      if sgx_time dest = sgx_time new_node \<and> arrival_time dest = arrival_time new_node
      then rbind (queue_cleanup False (g\<lparr>sgx_table := (sgx_table g)[i := dest\<lparr>time_left := time_left new_node\<rparr>]\<rparr>)) (\<lambda>g1.
           rbind (queue_push_custom True (g_queue g1) (ucast (node_id dest)) False False) (\<lambda>q.
           Inr (True, g1\<lparr>g_queue := queue_broadcast q\<rparr>)))
      else Inr (False, g))))"

definition poet_unfinished_node :: "('c, 'sock) handler" where
  "poet_unfinished_node lib env json w = (case w of (g, ctx, soc) \<Rightarrow>
     rbind (json_to_node_t lib json zero_node) (\<lambda>(state, new_node).
     rbind (assertc (env_table_locks env)) (\<lambda>_.
     rbind (if state \<and> unat (node_id new_node) < length (sgx_table g) then unfinished_update g new_node
            else Inr (False, g)) (\<lambda>(state, g').
     let (_, soc') = conn_send env soc
           (if state then ''{\"status\": \"success\"}'' else ''{\"status\": \"failure\"}'') in
     Inr (state, g', ctx, soc')))))"

section \<open>Dispatch\<close>

definition poet_functions :: "(string \<times> ('c, 'sock) handler) list" where
  "poet_functions =
     [(''register'', poet_register), (''remote_attestation'', poet_remote_attestation),
      (''sgx_time_broadcast'', poet_sgx_time_broadcast), (''get_sgxtable'', poet_get_sgxtable),
      (''get_queue'', poet_get_queue), (''get_sgxtable_and_queue'', poet_get_sgxtable_and_queue),
      (''close_connection'', poet_close_connection), (''unfinished_node'', poet_unfinished_node)]"

definition function_names :: "string list" where
  "function_names = map fst (poet_functions :: (string \<times> (unit, unit) handler) list)"

fun find_function :: "(string \<times> 'h) list \<Rightarrow> string \<Rightarrow> 'h option" where
  "find_function [] s = None"
| "find_function ((name, h) # fs) s = (if streq s name then Some h else find_function fs s)"

definition check_message_integrity :: "json \<Rightarrow> bool res" where
  "check_message_integrity json =
     (case json of
        JObject es \<Rightarrow>
          if length es < 2 then Inr False
          else rbind (find_value json ''method'') (\<lambda>json_method. case json_method of
                 Some (JString s) \<Rightarrow>
                   if find_function (map (\<lambda>n. (n, ())) function_names) s = None then Inr False
                   else rbind (find_value json ''data'') (\<lambda>d. Inr (d \<noteq> None))
               | _ \<Rightarrow> Inr False)
      | _ \<Rightarrow> Inr False)"

definition delegate_message ::
    "'c json_lib \<Rightarrow> env \<Rightarrow> string \<Rightarrow> 'sock world \<Rightarrow> (bool \<times> 'sock world) res" where
  "delegate_message lib env buffer w =
     (if \<not> check_json_compliance lib buffer then Inr (False, w)
      else case json_parse lib buffer of
        None \<Rightarrow> Inl Assertion_Failed
      | Some json \<Rightarrow>
          rbind (check_message_integrity json) (\<lambda>valid.
          if \<not> valid then Inr (False, w)
          else rbind (find_value json ''method'') (\<lambda>m. case m of
                 Some (JString func_name) \<Rightarrow>
                   (case find_function poet_functions func_name of
                      None \<Rightarrow> Inl Assertion_Failed
                    | Some f \<Rightarrow> rbind (find_value json ''data'') (\<lambda>d. case d of
                        None \<Rightarrow> Inl Assertion_Failed
                      | Some data \<Rightarrow> f lib env data w))
               | _ \<Rightarrow> Inl Assertion_Failed)))"

text \<open>The messages of one connection, with the outcomes met while each is processed.\<close>

fun process_messages :: "'c json_lib \<Rightarrow> (string \<times> env) list \<Rightarrow> 'sock world \<Rightarrow> 'sock world res" where
  "process_messages lib [] w = Inr w"
| "process_messages lib ((buffer, env) # ms) w =
     rbind (delegate_message lib env buffer w) (\<lambda>(ok, w').
     if \<not> ok \<or> conn_closed (snd (snd w')) then Inr w' else process_messages lib ms w')"

text \<open>
  The thread of a connection: it serves the messages, releases the context and the socket and puts
  its own slot back into the thread pool.
\<close>

definition process_new_node ::
    "'c json_lib \<Rightarrow> (string \<times> env) list \<Rightarrow> 't \<Rightarrow> 'sock global \<times> 't queue_t
      \<Rightarrow> ('sock global \<times> 't queue_t \<times> poet_context \<times> conn) res" where
  "process_new_node lib ms thread s = (case s of (g, threads_queue) \<Rightarrow>
     rbind (process_messages lib ms (g, empty_context, \<lparr>sent = [], conn_closed = False\<rparr>)) (\<lambda>(g', ctx, soc).
     rbind (queue_push threads_queue thread) (\<lambda>tq.
     Inr (g', tq, free_poet_context ctx, conn_close soc))))"

section \<open>Start-up and secondary connections\<close>

text \<open>\<open>None\<close> is the exit with \<^verbatim>\<open>EXIT_FAILURE\<close>.\<close>

definition set_global_constants :: "size_t \<Rightarrow> size_t \<Rightarrow> uint \<Rightarrow> 'sock global \<Rightarrow> 'sock global option" where
  "set_global_constants lower upper tiers g =
     (if upper \<le> lower \<or> lower = 0 \<or> upper = 0 then None
      else if tiers = 0 \<or> upper - lower < ucast tiers then None
      else Some (g\<lparr>sgxt_lowerbound := lower, sgxmax := upper, n_tiers := tiers\<rparr>))"

definition secondary_addition ::
    "'c json_lib \<Rightarrow> env \<Rightarrow> string option \<Rightarrow> 'sock \<Rightarrow> 'sock global \<Rightarrow> conn \<Rightarrow> ('sock global \<times> conn) res" where
  "secondary_addition lib env msg socket g soc =
     (case msg of
       None \<Rightarrow> Inr (g, conn_close soc)
     | Some buffer \<Rightarrow>
         if \<not> check_json_compliance lib buffer then Inr (g, conn_close soc)
         else case json_parse lib buffer of
           None \<Rightarrow> Inr (g, conn_close soc)
         | Some json \<Rightarrow> rbind (find_value json ''node_id'') (\<lambda>v. case v of
             Some (JInteger i) \<Rightarrow>
               let node_id = of_int i :: uint in
               if current_id g \<le> node_id
               then Inr (g, conn_close (snd (conn_send env soc failure_msg)))
               else Inr (g\<lparr>secondary_socket_comms := map_put node_id socket (secondary_socket_comms g)\<rparr>,
                         snd (conn_send env soc success_msg))
           | _ \<Rightarrow> Inr (g, conn_close soc)))"

definition process_secondary_node_addition ::
    "'c json_lib \<Rightarrow> env \<Rightarrow> string option \<Rightarrow> 'sock \<Rightarrow> 't \<Rightarrow> 'sock global \<times> 't queue_t \<Rightarrow> conn
      \<Rightarrow> ('sock global \<times> 't queue_t \<times> conn) res" where
  "process_secondary_node_addition lib env msg socket thread s soc = (case s of (g, threads_queue) \<Rightarrow>
     rbind (secondary_addition lib env msg socket g soc) (\<lambda>(g', soc').
     rbind (queue_push threads_queue thread) (\<lambda>tq. Inr (g', tq, soc'))))"

section \<open>Specification\<close>

text \<open>What no handler changes.\<close>

definition same_limits :: "'sock global \<Rightarrow> 'sock global \<Rightarrow> bool" where
  "same_limits g g' \<longleftrightarrow> sgxt_lowerbound g' = sgxt_lowerbound g \<and> sgxmax g' = sgxmax g \<and> n_tiers g' = n_tiers g
     \<and> length (sgx_table g) \<le> length (sgx_table g')"

text \<open>The method a message asks for, and the discipline that nodes announce in the order of their ids.\<close>

definition requested :: "'c json_lib \<Rightarrow> string \<Rightarrow> string option" where
  "requested lib buffer = (case json_parse lib buffer of
       None \<Rightarrow> None
     | Some json \<Rightarrow> (case find_value json ''method'' of Inr (Some (JString s)) \<Rightarrow> Some (cstr s) | _ \<Rightarrow> None))"

definition may_announce :: "'sock global \<Rightarrow> poet_context \<Rightarrow> bool" where
  "may_announce g ctx \<longleftrightarrow> (\<forall>nd. ctx_node ctx = Some nd \<longrightarrow> unat (node_id nd) \<le> length (sgx_table g))"

definition in_turn :: "'c json_lib \<Rightarrow> string \<Rightarrow> 'sock global \<Rightarrow> poet_context \<Rightarrow> bool" where
  "in_turn lib buffer g ctx \<longleftrightarrow> requested lib buffer = Some ''sgx_time_broadcast'' \<longrightarrow> may_announce g ctx"

text \<open>
  The server as a state machine: the shared state and, per connection, its context and socket. A
  step is a new connection, a message on one of them or the registration of a secondary socket;
  handlers run one at a time, as they do while they hold the locks.
\<close>

type_synonym 'sock server = "'sock global \<times> (nat \<Rightarrow> poet_context \<times> conn)"

definition new_conn :: conn where
  "new_conn = \<lparr>sent = [], conn_closed = False\<rparr>"

inductive server_step :: "'c json_lib \<Rightarrow> 'sock server \<Rightarrow> 'sock server \<Rightarrow> bool" for lib where
  connect: "server_step lib (g, conns) (g, conns(k := (empty_context, new_conn)))"
| message: "conns k = (ctx, soc) \<Longrightarrow> \<not> conn_closed soc \<Longrightarrow> in_turn lib buffer g ctx \<Longrightarrow> Suc (length (sgx_table g)) < 2 ^ 30
    \<Longrightarrow> delegate_message lib env buffer (g, ctx, soc) = Inr (ok, g', ctx', soc')
    \<Longrightarrow> server_step lib (g, conns) (g', conns(k := (ctx', soc')))"
| secondary: "secondary_addition lib env msg socket g soc = Inr (g', soc') \<Longrightarrow> server_step lib (g, conns) (g', conns)"

text \<open>Messages for the examples: a node announces the time 5, a node registers.\<close>

definition hello_doc :: json where
  "hello_doc = JObject [(''method'', JString ''sgx_time_broadcast''), (''data'', JObject [(''sgxt'', JInteger 5)])]"

definition hello_env :: env where
  "hello_env = \<lparr>env_now = 3, env_keys_lock = True, env_id_locks = True, env_table_locks = True, env_table_timedlock = True, env_send = True\<rparr>"

definition zero_key :: string where
  "zero_key = replicate 43 (CHR ''A'') @ ''=''"

definition register_doc :: "string \<Rightarrow> json" where
  "register_doc key = JObject [(''public_key'', JString key), (''signature'', JString key)]"

text \<open>A table of one node, at the front of the queue.\<close>

definition one_node :: "size_t queue_t \<Rightarrow> unit global" where
  "one_node q = (initial_global True 0 1 9 1)\<lparr>g_queue := q, sgx_table := [test_node 0 5]\<rparr>"

text \<open>Texts with commas between them.\<close>

definition join :: "string list \<Rightarrow> string" where
  "join ss = concat (map (\<lambda>s. s @ '','') (butlast ss)) @ (if ss = [] then [] else last ss)"

section \<open>What a handler leaves unchanged\<close>

declare decimal.simps [simp del]

lemma same_limits_refl [simp]: "same_limits g g"
  by (simp add: same_limits_def)

lemma same_limits_trans: "same_limits g g1 \<Longrightarrow> same_limits g1 g2 \<Longrightarrow> same_limits g g2"
  by (auto simp: same_limits_def)

lemma registry_requeue:
  assumes "registry_ok g xs" and "queue_rep q ys" and "tolerant (q_heap q)" and "cl_ok c"
    and "\<forall>x \<in> set ys. unat x < length (sgx_table g) \<and> count_list ys x \<le> 2"
  shows "registry_ok (g\<lparr>g_queue := q, g_cleanup := c\<rparr>) ys"
  using assms by (simp add: registry_ok_def entry_ok_def)

lemma registry_frame [simp]:
  "registry_ok (g\<lparr>current_id := i\<rparr>) xs = registry_ok g xs"
  "registry_ok (g\<lparr>public_keys := k\<rparr>) xs = registry_ok g xs"
  "registry_ok (g\<lparr>secondary_socket_comms := s\<rparr>) xs = registry_ok g xs"
  by (simp_all add: registry_ok_def entry_ok_def)

lemma count_remdups_snoc: "count_list (remdups xs @ [y]) x \<le> 2"
  using count_distinct [of "remdups xs" x] by simp

section \<open>Registration\<close>

lemma validity_loop_True: "validity_loop bs True"
  by (induction bs) auto

lemma validity_loop_False: "\<not> validity_loop bs False"
  by (cases bs) auto

lemma register_keys_limits:
  assumes "register_keys env pk sign (g, ctx, soc) = Inr (ok, g', ctx', soc')"
  shows "g' = g\<lparr>current_id := current_id g', public_keys := public_keys g'\<rparr>"
  using assms
  by (auto simp: register_keys_def assign_id_def conn_send_def Let_def res_simps split: option.splits if_splits)

lemma poet_register_limits:
  assumes "poet_register lib env json (g, ctx, soc) = Inr (ok, g', ctx', soc')"
  shows "g' = g\<lparr>current_id := current_id g', public_keys := public_keys g'\<rparr>"
  using assms
  by (auto simp: poet_register_def Let_def find_value_bfs simp del: bfs.simps
      split: option.splits json.splits dest: register_keys_limits)

section \<open>Unfinished nodes\<close>

lemma unfinished_update_run:
  assumes reg: "registry_ok g xs" and id: "unat (node_id nd) < length (sgx_table g)"
    and dest: "dest = sgx_table g ! unat (node_id nd)"
    and same: "sgx_time dest = sgx_time nd" "arrival_time dest = arrival_time nd" and less: "time_left nd \<le> time_left dest"
  shows "\<exists>q c. let g' = g\<lparr>sgx_table := (sgx_table g)[unat (node_id nd) := dest\<lparr>time_left := time_left nd\<rparr>], g_queue := q, g_cleanup := c\<rparr> in
     unfinished_update g nd = Inr (True, g') \<and> registry_ok g' (remdups (tl xs) @ [ucast (node_id nd)])"
proof -
  let ?i = "unat (node_id nd)"
  let ?t = "(sgx_table g)[?i := dest\<lparr>time_left := time_left nd\<rparr>]" and ?ys = "remdups (tl xs) @ [ucast (node_id nd)]"
  let ?g = "g\<lparr>sgx_table := ?t\<rparr>"
  have e: "unat (node_id dest) = ?i" using reg id dest by (auto simp: registry_ok_def entry_ok_def)
  then have nid: "node_id dest = node_id nd" by (simp add: word_unat_eq_iff)
  have "entry_ok ?g j" if "j < length (sgx_table g)" for j
    using reg that id less e dest
    by (auto simp: registry_ok_def entry_ok_def nth_list_update word_le_nat_alt dest: order_trans)
  then have reg1: "registry_ok ?g xs" using reg by (simp add: registry_ok_def)
  have t: "?t \<noteq> []" using id by (cases "sgx_table g") (auto simp: list_update_beyond split: nat.splits)
  from queue_cleanup_rep [of ?g xs] reg1 t obtain q c where
    q: "queue_cleanup False ?g = Inr (?g\<lparr>g_queue := q, g_cleanup := c\<rparr>)" "queue_rep q (remdups (tl xs))" "tolerant (q_heap q)" "cl_ok c"
    by (auto simp: registry_ok_def)
  from queue_rep_push [OF q(2), of "ucast (node_id nd)" False False] obtain q' where
    q': "queue_push_custom True q (ucast (node_id nd)) False False = Inr q'" "queue_rep q' ?ys" "tolerant (q_heap q')"
    using q(3) by auto
  have ids: "\<forall>x \<in> set ?ys. unat x < length ?t \<and> count_list ?ys x \<le> 2"
    using reg id set_tl_subset [of xs] count_remdups_snoc [of "tl xs"] by (auto simp: registry_ok_def unat_ucast_size_t simp del: count_list_append)
  have "registry_ok (?g\<lparr>g_queue := queue_broadcast q', g_cleanup := c\<rparr>) ?ys"
    using registry_requeue [OF reg1, of "queue_broadcast q'" ?ys c] q' q(4) ids by simp
  moreover have "unfinished_update g nd = Inr (True, ?g\<lparr>g_queue := queue_broadcast q', g_cleanup := c\<rparr>)"
    using dest same less nid q q' by (simp add: unfinished_update_def Let_def)
  ultimately show ?thesis unfolding Let_def by (intro exI [of _ "queue_broadcast q'"] exI [of _ c]) simp
qed

lemma unfinished_update_keeps:
  assumes reg: "registry_ok g xs" and id: "unat (node_id nd) < length (sgx_table g)"
    and run: "unfinished_update g nd = Inr (ok, g')"
  shows "\<exists>ys. registry_ok g' ys \<and> same_limits g g'"
proof -
  let ?dest = "sgx_table g ! unat (node_id nd)"
  have a: "arrival_time ?dest \<noteq> arrival_time nd \<or> time_left nd \<le> time_left ?dest"
    using run by (auto simp: unfinished_update_def Let_def res_simps)
  show ?thesis
  proof (cases "sgx_time ?dest = sgx_time nd \<and> arrival_time ?dest = arrival_time nd")
    case True
    with unfinished_update_run [OF reg id refl] a run show ?thesis by (fastforce simp: Let_def same_limits_def)
  next
    case False
    then have "g' = g" using run by (auto simp: unfinished_update_def Let_def res_simps)
    then show ?thesis using reg by auto
  qed
qed

lemma cstr_idem [simp]: "cstr (cstr s) = cstr s"
  by (simp add: cstr_def)

section \<open>Announcements and queries\<close>

lemma ucast_le_iff: "(w \<le> (ucast x :: size_t)) = (unat w \<le> unat (x :: uint))" "((ucast x :: size_t) \<le> w) = (unat x \<le> unat w)"
  by (simp_all add: word_le_nat_alt unat_ucast_size_t)

lemma poet_sgx_time_broadcast_keeps:
  assumes reg: "registry_ok g xs" and room: "Suc (length (sgx_table g)) < 2 ^ 30"
    and turn: "\<And>nd. ctx_node ctx = Some nd \<Longrightarrow> unat (node_id nd) \<le> length (sgx_table g)"
    and run: "poet_sgx_time_broadcast lib env json (g, ctx, soc) = Inr (ok, g', ctx', soc')"
  shows "\<exists>ys. registry_ok g' ys \<and> same_limits g g'"
proof (cases "\<exists>i. bfs ''sgxt'' [json] = Some (JInteger i) \<and> unat (sgxt_lowerbound g) \<le> unat (of_int i :: uint)
    \<and> unat (of_int i :: uint) \<le> unat (sgxmax g)")
  case True
  then obtain i where i: "bfs ''sgxt'' [json] = Some (JInteger i)" "unat (sgxt_lowerbound g) \<le> unat (of_int i :: uint)"
    "unat (of_int i :: uint) \<le> unat (sgxmax g)" by blast
  from run i obtain nd where nd: "ctx_node ctx = Some nd"
    by (auto simp: poet_sgx_time_broadcast_def find_value_bfs ucast_le_iff Let_def split: option.splits simp del: bfs.simps)
  let ?nd = "nd\<lparr>arrival_time := of_int (env_now env - server_starting_time g), n_leadership := 0,
                sgx_time := of_int i, time_left := of_int i\<rparr>"
  from run i nd have ins: "insert_node_into_sgx_table_and_queue (env_table_locks env) g ?nd = Inr g'"
    by (auto simp: poet_sgx_time_broadcast_def find_value_bfs ucast_le_iff conn_send_def Let_def res_simps
        simp del: bfs.simps)
  then have locks: "env_table_locks env" by (auto simp: insert_node_into_sgx_table_and_queue_def res_simps)
  have "length (sgx_table g) \<le> length (insert_table (sgx_table g) ?nd)" by (simp add: insert_table_def Let_def)
  with insert_keeps [OF reg, of ?nd] room turn [OF nd] i(2,3) ins locks show ?thesis
    by (force simp: Let_def same_limits_def)
next
  case False
  then have "g' = g" using run
    by (auto simp: poet_sgx_time_broadcast_def find_value_bfs ucast_le_iff Let_def simp del: bfs.simps
        split: option.splits json.splits if_splits prod.splits)
  then show ?thesis using reg by auto
qed

lemma print_queue_value:
  assumes "unat d < length table" and "length table < 2 ^ 30"
  shows "print_queue_value_into_buffer table d s = s @ decimal (unat (node_id (table ! unat d))) @ '',''"
proof -
  have "unat (ucast d :: uint) = unat d" using assms by (intro unat_ucast_uint) simp
  then have "sint (ucast d :: uint) = int (unat d)" using assms by (subst sint_eq_unat) (simp_all del: of_nat_unat)
  then show ?thesis using assms by (simp add: print_queue_value_into_buffer_def del: of_nat_unat)
qed

text \<open>The text of a list of values: what the loops with the dropped comma produce.\<close>

lemma drop_comma_join:
  assumes "list_all (\<lambda>s. s \<noteq> [] \<and> last s \<noteq> CHR '','') ss" and "s \<noteq> []" and "last s \<noteq> CHR '',''"
  shows "drop_comma (s @ concat (map (\<lambda>x. x @ '','') ss)) =
    s @ concat (map (\<lambda>x. x @ '','') (butlast ss)) @ (if ss = [] then [] else last ss)"
  using assms by (cases ss rule: rev_cases) (auto simp: drop_comma_def butlast_append)

lemma get_queue_str_run:
  assumes reg: "registry_ok g xs"
  shows "get_queue_str g = Inr (drop_comma (''['' @ concat (map (\<lambda>x. decimal (unat x) @ '','') xs)) @ '']'',
      g\<lparr>g_queue := call True Unlock (call True Rdlock (g_queue g))\<rparr>)"
proof -
  let ?t = "sgx_table g"
  have ids: "\<forall>x \<in> set xs. unat x < length ?t \<and> unat (node_id (?t ! unat x)) = unat x" and len: "length ?t < 2 ^ 30"
    using reg by (auto simp: registry_ok_def entry_ok_def)
  have "fold (print_queue_value_into_buffer ?t) ys s = s @ concat (map (\<lambda>x. decimal (unat x) @ '','') ys)"
    if "set ys \<subseteq> set xs" for ys s
    using that by (induction ys arbitrary: s) (use ids len in \<open>auto simp: print_queue_value\<close>)
  moreover have "queue_rep (g_queue g) xs" using reg by (simp add: registry_ok_def)
  ultimately show ?thesis by (simp add: get_queue_str_def queue_print_func_dump_def queue_rep_dump)
qed

lemma registry_calls: "registry_ok (g\<lparr>g_queue := call b p (g_queue g)\<rparr>) xs = registry_ok g xs"
  by (simp add: registry_ok_def entry_ok_def)

lemma registry_listed: "registry_ok (g\<lparr>g_queue := call b p (call b' p' (g_queue g))\<rparr>) xs = registry_ok g xs"
  by (simp add: registry_ok_def entry_ok_def)

lemma queries_keep:
  assumes reg: "registry_ok g xs"
  shows "poet_get_queue lib env json (g, ctx, soc) = Inr (ok, g', ctx', soc') \<Longrightarrow> registry_ok g' xs \<and> same_limits g g'"
    and "poet_get_sgxtable_and_queue lib env json (g, ctx, soc) = Inr (ok, g', ctx', soc') \<Longrightarrow> registry_ok g' xs \<and> same_limits g g'"
    and "poet_get_sgxtable lib env json (g, ctx, soc) = Inr (ok, g', ctx', soc') \<Longrightarrow> g' = g"
    and "poet_remote_attestation lib env json (g, ctx, soc) = Inr (ok, g', ctx', soc') \<Longrightarrow> g' = g"
    and "poet_close_connection lib env json (g, ctx, soc) = Inr (ok, g', ctx', soc') \<Longrightarrow> g' = g"
  using reg
  by (auto simp: poet_get_queue_def poet_get_sgxtable_and_queue_def poet_get_sgxtable_def poet_remote_attestation_def
      poet_close_connection_def get_queue_str_run registry_listed same_limits_def Let_def split: prod.splits if_splits)

lemma poet_unfinished_node_keeps:
  assumes reg: "registry_ok g xs" and run: "poet_unfinished_node lib env json (g, ctx, soc) = Inr (ok, g', ctx', soc')"
  shows "\<exists>ys. registry_ok g' ys \<and> same_limits g g'"
proof -
  from run obtain s nd where
    "rbind (if s \<and> unat (node_id nd) < length (sgx_table g) then unfinished_update g nd else Inr (False, g))
       (\<lambda>(state, g1). Inr g1) = Inr g'"
    by (fastforce simp: poet_unfinished_node_def conn_send_def Let_def rbind_eq_Inr)
  then show ?thesis using reg unfinished_update_keeps [OF reg, of nd]
    by (auto simp: res_simps split: if_splits)
qed

section \<open>Dispatch\<close>

lemma find_function_cstr: "find_function fs (cstr s) = find_function fs s"
  by (induction fs s rule: find_function.induct) (auto simp: streq_def)

lemma delegate_message_cases:
  assumes "delegate_message lib env buffer w = Inr (ok, w')"
  shows "\<not> ok \<and> w' = w \<or> (\<exists>f name data. requested lib buffer = Some name
     \<and> find_function poet_functions name = Some f \<and> f lib env data w = Inr (ok, w'))"
  using assms
  by (auto simp: delegate_message_def requested_def find_value_bfs find_function_cstr rbind_eq_Inr simp del: bfs.simps
      split: if_splits option.splits json.splits)

lemma find_poet_function:
  assumes "find_function poet_functions name = Some f"
  shows "f = poet_register \<or> f = poet_remote_attestation \<or> f = poet_sgx_time_broadcast \<and> cstr name = ''sgx_time_broadcast''
    \<or> f = poet_get_sgxtable \<or> f = poet_get_queue \<or> f = poet_get_sgxtable_and_queue \<or> f = poet_close_connection
    \<or> f = poet_unfinished_node"
  using assms by (auto simp: poet_functions_def streq_def cstr_def split: if_splits)

text \<open>
  The contract of a handler: called in a state with a consistent registry and room in the table, and
  when it is its turn, it leaves a consistent registry and the configuration as it was.
\<close>

locale handler =
  fixes f :: "'c json_lib \<Rightarrow> env \<Rightarrow> json \<Rightarrow> 'sock world \<Rightarrow> (bool \<times> 'sock world) res" and turn :: "'sock global \<Rightarrow> poet_context \<Rightarrow> bool"
  assumes keeps: "registry_ok g xs \<Longrightarrow> Suc (length (sgx_table g)) < 2 ^ 30 \<Longrightarrow> turn g ctx
    \<Longrightarrow> f lib env data (g, ctx, soc) = Inr (ok, g', ctx', soc') \<Longrightarrow> \<exists>ys. registry_ok g' ys \<and> same_limits g g'"
begin

lemma delegated:
  fixes lib :: "'c json_lib" and g :: "'sock global"
  assumes "delegate_message lib env buffer (g, ctx, soc) = Inr (ok, g', ctx', soc')"
    and "requested lib buffer = Some name" and "find_function poet_functions name = Some f"
    and "registry_ok g xs" and "Suc (length (sgx_table g)) < 2 ^ 30" and "turn g ctx"
  shows "\<exists>ys. registry_ok g' ys \<and> same_limits g g'"
  using delegate_message_cases [OF assms(1)] assms(2-4) keeps [OF assms(4-6)] by auto

end

lemma poet_register_keeps:
  assumes "registry_ok g xs" and "poet_register lib env data (g, ctx, soc) = Inr (ok, g', ctx', soc')"
  shows "\<exists>ys. registry_ok g' ys \<and> same_limits g g'"
proof -
  obtain i k where "g' = g\<lparr>current_id := i, public_keys := k\<rparr>" using poet_register_limits assms(2) by blast
  then show ?thesis using assms(1) by (auto simp: same_limits_def)
qed

interpretation h_register: handler poet_register "\<lambda>_ _. True"
  by unfold_locales (rule poet_register_keeps)

interpretation h_attestation: handler poet_remote_attestation "\<lambda>_ _. True"
  by unfold_locales (use queries_keep(4) in fastforce)

interpretation h_broadcast: handler poet_sgx_time_broadcast may_announce
  by unfold_locales (rule poet_sgx_time_broadcast_keeps, auto simp: may_announce_def)

interpretation h_table: handler poet_get_sgxtable "\<lambda>_ _. True"
  by unfold_locales (use queries_keep(3) in fastforce)

interpretation h_queue: handler poet_get_queue "\<lambda>_ _. True"
  by unfold_locales (use queries_keep(1) in blast)

interpretation h_both: handler poet_get_sgxtable_and_queue "\<lambda>_ _. True"
  by unfold_locales (use queries_keep(2) in blast)

interpretation h_close: handler poet_close_connection "\<lambda>_ _. True"
  by unfold_locales (use queries_keep(5) in fastforce)

interpretation h_unfinished: handler poet_unfinished_node "\<lambda>_ _. True"
  by unfold_locales (rule poet_unfinished_node_keeps)

lemma delegate_message_keeps:
  fixes lib :: "'c json_lib" and g :: "'sock global"
  assumes reg: "registry_ok g xs" and room: "Suc (length (sgx_table g)) < 2 ^ 30" and turn: "in_turn lib buffer g ctx"
    and run: "delegate_message lib env buffer (g, ctx, soc) = Inr (ok, g', ctx', soc')"
  shows "\<exists>ys. registry_ok g' ys \<and> same_limits g g'"
proof (cases "g' = g")
  case False
  with delegate_message_cases [OF run] obtain f :: "'c json_lib \<Rightarrow> env \<Rightarrow> json \<Rightarrow> 'sock world \<Rightarrow> (bool \<times> 'sock world) res"
      and name where f: "requested lib buffer = Some name" "find_function poet_functions name = Some f" by auto
  have "cstr name = name" using f(1) by (auto simp: requested_def split: option.splits sum.splits json.splits)
  then have "may_announce g ctx" if "f = poet_sgx_time_broadcast \<and> cstr name = ''sgx_time_broadcast''"
    using turn f(1) that by (auto simp: in_turn_def may_announce_def)
  then show ?thesis using find_poet_function [OF f(2)] f(2)
      h_register.delegated [OF run f(1) _ reg room] h_attestation.delegated [OF run f(1) _ reg room] h_broadcast.delegated [OF run f(1) _ reg room]
      h_table.delegated [OF run f(1) _ reg room] h_queue.delegated [OF run f(1) _ reg room] h_both.delegated [OF run f(1) _ reg room]
      h_close.delegated [OF run f(1) _ reg room] h_unfinished.delegated [OF run f(1) _ reg room]
    by (elim disjE conjE) simp_all
qed (use reg in auto)

section \<open>Reachable states\<close>

lemma secondary_addition_limits:
  assumes "secondary_addition lib env msg socket g soc = Inr (g', soc')"
  shows "g' = g\<lparr>secondary_socket_comms := secondary_socket_comms g'\<rparr>"
  using assms by (auto simp: secondary_addition_def find_value_bfs Let_def simp del: bfs.simps
      split: option.splits json.splits if_splits)

lemma server_step_keeps:
  assumes "server_step lib (g, conns) (g', conns')" and "registry_ok g xs"
  shows "\<exists>ys. registry_ok g' ys \<and> same_limits g g'"
  using assms(1)
proof (cases rule: server_step.cases)
  case (connect k)
  then show ?thesis using assms(2) by auto
next
  case (message k ctx soc buffer env ok ctx' soc')
  then show ?thesis using delegate_message_keeps [OF assms(2)] by blast
next
  case (secondary env msg socket soc soc')
  then obtain s where "g' = g\<lparr>secondary_socket_comms := s\<rparr>" using secondary_addition_limits [of lib env msg socket g soc] by blast
  then show ?thesis using assms(2) by (auto simp: same_limits_def)
qed

interpretation srv: framed_machine "server_step lib" "\<lambda>s. \<exists>xs. registry_ok (fst s) xs" "\<lambda>s s'. same_limits (fst s) (fst s')"
proof
  fix s s' :: "'sock server"
  assume step: "server_step lib s s'" and "\<exists>xs. registry_ok (fst s) xs"
  then obtain xs where "registry_ok (fst s) xs" by blast
  from server_step_keeps [of lib "fst s" "snd s" "fst s'" "snd s'", OF _ this] step
  show "\<exists>xs. registry_ok (fst s') xs" "same_limits (fst s) (fst s')" by auto
qed (auto intro: same_limits_trans)

lemma server_steps_keep:
  assumes "(server_step lib)\<^sup>*\<^sup>* s s'" and "registry_ok (fst s) xs"
  shows "\<exists>ys. registry_ok (fst s') ys \<and> same_limits (fst s) (fst s')"
  using srv.framed [OF assms(1)] assms(2) by blast

section \<open>Properties\<close>


lemma hello_bfs:
  "bfs ''method'' [hello_doc] = Some (JString ''sgx_time_broadcast'')" "bfs ''data'' [hello_doc] = Some (JObject [(''sgxt'', JInteger 5)])"
  "bfs ''sgxt'' [JObject [(''sgxt'', JInteger 5)]] = Some (JInteger 5)"
  by (simp_all add: hello_doc_def entries_def streq_def cstr_def)

lemma hello_delegate:
  "delegate_message (stub_lib ''m'' hello_doc) env ''m'' w = poet_sgx_time_broadcast (stub_lib ''m'' hello_doc) env (JObject [(''sgxt'', JInteger 5)]) w"
proof -
  have "check_json_compliance (stub_lib ''m'' hello_doc) ''m''" by (simp add: check_json_compliance_def stub_lib_def)
  moreover have "check_message_integrity hello_doc = Inr True"
    unfolding check_message_integrity_def hello_doc_def find_value_bfs
    by (simp add: entries_def function_names_def poet_functions_def streq_def cstr_def)
  moreover have "json_parse (stub_lib ''m'' hello_doc) ''m'' = Some hello_doc" by (simp add: stub_lib_def)
  ultimately show ?thesis
    by (simp add: delegate_message_def find_value_bfs hello_bfs poet_functions_def streq_def cstr_def del: bfs.simps)
qed

lemma hello_run:
  assumes "ctx_node ctx = Some nd" and "node_id nd = 0"
  shows "\<exists>g' ctx' soc'. delegate_message (stub_lib ''m'' hello_doc) hello_env ''m'' (initial_global True 0 1 9 1 :: 'sock global, ctx, soc) =
     Inr (True, g', ctx', soc') \<and> length (sgx_table g') = 1"
proof -
  let ?g = "initial_global True 0 1 9 1 :: 'sock global"
  let ?nd = "nd\<lparr>arrival_time := 3, n_leadership := 0, sgx_time := 5, time_left := 5\<rparr>"
  obtain q c where "insert_node_into_sgx_table_and_queue True ?g ?nd =
      Inr (?g\<lparr>sgx_table := insert_table [] ?nd, g_queue := q, g_cleanup := c\<rparr>)"
    using insert_keeps [OF initial_registry, of ?nd 0 1 9 1] assms(2) by (auto simp: initial_global_def Let_def)
  then show ?thesis
    using assms
    by (simp add: hello_delegate poet_sgx_time_broadcast_def find_value_bfs hello_bfs ucast_le_iff hello_env_def
        conn_send_def insert_table_def Let_def del: bfs.simps) (simp add: initial_global_def)
qed

lemma hello_reachable:
  "\<exists>(g :: unit global) conns conns'. (server_step (stub_lib ''m'' hello_doc))\<^sup>*\<^sup>* (initial_global True 0 1 9 1, conns) (g, conns')
     \<and> length (sgx_table g) = 1"
proof -
  let ?lib = "stub_lib ''m'' hello_doc" and ?g = "initial_global True 0 1 9 1 :: unit global"
  let ?ctx = "empty_context\<lparr>ctx_node := Some zero_node\<rparr>"
  let ?conns = "\<lambda>k :: nat. (?ctx, new_conn)"
  obtain g ctx' soc' where run: "delegate_message ?lib hello_env ''m'' (?g, ?ctx, new_conn) = Inr (True, g, ctx', soc')" "length (sgx_table g) = 1"
    using hello_run [of ?ctx zero_node new_conn] by (auto simp: zero_node_def)
  have "in_turn ?lib ''m'' ?g ?ctx" by (simp add: in_turn_def may_announce_def zero_node_def)
  then have "server_step ?lib (?g, ?conns) (g, ?conns(0 := (ctx', soc')))"
    using run(1) by (intro server_step.message [of _ 0]) (simp_all add: new_conn_def initial_global_def)
  then show ?thesis using run(2) by blast
qed


section \<open>Keys\<close>

lemma decoded_within:
  assumes "decode_64base True s = Inr (Some bs)"
  shows "length bs \<le> length (filter (\<lambda>c. dvalue c \<noteq> 0x80) s) div 4 * 3"
  using decode_loop_safe [of "[]" "[]" s "length (filter valid64 s) div 4 * 3" 0] assms
  by (auto simp: decode_64base_def base64_decode_def Let_def split: if_splits)

lemma decode_of_enc: "xs \<noteq> [] \<Longrightarrow> decode_64base True (enc xs) = Inr (Some xs)"
proof -
  assume xs: "xs \<noteq> []"
  have "filter valid64 (filter valid64 (enc_lines xs 0)) = filter valid64 (enc_lines xs 0)" by simp
  then have "filter valid64 (enc xs) = enc xs" unfolding enc_valid .
  moreover have "0 < (length xs + 2) div 3" using xs by (cases xs) auto
  ultimately show ?thesis using decode_enc [of "[]" xs "(length xs + 2) div 3 * 3"]
    by (simp add: decode_64base_def base64_decode_def length_enc)
qed

lemma copy_decoded_ok:
  assumes "decode_64base True (bytes_of s) = Inr (Some bs)" and "length bs = 32"
  shows "copy_decoded s = Inr (True, bs)"
  using assms decoded_within [OF assms(1)] by (simp add: copy_decoded_def)

text \<open>
  C6. Registration accepts every key and signature that decode to 32 bytes each, also zero bytes and
  also a key that is registered already: the node gets the next id, and the key stays with the
  node that brought it first.
\<close>

theorem poet_register_accepts:
  assumes "find_value json ''public_key'' = Inr (Some (JString pk))" and "find_value json ''signature'' = Inr (Some (JString sign))"
    and "decode_64base True (bytes_of (cstr pk)) = Inr (Some kb)" and "length kb = 32"
    and "decode_64base True (bytes_of (cstr sign)) = Inr (Some sb)" and "length sb = 32"
    and "env_keys_lock env" and "env_id_locks env"
  shows "\<exists>g' ctx' soc' nd. poet_register lib env json (g, ctx, soc) = Inr (True, g', ctx', soc')
     \<and> current_id g' = current_id g + 1 \<and> ctx_node ctx' = Some nd \<and> node_id nd = current_id g
     \<and> ctx_public_key ctx' = Some kb
     \<and> public_keys g' (cstr pk) = (case public_keys g (cstr pk) of None \<Rightarrow> Some (current_id g) | Some i \<Rightarrow> Some i)"
  using assms(1,2,7,8) copy_decoded_ok [OF assms(3,4)] copy_decoded_ok [OF assms(5,6)]
  by (simp add: poet_register_def register_keys_def check_public_key_and_signature_registration_def assign_id_def
      conn_send_def Let_def validity_loop_True split: option.splits)

lemma zero_key_decodes: "decode_64base True (bytes_of zero_key) = Inr (Some (replicate 32 0))"
proof -
  have "bytes_of zero_key = enc (replicate 32 0)" by code_simp
  then show ?thesis using decode_of_enc [of "replicate 32 0"] by simp
qed

lemma register_doc_finds:
  "find_value (register_doc key) ''public_key'' = Inr (Some (JString key))"
  "find_value (register_doc key) ''signature'' = Inr (Some (JString key))"
  unfolding find_value_bfs register_doc_def by (simp_all add: entries_def streq_def cstr_def)

theorem poet_register_accepts_witness:
  "\<exists>(g :: unit global) g' ctx' soc'. public_keys g zero_key = Some 0 \<and> current_id g = 1
     \<and> poet_register (stub_lib [] JNull) hello_env (register_doc zero_key) (g, empty_context, new_conn) = Inr (True, g', ctx', soc')
     \<and> current_id g' = 2"
proof -
  let ?g = "(initial_global True 0 1 9 1 :: unit global)\<lparr>current_id := 1, public_keys := [zero_key \<mapsto> 0]\<rparr>"
  have "cstr zero_key = zero_key" by code_simp
  then have "\<exists>g' ctx' soc' nd. poet_register (stub_lib [] JNull) hello_env (register_doc zero_key) (?g, empty_context, new_conn) = Inr (True, g', ctx', soc')
     \<and> current_id g' = current_id ?g + 1 \<and> ctx_node ctx' = Some nd \<and> node_id nd = current_id ?g
     \<and> ctx_public_key ctx' = Some (replicate 32 0)
     \<and> public_keys g' (cstr zero_key) = (case public_keys ?g (cstr zero_key) of None \<Rightarrow> Some (current_id ?g) | Some i \<Rightarrow> Some i)"
    by (intro poet_register_accepts [OF register_doc_finds, where sb = "replicate 32 0"]) (simp_all add: zero_key_decodes hello_env_def)
  then obtain g' ctx' soc' where "poet_register (stub_lib [] JNull) hello_env (register_doc zero_key) (?g, empty_context, new_conn) =
      Inr (True, g', ctx', soc')" "current_id g' = 2" by auto
  moreover have "public_keys ?g zero_key = Some 0" "current_id ?g = 1" by simp_all
  ultimately show ?thesis by blast
qed

text \<open>
  A key that the decoder rejects, the empty one for instance, makes registration copy 32 bytes
  from a null pointer: one message of any client ends the server.
\<close>

theorem poet_register_null_key:
  assumes "find_value json ''public_key'' = Inr (Some (JString pk))" and "find_value json ''signature'' = Inr (Some (JString sign))"
    and "decode_64base True (bytes_of (cstr pk)) = Inr None" and "env_keys_lock env"
  shows "poet_register lib env json (g, ctx, soc) = Inl Null_Deref"
  using assms
  by (simp add: poet_register_def register_keys_def check_public_key_and_signature_registration_def copy_decoded_def
      Let_def split: option.splits)

theorem poet_register_null_key_witness:
  "poet_register (stub_lib [] JNull) hello_env (register_doc []) (initial_global True 0 1 9 1 :: unit global, empty_context, new_conn) =
   Inl Null_Deref"
  by (rule poet_register_null_key [OF register_doc_finds])
     (simp_all add: hello_env_def cstr_def bytes_of_def decode_64base_def base64_decode_def)

text \<open>
  C7. An announced time outside the server's bounds, or none at all, is answered with failure and
  changes nothing. A valid one from a connection that never registered dereferences the null
  pointer in its context.
\<close>

theorem poet_sgx_time_broadcast_rejects:
  fixes g :: "'sock global"
  assumes "find_value json ''sgxt'' = Inr r"
  defines "valid \<equiv> \<exists>i. r = Some (JInteger i) \<and> unat (sgxt_lowerbound g) \<le> unat (of_int i :: uint)
       \<and> unat (of_int i :: uint) \<le> unat (sgxmax g)"
  shows "(\<not> valid \<longrightarrow> poet_sgx_time_broadcast lib env json (g, ctx, soc) =
       Inr (False, g, ctx, snd (conn_send env soc failure_msg)))
    \<and> (valid \<and> ctx_node ctx = None \<longrightarrow> poet_sgx_time_broadcast lib env json (g, ctx, soc) = Inl Null_Deref)"
  using assms(1) unfolding valid_def
  by (auto simp: poet_sgx_time_broadcast_def Let_def ucast_le_iff split_beta split: option.split json.split)

theorem poet_sgx_time_broadcast_rejects_witness:
  "poet_sgx_time_broadcast (stub_lib [] JNull) hello_env (JObject [(''sgxt'', JInteger 5)])
     (initial_global True 0 6 9 1 :: unit global, empty_context, new_conn) =
   Inr (False, initial_global True 0 6 9 1, empty_context, snd (conn_send hello_env new_conn failure_msg))
   \<and> poet_sgx_time_broadcast (stub_lib [] JNull) hello_env (JObject [(''sgxt'', JInteger 5)])
     (initial_global True 0 1 9 1 :: unit global, empty_context, new_conn) = Inl Null_Deref"
proof -
  let ?doc = "JObject [(''sgxt'', JInteger 5)]"
  have "find_value ?doc ''sgxt'' = Inr (Some (JInteger 5))" by (simp only: find_value_bfs hello_bfs)
  note rejects = poet_sgx_time_broadcast_rejects [OF this, where lib = "stub_lib [] JNull" and env = hello_env
      and ctx = empty_context and soc = new_conn]
  show ?thesis
    using rejects [of "initial_global True 0 6 9 1 :: unit global"] rejects [of "initial_global True 0 1 9 1 :: unit global"]
    by (simp add: initial_global_def empty_context_def)
qed

text \<open>
  A node at the front of the queue that reports its own SGX and arrival time and no more time
  left than the table has for it goes to the back of the queue, and its time left is updated.
\<close>

theorem poet_unfinished_node_rotates:
  fixes g :: "'sock global"
  assumes "registry_ok g (ucast (node_id nd) # xs)" and "distinct (ucast (node_id nd) # xs)"
    and "json_to_node_t lib json zero_node = Inr (True, nd)" and "env_table_locks env"
    and "dest = sgx_table g ! unat (node_id nd)" and "sgx_time dest = sgx_time nd" and "arrival_time dest = arrival_time nd"
    and "time_left nd \<le> time_left dest"
  shows "\<exists>g' soc'. poet_unfinished_node lib env json (g, ctx, soc) = Inr (True, g', ctx, soc')
     \<and> registry_ok g' (xs @ [ucast (node_id nd)])
     \<and> sgx_table g' = (sgx_table g)[unat (node_id nd) := dest\<lparr>time_left := time_left nd\<rparr>]"
proof -
  have id: "unat (node_id nd) < length (sgx_table g)" using assms(1) by (auto simp: registry_ok_def unat_ucast_size_t)
  have "remdups xs = xs" using assms(2) by (simp add: distinct_remdups_id)
  with unfinished_update_run [OF assms(1) id assms(5-8)] obtain g' where
    "unfinished_update g nd = Inr (True, g')" "registry_ok g' (xs @ [ucast (node_id nd)])"
    "sgx_table g' = (sgx_table g)[unat (node_id nd) := dest\<lparr>time_left := time_left nd\<rparr>]" by (auto simp: Let_def)
  then show ?thesis using id assms(3,4) by (simp add: poet_unfinished_node_def Let_def split_beta)
qed

lemma one_node_registry: "queue_rep q [0] \<Longrightarrow> tolerant (q_heap q) \<Longrightarrow> registry_ok (one_node q) [0]"
  by (simp add: registry_ok_def entry_ok_def one_node_def initial_global_def test_node_def)

lemma report_read: "json_to_node_t (stub_lib [] JNull) (node_json nd) x = Inr (True, nd\<lparr>time_left := min (time_left nd) (sgx_time nd)\<rparr>)"
proof -
  have "(of_int (min (uint s) (max (uint t) 0)) :: uint) = min t s" for s t :: uint
    by (auto simp: min_def max_def word_le_def)
  then show ?thesis
    by (simp add: json_to_node_t_def read_field_eq node_json_bfs of_int_uint_max stub_lib_def del: bfs.simps) (simp add: node_json_def)
qed

theorem poet_unfinished_node_rotates_witness:
  "\<exists>q g' soc'. registry_ok (one_node q) [0]
     \<and> poet_unfinished_node (stub_lib [] JNull) hello_env (node_json ((test_node 0 5)\<lparr>time_left := 2\<rparr>)) (one_node q, empty_context, new_conn) =
       Inr (True, g', empty_context, soc')
     \<and> registry_ok g' [0] \<and> time_left (sgx_table g' ! 0) = 2"
proof -
  let ?nd = "(test_node 0 5)\<lparr>time_left := 2\<rparr>"
  obtain q where q: "queue_rep q [0 :: size_t]" "tolerant (q_heap q)" using queue_rep_exists [of _ True] by blast
  have id: "node_id ?nd = 0" "?nd\<lparr>time_left := min (time_left ?nd) (sgx_time ?nd)\<rparr> = ?nd" by (simp_all add: test_node_def)
  obtain g' soc' where "poet_unfinished_node (stub_lib [] JNull) hello_env (node_json ?nd) (one_node q, empty_context, new_conn) =
       Inr (True, g', empty_context, soc')" "registry_ok g' ([] @ [ucast (node_id ?nd)])"
       "sgx_table g' = (sgx_table (one_node q))[unat (node_id ?nd) := (test_node 0 5)\<lparr>time_left := time_left ?nd\<rparr>]"
    using poet_unfinished_node_rotates [of "one_node q" ?nd "[]" "stub_lib [] JNull" "node_json ?nd" hello_env "test_node 0 5" empty_context new_conn]
      one_node_registry [OF q] report_read [of ?nd zero_node] id
    by (auto simp: hello_env_def one_node_def test_node_def)
  then show ?thesis using one_node_registry [OF q] id by (intro exI [of _ q] exI [of _ g'] exI [of _ soc']) (auto simp: one_node_def)
qed

text \<open>
  A report with the right arrival time but more time left than the table has for the node fails
  an assertion, and so does a report that is not a JSON object: either ends the server.
\<close>

theorem poet_unfinished_node_aborts:
  fixes g :: "'sock global"
  assumes "registry_ok g xs" and "json_to_node_t lib json zero_node = Inr (True, nd)" and "unat (node_id nd) < length (sgx_table g)"
    and "arrival_time (sgx_table g ! unat (node_id nd)) = arrival_time nd"
    and "time_left (sgx_table g ! unat (node_id nd)) < time_left nd"
  shows "poet_unfinished_node lib env json (g, ctx, soc) = Inl Assertion_Failed
    \<and> poet_unfinished_node lib env (JArray vs) (g, ctx, soc) = Inl Assertion_Failed"
proof -
  have "unat (node_id (sgx_table g ! unat (node_id nd))) = unat (node_id nd)"
    using assms(1,3) by (auto simp: registry_ok_def entry_ok_def)
  then have "node_id (sgx_table g ! unat (node_id nd)) = node_id nd" by (simp add: word_unat_eq_iff)
  then have "unfinished_update g nd = Inl Assertion_Failed"
    using assms(3-5) by (simp add: unfinished_update_def Let_def linorder_not_le [symmetric] del: linorder_not_le)
  then show ?thesis using assms(2,3)
    by (cases "env_table_locks env") (simp_all add: poet_unfinished_node_def, simp_all add: json_to_node_t_def)
qed

theorem poet_unfinished_node_aborts_witness:
  "\<exists>q. poet_unfinished_node (stub_lib [] JNull) hello_env (node_json ((test_node 0 9)\<lparr>time_left := 6\<rparr>)) (one_node q, empty_context, new_conn) =
     Inl Assertion_Failed"
proof -
  let ?nd = "(test_node 0 9)\<lparr>time_left := 6\<rparr>"
  obtain q where q: "queue_rep q [0 :: size_t]" "tolerant (q_heap q)" using queue_rep_exists [of _ True] by blast
  have "?nd\<lparr>time_left := min (time_left ?nd) (sgx_time ?nd)\<rparr> = ?nd" by (simp add: test_node_def)
  then show ?thesis
    using poet_unfinished_node_aborts [OF one_node_registry [OF q], of "stub_lib [] JNull" "node_json ?nd" ?nd hello_env empty_context new_conn]
      report_read [of ?nd zero_node] by (intro exI [of _ q]) (simp add: one_node_def test_node_def)
qed

lemma decimal_no_comma: "decimal n \<noteq> [] \<and> last (decimal n) \<noteq> CHR '',''"
proof (induction n rule: decimal.induct)
  case (1 n)
  have "char_of (48 + k) \<noteq> CHR '',''" if "k < 10" for k :: nat
  proof
    assume "char_of (48 + k) = CHR '',''"
    then have "of_char (char_of (48 + k)) = (of_char (CHR '','') :: nat)" by simp
    then show False using that by (simp add: of_char_of)
  qed
  then show ?case by (simp add: decimal.simps [of n])
qed

lemma get_queue_text:
  assumes "registry_ok g xs"
  shows "get_queue_str g = Inr (''['' @ join (map (\<lambda>x. decimal (unat x)) xs) @ '']'',
    g\<lparr>g_queue := call True Unlock (call True Rdlock (g_queue g))\<rparr>)"
  using get_queue_str_run [OF assms] drop_comma_join [of "map (\<lambda>x. decimal (unat x)) xs" "''[''"] decimal_no_comma
  by (simp add: join_def list_all_iff comp_def map_butlast)

lemma get_sgx_table_text: "get_sgx_table_str True g = ''['' @ join (map node_text (sgx_table g)) @ '']''"
  using drop_comma_join [of "map node_text (sgx_table g)" "''[''"]
  by (simp add: get_sgx_table_str_def join_def list_all_iff comp_def map_butlast node_text_def)

text \<open>
  C8. A client that asks for the table and the queue gets both: the queue as the list of its ids in
  order, the table as the list of its entries, from a state that does not change in between.
\<close>

theorem poet_get_sgxtable_and_queue_reply:
  fixes g :: "'sock global"
  assumes "registry_ok g xs" and "env_table_timedlock env" and "env_send env"
  shows "\<exists>g'. poet_get_sgxtable_and_queue lib env json (g, ctx, soc) = Inr (True, g', ctx, soc\<lparr>sent := sent soc @
       [''{\"status\":\"success\", \"data\":{\"queue\": ['' @ join (map (\<lambda>x. decimal (unat x)) xs)
        @ ''], \"sgx_table\": ['' @ join (map node_text (sgx_table g)) @ '']}}'']\<rparr>)
     \<and> registry_ok g' xs \<and> sgx_table g' = sgx_table g"
  using assms
  by (simp add: poet_get_sgxtable_and_queue_def get_queue_text get_sgx_table_text conn_send_def registry_listed)

theorem poet_get_sgxtable_and_queue_reply_witness:
  "\<exists>q g'. poet_get_sgxtable_and_queue (stub_lib [] JNull) hello_env JNull (one_node q, empty_context, new_conn) =
     Inr (True, g', empty_context, \<lparr>sent = [''{\"status\":\"success\", \"data\":{\"queue\": [0], \"sgx_table\": [{\"node_id\": 0, \"sgx_time\": 5, \"arrival_time\": 0, \"time_left\": 5, \"n_leadership\": 0}]}}''],
       conn_closed = False\<rparr>)"
proof -
  obtain q where q: "queue_rep q [0 :: size_t]" "tolerant (q_heap q)" using queue_rep_exists [of _ True] by blast
  have dec: "decimal 0 = ''0''" "decimal 5 = ''5''" by code_simp+
  have env: "env_table_timedlock hello_env" "env_send hello_env" by (simp_all add: hello_env_def)
  show ?thesis
    using poet_get_sgxtable_and_queue_reply [OF one_node_registry [OF q] env, of "stub_lib [] JNull" JNull empty_context new_conn]
    by (intro exI [of _ q]) (auto simp: one_node_def join_def node_text_def test_node_def dec new_conn_def)
qed

end
