(* ===== verification/Threads.thy ===== *)
theory Threads imports Server "HOL-Library.Multiset"
begin

text \<open>
  The thread pool of \<^verbatim>\<open>poet_server.cpp\<close>: the queue of free thread slots, the loops that take slots
  out of it (\<^verbatim>\<open>main\<close>, \<^verbatim>\<open>secondary_socket_sentinel\<close> and \<^verbatim>\<open>sgx_table_and_queue_notification\<close>),
  \<^verbatim>\<open>delegate_thread_to_function\<close> of \<^verbatim>\<open>poet_shared_functions.cpp\<close>, and the interleavings of
  these loops with the threads they start.
\<close>

section \<open>Jobs\<close>

text \<open>A pointer into the array \<^verbatim>\<open>threads\<close>; \<open>None\<close> is the null pointer an empty queue returns.\<close>

type_synonym thread = "nat option"

datatype 'sock job = Serve 'sock | Add 'sock | Send 'sock string

record 'sock pool =
  threads_queue :: "thread queue_t"
  running :: "(nat \<times> 'sock job) list"

definition MAX_THREADS :: nat where
  "MAX_THREADS = 20"

definition initial_pool :: "'sock pool res" where
  "initial_pool = rbind (rfold queue_push (fresh_queue True) (map Some [0..<MAX_THREADS])) (\<lambda>q.
     Inr \<lparr>threads_queue = q, running = []\<rparr>)"

text \<open>\<open>created\<close>: whether \<^verbatim>\<open>pthread_create\<close> returned 0.\<close>

definition delegate_thread_to_function :: "bool \<Rightarrow> thread \<Rightarrow> 'data \<Rightarrow> (nat \<times> 'data) option res" where
  "delegate_thread_to_function created thread data =
     (case thread of None \<Rightarrow> Inl Assertion_Failed | Some t \<Rightarrow> Inr (if created then Some (t, data) else None))"

text \<open>Taking a slot and starting a job on it; only \<^verbatim>\<open>main\<close> looks at the result.\<close>

definition start_job :: "bool \<Rightarrow> 'sock job \<Rightarrow> 'sock pool \<Rightarrow> (bool \<times> 'sock pool) res" where
  "start_job created job p =
     rbind (queue_front_and_pop None (threads_queue p)) (\<lambda>(thread, q).
     rbind (delegate_thread_to_function created thread job) (\<lambda>r.
     Inr (case r of None \<Rightarrow> (False, p\<lparr>threads_queue := q\<rparr>)
                  | Some j \<Rightarrow> (True, p\<lparr>threads_queue := q, running := running p @ [j]\<rparr>))))"

text \<open>
  A connection that \<^verbatim>\<open>socket_accept\<close> could not accept is a null pointer. The first debug message
  dereferences it: in \<^verbatim>\<open>process_new_node\<close>, which \<^verbatim>\<open>main\<close> starts, and in
  \<^verbatim>\<open>secondary_socket_sentinel\<close> itself.
\<close>

definition main_dispatch :: "bool \<Rightarrow> 'sock option \<Rightarrow> 'sock pool \<Rightarrow> 'sock pool res" where
  "main_dispatch created sock p = (case sock of
       None \<Rightarrow> Inl Null_Deref
     | Some s \<Rightarrow> rbind (start_job created (Serve s) p) (\<lambda>(ok, p'). if ok then Inr p' else Inl Exited))"

definition secondary_socket_sentinel :: "bool \<Rightarrow> 'sock option \<Rightarrow> 'sock pool \<Rightarrow> 'sock pool res" where
  "secondary_socket_sentinel created sock p = (case sock of
       None \<Rightarrow> Inl Null_Deref
     | Some s \<Rightarrow> rbind (start_job created (Add s) p) (\<lambda>(_, p'). Inr p'))"

definition notification_message :: "'sock global \<Rightarrow> (string \<times> 'sock global) res" where
  "notification_message g =
     rbind (get_queue_str g) (\<lambda>(qs, g').
     Inr (''{\"data\":{\"queue\": '' @ qs @ '', \"sgx_table\": '' @ get_sgx_table_str True g' @ ''}}'', g'))"

text \<open>One round: the message goes to every secondary socket, each on a thread of its own.\<close>

definition sgx_table_and_queue_notification :: "bool \<Rightarrow> 'sock global \<Rightarrow> 'sock pool \<Rightarrow> ('sock global \<times> 'sock pool) res" where
  "sgx_table_and_queue_notification created g p =
     rbind (notification_message g) (\<lambda>(buffer, g').
     rbind (rfold (\<lambda>p (_, sock). rbind (start_job created (Send sock buffer) p) (\<lambda>(_, p'). Inr p'))
              p (secondary_socket_comms g')) (\<lambda>p'.
     Inr (g', p')))"

definition asyncronous_send_message :: "env \<Rightarrow> conn \<Rightarrow> string \<Rightarrow> thread \<Rightarrow> thread queue_t \<Rightarrow> (conn \<times> thread queue_t) res" where
  "asyncronous_send_message env soc buffer thread q =
     rbind (queue_push q thread) (\<lambda>q'. Inr (snd (conn_send env soc buffer), q'))"

text \<open>The end of a job, as in \<^verbatim>\<open>process_new_node\<close> and the other two: the slot goes back.\<close>

definition end_job :: "nat \<Rightarrow> 'sock pool \<Rightarrow> 'sock pool res" where
  "end_job k p = rbind (queue_push (threads_queue p) (Some (fst (running p ! k)))) (\<lambda>q.
     Inr (p\<lparr>threads_queue := q, running := take k (running p) @ drop (Suc k) (running p)\<rparr>))"

text \<open>
  The interleavings. The flag tells that \<^verbatim>\<open>main\<close> has a connection at hand and has seen a free slot,
  but has not taken it yet.
\<close>

inductive pool_step :: "'sock pool \<times> bool \<Rightarrow> 'sock pool \<times> bool \<Rightarrow> bool" where
  check: "queue_is_empty (threads_queue p) = Inr (False, q) \<Longrightarrow> pool_step (p, False) (p\<lparr>threads_queue := q\<rparr>, True)"
| accept: "main_dispatch True sock p = Inr p' \<Longrightarrow> pool_step (p, True) (p', False)"
| secondary: "secondary_socket_sentinel True sock p = Inr p' \<Longrightarrow> pool_step (p, b) (p', b)"
| notify: "sgx_table_and_queue_notification True g p = Inr (g', p') \<Longrightarrow> pool_step (p, b) (p', b)"
| finish: "k < length (running p) \<Longrightarrow> end_job k p = Inr p' \<Longrightarrow> pool_step (p, b) (p', b)"

section \<open>Specification\<close>

definition free_threads :: "'sock pool \<Rightarrow> nat list \<Rightarrow> bool" where
  "free_threads p ts \<longleftrightarrow> queue_rep (threads_queue p) (map Some ts)"

definition pool_ok :: "'sock pool \<Rightarrow> bool" where
  "pool_ok p \<longleftrightarrow> (\<exists>ts. free_threads p ts \<and> mset ts + mset (map fst (running p)) = mset [0..<MAX_THREADS])"

lemma start_job_run:
  assumes "free_threads p ts"
  shows "start_job True job p = Inl Assertion_Failed \<and> ts = []
    \<or> (\<exists>t ts' q. ts = t # ts' \<and> start_job True job p = Inr (True, p\<lparr>threads_queue := q, running := running p @ [(t, job)]\<rparr>)
        \<and> queue_rep q (map Some ts'))"
  using queue_rep_front_and_pop [OF assms [unfolded free_threads_def], of None True True]
  by (cases ts) (auto simp: start_job_def delegate_thread_to_function_def queue_front_and_pop_def)

lemma start_job_ok:
  assumes "pool_ok p" and "start_job True job p = Inr (ok, p')"
  shows "pool_ok p' \<and> ok"
proof -
  obtain ts where ts: "free_threads p ts" "mset ts + mset (map fst (running p)) = mset [0..<MAX_THREADS]"
    using assms(1) by (auto simp: pool_ok_def)
  with start_job_run [OF ts(1), of job] assms(2) obtain t ts' q where
    "ts = t # ts'" "p' = p\<lparr>threads_queue := q, running := running p @ [(t, job)]\<rparr>" "queue_rep q (map Some ts')" ok by auto
  then show ?thesis using ts(2) by (auto simp: pool_ok_def free_threads_def intro!: exI [of _ ts'])
qed

lemma end_job_ok:
  assumes "pool_ok p" and "k < length (running p)"
  shows "\<exists>p'. end_job k p = Inr p' \<and> pool_ok p'"
proof -
  obtain ts where ts: "queue_rep (threads_queue p) (map Some ts)" "mset ts + mset (map fst (running p)) = mset [0..<MAX_THREADS]"
    using assms(1) by (auto simp: pool_ok_def free_threads_def)
  let ?t = "fst (running p ! k)" and ?r = "take k (running p) @ drop (Suc k) (running p)"
  obtain q where q: "queue_push (threads_queue p) (Some ?t) = Inr q" "queue_rep q (map Some (ts @ [?t]))"
    using queue_rep_push [OF ts(1), of "Some ?t" True True] by (auto simp: queue_push_def)
  have "running p = take k (running p) @ running p ! k # drop (Suc k) (running p)"
    using assms(2) by (simp add: id_take_nth_drop)
  then have "mset (map fst (running p)) = add_mset ?t (mset (map fst ?r))"
    by (metis add_mset_add_single list.simps(9) map_append mset.simps(2) mset_append union_mset_add_mset_right)
  then show ?thesis using q ts(2) by (auto simp: end_job_def pool_ok_def free_threads_def intro!: exI [of _ "ts @ [?t]"])
qed

section \<open>The pool is conserved\<close>

lemma notify_ok:
  assumes "pool_ok p" and "rfold (\<lambda>p (_, sock). rbind (start_job True (Send sock buffer) p) (\<lambda>(_, p'). Inr p')) p comms = Inr p'"
  shows "pool_ok p'"
  using assms(2,1) by (rule rfold_invariant) (auto simp: res_simps dest: start_job_ok)

lemma pool_step_ok:
  assumes "pool_step s s'" and "pool_ok (fst s)"
  shows "pool_ok (fst s')"
  using assms
proof (induction rule: pool_step.induct)
  case (check p q)
  then obtain ts where ts: "queue_rep (threads_queue p) (map Some ts)" "mset ts + mset (map fst (running p)) = mset [0..<MAX_THREADS]"
    by (auto simp: pool_ok_def free_threads_def)
  with check(1) have "queue_rep q (map Some ts)" by (auto simp: queue_is_empty_def queue_rep_is_empty)
  then show ?case using ts(2) by (auto simp: pool_ok_def free_threads_def)
next
  case (accept sock p p')
  then show ?case by (auto simp: main_dispatch_def res_simps split: option.splits if_splits dest: start_job_ok)
next
  case (secondary sock p p' b)
  then show ?case by (auto simp: secondary_socket_sentinel_def res_simps split: option.splits dest: start_job_ok)
next
  case (notify g p g' p' b)
  then show ?case by (auto simp: sgx_table_and_queue_notification_def res_simps dest: notify_ok)
next
  case (finish k p p' b)
  then show ?case using end_job_ok [of p k] by auto
qed

interpretation pool: machine pool_step "\<lambda>s. pool_ok (fst s)"
  by unfold_locales (rule pool_step_ok)

lemma initial_pool_ok: "\<exists>p. initial_pool = Inr p \<and> free_threads p [0..<MAX_THREADS] \<and> running p = []"
proof -
  obtain q where "rfold queue_push (fresh_queue True) (map Some [0..<MAX_THREADS]) = Inr q" "queue_rep q (map Some [0..<MAX_THREADS])"
    using queue_rep_push_list [OF fresh_queue_rep, of True "map Some [0..<MAX_THREADS]"] by auto
  then show ?thesis by (simp add: initial_pool_def free_threads_def)
qed

lemma pool_reachable_ok:
  fixes p0 :: "'a pool"
  assumes "initial_pool = Inr p0" and "pool_step\<^sup>*\<^sup>* (p0, b) (p, b')"
  shows "pool_ok p"
proof -
  obtain p' :: "'a pool" where "initial_pool = Inr p'" "free_threads p' [0..<MAX_THREADS]" "running p' = []"
    using initial_pool_ok by blast
  moreover from trans [OF sym [OF this(1)] assms(1)] have "p' = p0" by (rule sum.inject(2) [THEN iffD1])
  ultimately have "free_threads p0 [0..<MAX_THREADS]" "running p0 = []" by simp_all
  then have "pool_ok p0" by (auto simp: pool_ok_def)
  with pool.reachable [OF assms(2)] show ?thesis by simp
qed

text \<open>Connections on the secondary port take the free slots one by one.\<close>

lemma secondary_drains:
  assumes "free_threads p ts"
  shows "\<exists>p'. pool_step\<^sup>*\<^sup>* (p, b) (p', b) \<and> free_threads p' []"
  using assms
proof (induction ts arbitrary: p)
  case (Cons t ts)
  from start_job_run [OF Cons.prems, of "Add undefined"] obtain q where
    q: "start_job True (Add undefined) p = Inr (True, p\<lparr>threads_queue := q, running := running p @ [(t, Add undefined)]\<rparr>)"
    "queue_rep q (map Some ts)" by auto
  let ?p = "p\<lparr>threads_queue := q, running := running p @ [(t, Add undefined)]\<rparr>"
  have "pool_step (p, b) (?p, b)"
    using q(1) by (intro pool_step.secondary [of "Some undefined"]) (simp add: secondary_socket_sentinel_def)
  moreover obtain p' where "pool_step\<^sup>*\<^sup>* (?p, b) (p', b)" "free_threads p' []"
    using Cons.IH [of ?p] q(2) by (auto simp: free_threads_def)
  ultimately show ?case by (meson converse_rtranclp_into_rtranclp)
qed auto

section \<open>Properties\<close>



text \<open>
  \<^verbatim>\<open>main\<close> waits until a slot is free, but takes it in a later step: when connections on the
  secondary port use up the pool in between, it gets a null pointer and an assertion ends the
  server. The secondary port itself is served without looking at all.
\<close>

theorem busy_pool_aborts:
  "\<exists>(p0 :: 'sock pool) p. initial_pool = Inr p0 \<and> pool_step\<^sup>*\<^sup>* (p0, False) (p, True) \<and> free_threads p []
     \<and> main_dispatch True (Some s) p = Inl Assertion_Failed \<and> secondary_socket_sentinel True (Some s) p = Inl Assertion_Failed"
proof -
  obtain p0 :: "'sock pool" where p0: "initial_pool = Inr p0" "free_threads p0 [0..<MAX_THREADS]" using initial_pool_ok by blast
  let ?p = "p0\<lparr>threads_queue := call True Unlock (call True Rdlock (threads_queue p0))\<rparr>"
  have "queue_is_empty (threads_queue p0) = Inr (False, threads_queue ?p)"
    using p0(2) by (simp add: queue_is_empty_def queue_rep_is_empty free_threads_def MAX_THREADS_def)
  then have "pool_step (p0, False) (?p, True)" using pool_step.check by fastforce
  moreover have "free_threads ?p [0..<MAX_THREADS]" using p0(2) by (simp add: free_threads_def)
  then obtain p where p: "pool_step\<^sup>*\<^sup>* (?p, True) (p, True)" "free_threads p []" using secondary_drains by blast
  ultimately have "pool_step\<^sup>*\<^sup>* (p0, False) (p, True)" by (meson converse_rtranclp_into_rtranclp)
  moreover have "start_job True job p = Inl Assertion_Failed" for job using start_job_run [OF p(2), of job] by simp
  then have "main_dispatch True (Some s) p = Inl Assertion_Failed" "secondary_socket_sentinel True (Some s) p = Inl Assertion_Failed"
    by (simp_all add: main_dispatch_def secondary_socket_sentinel_def)
  ultimately show ?thesis using p0(1) p(2) by blast
qed

end
