(* ===== verification/Client.thy ===== *)
theory Client imports Threads
begin

text \<open>
  The participant, \<^verbatim>\<open>poet_client.cpp\<close>: registration, the announcement of a drawn time, the copy of the
  server's table and queue that notifications keep up to date, and the thread that waits for the
  node's leadership. What the server answers is an argument; requests are part of the results.
  The enclave's random numbers are an argument too. Small allocations are taken to succeed.
\<close>

section \<open>State\<close>

record client =
  c_sgxt :: uint
  c_sgxmax :: uint
  c_ntiers :: uint
  c_lowerbound :: uint
  c_node_id :: uint
  c_starting_time :: int
  c_current_time :: int
  c_table :: "node_t list"
  c_queue :: "size_t queue_t"
  c_locked :: bool
  c_rejoin :: uint

text \<open>
  What \<^verbatim>\<open>socket_get_message\<close> does: it returns a message, it finds the connection ended (releasing
  the buffer it was given and storing null), or it refuses since the socket is closed.
\<close>

datatype reply = Reply string | Lost | Not_Open

definition text_of :: "uchar list \<Rightarrow> string" where
  "text_of bs = map (\<lambda>b. char_of (unat b)) bs"

definition status_ok :: "json option \<Rightarrow> bool" where
  "status_ok v = (case v of Some (JString s) \<Rightarrow> streq s ''success'' | _ \<Rightarrow> False)"

section \<open>Registration\<close>

text \<open>\<open>rand\<close> is the sequence that \<^verbatim>\<open>rand\<close> yields after \<^verbatim>\<open>srand(0)\<close>.\<close>

definition fill_with_rand :: "(nat \<Rightarrow> nat) \<Rightarrow> nat \<Rightarrow> uchar list" where
  "fill_with_rand rand len = map (\<lambda>i. of_nat (rand i mod 256)) [0..<len]"

definition read_int :: "json \<Rightarrow> string \<Rightarrow> (int \<Rightarrow> client \<Rightarrow> client) \<Rightarrow> bool \<times> client \<Rightarrow> (bool \<times> client) res" where
  "read_int json name upd s =
     rbind (find_value json name) (\<lambda>v. case v of
        Some (JInteger i) \<Rightarrow> Inr (True, upd i (snd s))
      | _ \<Rightarrow> Inr (False, snd s))"

definition read_registration :: "json \<Rightarrow> client \<Rightarrow> (bool \<times> client) res" where
  "read_registration json c =
     rbind (read_int json ''sgxmax'' (\<lambda>i c. c\<lparr>c_sgxmax := of_int i\<rparr>) (True, c)) (\<lambda>s.
     rbind (read_int json ''sgxt_lower'' (\<lambda>i c. c\<lparr>c_lowerbound := of_int i\<rparr>) s) (\<lambda>s.
     rbind (read_int json ''node_id'' (\<lambda>i c. c\<lparr>c_node_id := of_int i\<rparr>) s) (\<lambda>s.
     rbind (read_int json ''n_tiers'' (\<lambda>i c. c\<lparr>c_ntiers := of_int i\<rparr>) s) (\<lambda>s.
     read_int json ''server_starting_time'' (\<lambda>i c. c\<lparr>c_starting_time := i\<rparr>) s))))"

text \<open>The buffer passed for the reply is the one just released: its release when the connection ended is the second one.\<close>

definition registration_reply :: "'l json_lib \<Rightarrow> reply \<Rightarrow> client \<Rightarrow> (bool \<times> client) res" where
  "registration_reply lib reply c = (case reply of
       Lost \<Rightarrow> Inl Double_Free
     | Not_Open \<Rightarrow> Inr (False, c)
     | Reply buffer \<Rightarrow>
         if \<not> check_json_compliance lib buffer then Inr (False, c)
         else case json_parse lib buffer of
           None \<Rightarrow> Inl Assertion_Failed
         | Some json \<Rightarrow> rbind (find_value json ''status'') (\<lambda>st.
             if status_ok st then read_registration json c else Inr (False, c)))"

definition register_request :: "uchar list \<Rightarrow> uchar list \<Rightarrow> string" where
  "register_request pk64 sign64 = ''{\"method\" : \"register\", \"data\": {\"public_key\": \"'' @ text_of pk64
     @ ''\", \"signature\" : \"'' @ text_of sign64 @ ''\"}}''"

definition poet_register_with_pk ::
    "'l json_lib \<Rightarrow> (nat \<Rightarrow> nat) \<Rightarrow> reply \<Rightarrow> client \<Rightarrow> (string \<times> bool \<times> client) res" where
  "poet_register_with_pk lib rand reply c =
     (let pk = fill_with_rand rand 32; sign = fill_with_rand rand 32 in
      rbind (encode_64base True pk) (\<lambda>p. rbind (encode_64base True sign) (\<lambda>s. case (p, s) of
        (Some pk64, Some sign64) \<Rightarrow>
          rbind (registration_reply lib reply c) (\<lambda>(ok, c'). Inr (register_request pk64 sign64, ok, c'))
      | _ \<Rightarrow> Inl Exited)))"

definition poet_remote_attestation_to_server :: "'l json_lib \<Rightarrow> reply \<Rightarrow> (string \<times> bool) res" where
  "poet_remote_attestation_to_server lib reply =
     rbind (case reply of
       Lost \<Rightarrow> Inl Double_Free
     | Not_Open \<Rightarrow> Inl Use_After_Free
     | Reply buffer \<Rightarrow>
         if \<not> check_json_compliance lib buffer then Inr False
         else case json_parse lib buffer of
           None \<Rightarrow> Inl Assertion_Failed
         | Some json \<Rightarrow> rbind (find_value json ''status'') (\<lambda>st. Inr (status_ok st)))
     (\<lambda>ok. Inr (''{\"method\" : \"remote_attestation\", \"data\": null}'', ok))"

definition poet_register_to_server ::
    "'l json_lib \<Rightarrow> (nat \<Rightarrow> nat) \<Rightarrow> reply \<Rightarrow> reply \<Rightarrow> client \<Rightarrow> (bool \<times> client) res" where
  "poet_register_to_server lib rand reply1 reply2 c =
     rbind (poet_register_with_pk lib rand reply1 c) (\<lambda>(_, ok, c').
     if ok then rbind (poet_remote_attestation_to_server lib reply2) (\<lambda>(_, ok'). Inr (ok', c')) else Inr (False, c'))"

section \<open>Announcing\<close>

text \<open>\<open>random\<close>: the four bytes of the enclave, or its failure.\<close>

definition generate_random_sgx_time :: "uint option \<Rightarrow> client \<Rightarrow> uint res" where
  "generate_random_sgx_time random c = (case random of
       None \<Rightarrow> Inl Exited
     | Some r \<Rightarrow> let d = c_sgxmax c - c_lowerbound c + 1 in
         if d = 0 then Inl Division_By_Zero else Inr (c_lowerbound c + r mod d))"

definition broadcast_request :: "uint \<Rightarrow> string" where
  "broadcast_request t = ''{\"method\":\"sgx_time_broadcast\", \"data\":{\"sgxt\": '' @ decimal (unat t) @ ''}}''"

definition poet_broadcast_sgxtime ::
    "'l json_lib \<Rightarrow> uint option \<Rightarrow> bool \<Rightarrow> reply \<Rightarrow> client \<Rightarrow> (string \<times> bool \<times> client) res" where
  "poet_broadcast_sgxtime lib random sent_ok reply c =
     rbind (generate_random_sgx_time random c) (\<lambda>t.
     rbind (case reply of
        Reply buffer \<Rightarrow>
          if \<not> sent_ok \<or> \<not> check_json_compliance lib buffer then Inr False
          else (case json_parse lib buffer of
             None \<Rightarrow> Inl Assertion_Failed
           | Some json \<Rightarrow> rbind (find_value json ''status'') (\<lambda>st. Inr (status_ok st)))
      | _ \<Rightarrow> Inr False) (\<lambda>ok. Inr (broadcast_request t, ok, c\<lparr>c_sgxt := t\<rparr>)))"

section \<open>The copy of table and queue\<close>

fun read_nodes :: "'l json_lib \<Rightarrow> json list \<Rightarrow> node_t list \<Rightarrow> (bool \<times> node_t list) res" where
  "read_nodes lib [] tbl = Inr (True, tbl)"
| "read_nodes lib (v # vs) tbl =
     rbind (json_to_node_t lib v zero_node) (\<lambda>(state, nd).
     if state then read_nodes lib vs (tbl @ [nd]) else Inr (False, tbl @ [nd]))"

text \<open>With \<open>lock\<close> the result of the unlocking is itself passed for a mutex.\<close>

definition get_sgx_table_from_json :: "'l json_lib \<Rightarrow> bool \<Rightarrow> json \<Rightarrow> client \<Rightarrow> (bool \<times> client) res" where
  "get_sgx_table_from_json lib lock json c =
     rbind (find_value json ''sgx_table'') (\<lambda>v. case v of
        Some (JArray vs) \<Rightarrow>
          if lock \<and> c_locked c then Inl Diverges
          else rbind (read_nodes lib vs []) (\<lambda>(state, tbl).
            if lock then Inl Wild_Pointer else Inr (state, c\<lparr>c_table := tbl\<rparr>))
      | _ \<Rightarrow> Inr (False, c))"

fun read_ids :: "'l json_lib \<Rightarrow> json list \<Rightarrow> size_t queue_t \<Rightarrow> (bool \<times> size_t queue_t) res" where
  "read_ids lib [] q = Inr (True, q)"
| "read_ids lib (v # vs) q =
     rbind (queue_push q (ucast (of_int (u_integer lib v) :: uint))) (\<lambda>q'.
     case v of JInteger _ \<Rightarrow> read_ids lib vs q' | _ \<Rightarrow> Inr (False, q'))"

definition get_queue_from_json :: "'l json_lib \<Rightarrow> bool \<Rightarrow> json \<Rightarrow> client \<Rightarrow> (bool \<times> client) res" where
  "get_queue_from_json lib lock json c =
     rbind (find_value json ''queue'') (\<lambda>v. case v of
        Some (JArray vs) \<Rightarrow>
          if lock \<and> c_locked c then Inl Diverges
          else rbind (queue_destructor 0 (c_queue c) False) (\<lambda>_.
          rbind (read_ids lib vs (fresh_queue True)) (\<lambda>(state, q). Inr (state, c\<lparr>c_queue := q\<rparr>)))
      | _ \<Rightarrow> Inr (False, c))"

definition get_both_from_json :: "'l json_lib \<Rightarrow> json \<Rightarrow> client \<Rightarrow> (bool \<times> client) res" where
  "get_both_from_json lib json c =
     rbind (get_queue_from_json lib False json c) (\<lambda>(ok, c').
     if ok then get_sgx_table_from_json lib False json c' else Inr (False, c'))"

text \<open>
  The mutexes are free unless a calculation ended without releasing them: then the call waits for
  ever.
\<close>

definition update_sgx_table_and_queue_from_txt :: "'l json_lib \<Rightarrow> int \<Rightarrow> string \<Rightarrow> client \<Rightarrow> (bool \<times> client) res" where
  "update_sgx_table_and_queue_from_txt lib now buffer c =
     (if \<not> check_json_compliance lib buffer then Inr (False, c)
      else if c_locked c then Inl Diverges
      else case json_parse lib buffer of
        None \<Rightarrow> Inl Assertion_Failed
      | Some json \<Rightarrow> rbind (get_both_from_json lib json c) (\<lambda>(ok, c').
          Inr (ok, if ok then c'\<lparr>c_current_time := now - c_starting_time c'\<rparr> else c')))"

definition get_sgx_table :: "'l json_lib \<Rightarrow> reply \<Rightarrow> client \<Rightarrow> (bool \<times> client) res" where
  "get_sgx_table lib reply c = (case reply of
       Reply buffer \<Rightarrow> rbind (check_json_success_status lib buffer) (\<lambda>v. case v of
         None \<Rightarrow> Inr (False, c) | Some json \<Rightarrow> get_sgx_table_from_json lib True json c)
     | _ \<Rightarrow> Inr (False, c))"

definition get_queue :: "'l json_lib \<Rightarrow> reply \<Rightarrow> client \<Rightarrow> (bool \<times> client) res" where
  "get_queue lib reply c = (case reply of
       Reply buffer \<Rightarrow> rbind (check_json_success_status lib buffer) (\<lambda>v. case v of
         None \<Rightarrow> Inr (False, c) | Some json \<Rightarrow> get_queue_from_json lib True json c)
     | _ \<Rightarrow> Inr (False, c))"

definition get_queue_and_sgx_table :: "'l json_lib \<Rightarrow> reply \<Rightarrow> client \<Rightarrow> (bool \<times> client) res" where
  "get_queue_and_sgx_table lib reply c = (case reply of
       Reply buffer \<Rightarrow> rbind (check_json_success_status lib buffer) (\<lambda>v.
         if c_locked c then Inl Diverges
         else case v of None \<Rightarrow> Inr (False, c) | Some json \<Rightarrow> get_both_from_json lib json c)
     | _ \<Rightarrow> if c_locked c then Inl Diverges else Inr (False, c))"

definition server_close_connection :: "'l json_lib \<Rightarrow> reply \<Rightarrow> bool res" where
  "server_close_connection lib reply = (case reply of
       Reply buffer \<Rightarrow> rbind (check_json_success_status lib buffer) (\<lambda>v. Inr (v \<noteq> None))
     | _ \<Rightarrow> Inr False)"

section \<open>Waiting for leadership\<close>

definition calculate_necessary_parameters :: "client \<Rightarrow> (uint \<times> int \<times> uint) res" where
  "calculate_necessary_parameters c =
     rbind (calc_quantum_times (c_table c) (c_ntiers c) (c_sgxmax c)) (\<lambda>qts.
     rbind (vec_get (c_table c) (unat (c_node_id c))) (\<lambda>nd.
     rbind (calc_tier_number nd (c_ntiers c) (c_sgxmax c)) (\<lambda>tier.
     rbind (vec_get qts (nat tier)) (\<lambda>qt.
     rbind (calc_starting_time (c_queue c) (c_table c) nd (c_ntiers c) (c_sgxmax c)) (\<lambda>st.
     Inr (qt, tier, of_int st))))))"

text \<open>The request of \<^verbatim>\<open>notify_readdition_of_node_into_queue\<close>; its outcome is not looked at.\<close>

definition notify_readdition_of_node_into_queue :: "int \<Rightarrow> client \<Rightarrow> string res" where
  "notify_readdition_of_node_into_queue time_left_i c =
     rbind (assertc (0 < time_left_i)) (\<lambda>_.
     rbind (vec_get (c_table c) (unat (c_node_id c))) (\<lambda>nd.
     let tmp = nd\<lparr>time_left := of_int time_left_i\<rparr> in
     rbind (assertc ((of_int time_left_i :: uint) < sgx_time tmp)) (\<lambda>_.
     Inr (''{\"method\":\"unfinished_node\", \"data\": '' @ node_text tmp @ ''}''))))"

datatype action = Sleep int | Notify string | Lead

text \<open>
  The loop over the notification times, with \<^verbatim>\<open>curr_time\<close> and \<^verbatim>\<open>remaining_time\<close>. What is subtracted from
  the remaining time is the notification time itself.
\<close>

fun notify_loop :: "client \<Rightarrow> int \<Rightarrow> int list \<Rightarrow> int \<Rightarrow> int \<Rightarrow> action list res" where
  "notify_loop c leadership [] curr_time remaining = Inr [Sleep (leadership - curr_time), Lead]"
| "notify_loop c leadership (n # ns) curr_time remaining =
     rbind (assertc (curr_time < n)) (\<lambda>_.
     let remaining' = sint (of_int (remaining - n) :: uint) in
     rbind (if remaining' > 0 then rbind (notify_readdition_of_node_into_queue remaining' c) (\<lambda>m. Inr [Notify m]) else Inr [])
       (\<lambda>acts.
     rbind (notify_loop c leadership ns n remaining') (\<lambda>acts'.
     Inr (Sleep (n - curr_time) # acts @ acts'))))"

definition schedule :: "client \<Rightarrow> node_t \<Rightarrow> int list \<Rightarrow> int \<Rightarrow> (action list \<times> client) res" where
  "schedule c nd ntimes leadership =
     (if leadership = - 1 then Inr ([], c\<lparr>c_rejoin := c_rejoin c + 1\<rparr>)
      else rbind (assertc (ntimes = [] \<or> last ntimes \<le> leadership)) (\<lambda>_.
           let ns = rev (dropWhile (\<lambda>n. n = leadership) (rev ntimes)) in
           rbind (notify_loop c leadership (dropWhile (\<lambda>n. n = 0) ns) 0 (sint (time_left nd))) (\<lambda>as.
           Inr (as, c))))"

text \<open>When the node is not in the table yet, the thread ends without releasing the mutexes.\<close>

definition starting_time_calculation :: "client \<Rightarrow> (action list \<times> client) res option" where
  "starting_time_calculation c =
     (if c_locked c then None
      else if length (c_table c) \<le> unat (c_node_id c) then Some (Inr ([], c\<lparr>c_locked := True\<rparr>))
      else let nd = c_table c ! unat (c_node_id c) in
        case calc_notification_times (c_queue c) (c_table c) nd (c_ntiers c) (c_sgxmax c) (c_current_time c) of
          None \<Rightarrow> None
        | Some (Inl e) \<Rightarrow> Some (Inl e)
        | Some (Inr ntimes) \<Rightarrow>
            map_option (\<lambda>r. rbind r (\<lambda>l. schedule c nd ntimes l))
              (calc_leadership_time (c_queue c) (c_table c) nd (c_ntiers c) (c_sgxmax c) (c_current_time c)))"

text \<open>One round of \<^verbatim>\<open>notifications_sentinel\<close>: whether a new calculation is started.\<close>

definition notifications_sentinel :: "'l json_lib \<Rightarrow> int \<Rightarrow> reply \<Rightarrow> client \<Rightarrow> (bool \<times> client) res" where
  "notifications_sentinel lib now reply c = (case reply of
       Reply buffer \<Rightarrow> update_sgx_table_and_queue_from_txt lib now buffer c
     | _ \<Rightarrow> Inr (False, c))"

section \<open>Connecting\<close>

text \<open>
  \<open>tries\<close>: per round, whether \<^verbatim>\<open>socket_connect_retry\<close> would succeed for the two sockets. A socket that
  is connected is not tried again.
\<close>

fun connect_rounds :: "bool \<Rightarrow> bool \<Rightarrow> bool \<Rightarrow> (bool \<times> bool) list \<Rightarrow> bool option" where
  "connect_rounds first_time connect1 connect2 [] = None"
| "connect_rounds first_time connect1 connect2 ((r1, r2) # tries) =
     (let c1 = connect1 \<or> r1; c2 = connect2 \<or> r2 in
      if \<not> (c1 \<and> c2) \<and> first_time then connect_rounds first_time c1 c2 tries else Some (c1 \<and> c2))"

definition connect_to_server :: "bool \<Rightarrow> bool \<Rightarrow> (bool \<times> bool) list \<Rightarrow> bool res option" where
  "connect_to_server retry_connection first_time tries =
     (if retry_connection then map_option Inr (connect_rounds first_time False False tries)
      else case tries of
        [] \<Rightarrow> None
      | (r1, r2) # _ \<Rightarrow> Some (rbind (assertc r1) (\<lambda>_. rbind (assertc r2) (\<lambda>_. Inr False))))"

definition setup_secondary_socket :: "reply \<Rightarrow> client \<Rightarrow> string \<times> bool" where
  "setup_secondary_socket reply c =
     (''{\"node_id\": '' @ decimal (unat (c_node_id c)) @ ''}'', case reply of Reply _ \<Rightarrow> True | _ \<Rightarrow> False)"

section \<open>Specification\<close>

text \<open>The documents the server's messages denote.\<close>

definition reply_doc :: "'sock global \<Rightarrow> node_t \<Rightarrow> json" where
  "reply_doc g nd = JObject [(''status'', JString ''success''), (''data'', JObject
     [(''sgxmax'', JInteger (uint (sgxmax g))), (''sgxt_lower'', JInteger (uint (sgxt_lowerbound g))),
      (''node_id'', JInteger (uint (node_id nd))), (''n_tiers'', JInteger (uint (n_tiers g))),
      (''server_starting_time'', JInteger (uint (of_int (server_starting_time g) :: size_t)))])]"

definition notification_doc :: "size_t list \<Rightarrow> node_t list \<Rightarrow> json" where
  "notification_doc xs tbl = JObject [(''data'', JObject
     [(''queue'', JArray (map (\<lambda>x. JInteger (uint x)) xs)), (''sgx_table'', JArray (map node_json tbl))])]"

text \<open>The total of the pauses of a schedule.\<close>

fun slept :: "action list \<Rightarrow> int" where
  "slept [] = 0"
| "slept (Sleep n # acts) = n + slept acts"
| "slept (_ # acts) = slept acts"

definition notification_text :: "size_t list \<Rightarrow> node_t list \<Rightarrow> string" where
  "notification_text xs tbl = ''{\"data\":{\"queue\": ['' @ join (map (\<lambda>x. decimal (unat x)) xs)
     @ ''], \"sgx_table\": ['' @ join (map node_text tbl) @ '']}}''"

text \<open>A node's report to the server that it still has \<open>r\<close> seconds left.\<close>

definition readdition :: "node_t \<Rightarrow> int \<Rightarrow> string" where
  "readdition nd r = ''{\"method\":\"unfinished_node\", \"data\": '' @ node_text (nd\<lparr>time_left := of_int r\<rparr>) @ ''}''"

text \<open>What a schedule up to the leadership time \<open>t\<close> looks like.\<close>

definition leads_at :: "node_t \<Rightarrow> int \<Rightarrow> action list \<Rightarrow> bool" where
  "leads_at nd t acts \<longleftrightarrow> slept acts = t \<and> Lead \<notin> set acts \<and> (\<forall>d. Sleep d \<in> set acts \<longrightarrow> 0 \<le> d)
     \<and> (\<forall>m. Notify m \<in> set acts \<longrightarrow> (\<exists>r. 0 < r \<and> r < uint (time_left nd) \<and> m = readdition nd r))"

definition sample_client :: "size_t queue_t \<Rightarrow> node_t list \<Rightarrow> client" where
  "sample_client q tbl = \<lparr>c_sgxt = 0, c_sgxmax = 10, c_ntiers = 2, c_lowerbound = 1, c_node_id = 3, c_starting_time = 0,
     c_current_time = 0, c_table = tbl, c_queue = q, c_locked = False, c_rejoin = 0\<rparr>"

section \<open>Reading the server's messages\<close>

lemma read_int_bfs:
  "read_int json name upd s = (case bfs name [json] of
     Some (JInteger i) \<Rightarrow> Inr (True, upd i (snd s)) | _ \<Rightarrow> Inr (False, snd s))"
  by (simp add: read_int_def find_value_bfs del: bfs.simps)

lemma reply_doc_bfs:
  "bfs ''status'' [reply_doc g nd] = Some (JString ''success'')"
  "bfs ''sgxmax'' [reply_doc g nd] = Some (JInteger (uint (sgxmax g)))"
  "bfs ''sgxt_lower'' [reply_doc g nd] = Some (JInteger (uint (sgxt_lowerbound g)))"
  "bfs ''node_id'' [reply_doc g nd] = Some (JInteger (uint (node_id nd)))"
  "bfs ''n_tiers'' [reply_doc g nd] = Some (JInteger (uint (n_tiers g)))"
  "bfs ''server_starting_time'' [reply_doc g nd] = Some (JInteger (uint (of_int (server_starting_time g) :: size_t)))"
  by (simp_all add: reply_doc_def entries_def children_def streq_def cstr_def)

lemma notification_doc_bfs:
  "bfs ''queue'' [notification_doc xs tbl] = Some (JArray (map (\<lambda>x. JInteger (uint x)) xs))"
  "bfs ''sgx_table'' [notification_doc xs tbl] = Some (JArray (map node_json tbl))"
  by (simp_all add: notification_doc_def entries_def children_def streq_def cstr_def)

lemma read_node_json:
  assumes "\<And>i. u_integer lib (JInteger i) = i" and "time_left nd \<le> sgx_time nd"
  shows "json_to_node_t lib (node_json nd) x = Inr (True, nd)"
  using json_to_node_t_node_json [of lib nd x, OF assms(1)] assms(2) by (simp add: min_absorb1)

lemma ucast_integer: "unat x < 2 ^ 32 \<Longrightarrow> ucast (of_int (uint x) :: uint) = x" for x :: size_t
  by (simp add: word_unat_eq_iff unat_ucast_size_t unat_ucast_uint flip: ucast_eq)

lemma sint_of_int_uint: "- (2 ^ 31) \<le> k \<Longrightarrow> k < 2 ^ 31 \<Longrightarrow> sint (of_int k :: uint) = k"
  using signed_take_bit_int_eq_self [of 31 k] sint_sbintrunc' [where ?'a = 32, of k] by simp

lemma read_nodes_run:
  assumes "\<And>i. u_integer lib (JInteger i) = i" and "list_all (\<lambda>nd. time_left nd \<le> sgx_time nd) nds"
  shows "read_nodes lib (map node_json nds) tbl = Inr (True, tbl @ nds)"
  using assms(2) by (induction nds arbitrary: tbl) (simp_all add: read_node_json [OF assms(1)])

lemma read_ids_run:
  assumes "\<And>i. u_integer lib (JInteger i) = i" and "list_all (\<lambda>x. unat x < 2 ^ 32) xs" and "queue_rep q ys"
  shows "\<exists>q'. read_ids lib (map (\<lambda>x. JInteger (uint x)) xs) q = Inr (True, q') \<and> queue_rep q' (ys @ xs)"
  using assms(2,3)
proof (induction xs arbitrary: q ys)
  case (Cons x xs)
  have "ucast (of_int (uint x) :: uint) = x" using ucast_integer Cons.prems(1) by simp
  moreover obtain q1 where "queue_push q x = Inr q1" "queue_rep q1 (ys @ [x])"
    using queue_rep_push [OF Cons.prems(2), of x True True] by (auto simp: queue_push_def)
  moreover from Cons.IH [OF _ this(2)] Cons.prems(1) obtain q' where
    "read_ids lib (map (\<lambda>x. JInteger (uint x)) xs) q1 = Inr (True, q')" "queue_rep q' (ys @ x # xs)" by auto
  ultimately show ?case by (simp add: assms(1))
qed simp

lemma update_run:
  assumes ints: "\<And>i. u_integer lib (JInteger i) = i" and parses: "json_parse lib buffer = Some (notification_doc xs tbl)"
    and comp: "check_json_compliance lib buffer" and free: "\<not> c_locked c" and q: "queue_wf (c_queue c)"
    and tbl: "list_all (\<lambda>nd. time_left nd \<le> sgx_time nd) tbl" and xs: "list_all (\<lambda>x. unat x < 2 ^ 32) xs"
  shows "\<exists>q'. update_sgx_table_and_queue_from_txt lib now buffer c =
      Inr (True, c\<lparr>c_queue := q', c_table := tbl, c_current_time := now - c_starting_time c\<rparr>) \<and> queue_rep q' xs"
proof -
  obtain ys where "queue_rep (c_queue c) ys" using q by (auto simp: queue_wf_def)
  then obtain d where d: "queue_destructor 0 (c_queue c) False = Inr d" using queue_rep_destructor by metis
  obtain q' where q': "read_ids lib (map (\<lambda>x. JInteger (uint x)) xs) (fresh_queue True) = Inr (True, q')" "queue_rep q' xs"
    using read_ids_run [OF ints xs fresh_queue_rep] by auto
  have "get_queue_from_json lib False (notification_doc xs tbl) c = Inr (True, c\<lparr>c_queue := q'\<rparr>)"
    using d q'(1) by (simp add: get_queue_from_json_def find_value_bfs notification_doc_bfs del: bfs.simps)
  moreover have "get_sgx_table_from_json lib False (notification_doc xs tbl) c' = Inr (True, c'\<lparr>c_table := tbl\<rparr>)" for c'
    using read_nodes_run [OF ints tbl, of "[]"] by (simp add: get_sgx_table_from_json_def find_value_bfs notification_doc_bfs del: bfs.simps)
  ultimately show ?thesis using comp free parses q'(2)
    by (intro exI [of _ q']) (simp add: update_sgx_table_and_queue_from_txt_def get_both_from_json_def)
qed

section \<open>The schedule\<close>

lemma slept_append: "slept (xs @ ys) = slept xs + slept ys"
  by (induction xs rule: slept.induct) auto

lemma notify_readdition_run:
  assumes "0 < r" and "r < uint (sgx_time (c_table c ! unat (c_node_id c)))" and "unat (c_node_id c) < length (c_table c)"
  shows "notify_readdition_of_node_into_queue r c = Inr (readdition (c_table c ! unat (c_node_id c)) r)"
proof -
  have "uint (of_int r :: uint) = r"
    using assms(1,2) uint_lt2p [of "sgx_time (c_table c ! unat (c_node_id c))"] by (simp add: uint_word_of_int)
  then have "(of_int r :: uint) < sgx_time (c_table c ! unat (c_node_id c))" using assms(2) by (simp add: word_less_def)
  then show ?thesis using assms by (simp add: notify_readdition_of_node_into_queue_def readdition_def)
qed

text \<open>
  The times of the notifications count from the start of the schedule, but each is subtracted from
  what the previous one left: after 5 and 8 of 20 seconds the reports say 15 and 7 instead of 12.
\<close>

lemma notify_subtracts_absolute_times:
  assumes "unat (c_node_id c) < length (c_table c)" and "c_table c ! unat (c_node_id c) = nd" and "20 < uint (sgx_time nd)"
  shows "notify_loop c 10 [5, 8] 0 20 = Inr [Sleep 5, Notify (readdition nd 15), Sleep 3, Notify (readdition nd 7), Sleep 2, Lead]"
  using notify_readdition_run [of 15 c] notify_readdition_run [of 7 c] assms by simp

lemma leads_at_join:
  assumes "leads_at nd 0 xs" and "leads_at nd t ys" and "0 \<le> d"
  shows "leads_at nd (d + t) (Sleep d # xs @ ys)"
  using assms by (auto simp: leads_at_def slept_append)

lemma notify_loop_leads:
  assumes "sorted_wrt (<) ns" and "\<forall>n \<in> set ns. t < n \<and> n \<le> l" and "0 \<le> t" and "t \<le> l"
    and "r \<le> uint (time_left (c_table c ! unat (c_node_id c)))" and "unat (c_node_id c) < length (c_table c)"
    and "- (2 ^ 31) \<le> r - sum_list ns" and "r < 2 ^ 31"
    and "time_left (c_table c ! unat (c_node_id c)) \<le> sgx_time (c_table c ! unat (c_node_id c))"
  shows "\<exists>acts. notify_loop c l ns t r = Inr (acts @ [Lead]) \<and> leads_at (c_table c ! unat (c_node_id c)) (l - t) acts"
  using assms
proof (induction ns arbitrary: t r)
  case Nil
  then show ?case by (intro exI [of _ "[Sleep (l - t)]"]) (simp add: leads_at_def)
next
  case (Cons n ns)
  let ?nd = "c_table c ! unat (c_node_id c)"
  let ?as = "if r - n > 0 then rbind (notify_readdition_of_node_into_queue (r - n) c) (\<lambda>m. Inr [Notify m]) else Inr []"
  have n: "t < n" "n \<le> l" "\<forall>m \<in> set ns. n < m \<and> m \<le> l" using Cons.prems(1,2) by auto
  have "0 \<le> sum_list ns" using n Cons.prems(3) by (intro sum_list_nonneg) force
  then have wrap: "sint (of_int (r - n) :: uint) = r - n"
    using Cons.prems(3,7,8) n(1) by (intro sint_of_int_uint) auto
  have step: "notify_loop c l (n # ns) t r = rbind ?as (\<lambda>acts. rbind (notify_loop c l ns n (r - n))
     (\<lambda>acts'. Inr (Sleep (n - t) # acts @ acts')))"
    using n(1) unfolding notify_loop.simps Let_def wrap by simp
  obtain acts where acts: "?as = Inr acts" "leads_at ?nd 0 acts"
  proof (cases "r - n > 0")
    case True
    then have r: "r - n < uint (time_left ?nd)" using Cons.prems(3,5) n(1) by simp
    moreover have "uint (time_left ?nd) \<le> uint (sgx_time ?nd)" using Cons.prems(9) by (simp add: word_le_def)
    moreover have "leads_at ?nd 0 [Notify (readdition ?nd (r - n))]"
      unfolding leads_at_def using True r by (auto intro!: exI [of _ "r - n"])
    ultimately show ?thesis using True notify_readdition_run [of "r - n" c] Cons.prems(6) that by auto
  qed (use that [of "[]"] in \<open>simp add: leads_at_def\<close>)
  from Cons.IH [of n "r - n"] Cons.prems n obtain acts' where
    "notify_loop c l ns n (r - n) = Inr (acts' @ [Lead])" "leads_at ?nd (l - n) acts'" by auto
  with acts leads_at_join [OF acts(2) this(2), of "n - t"] n(1) show ?case
    by (intro exI [of _ "Sleep (n - t) # acts @ acts'"]) (simp add: step del: notify_loop.simps)
qed

text \<open>A list of distinct times is short enough for the sum of its elements to stay within an int.\<close>

lemma ascending_sum:
  fixes ns :: "int list"
  assumes "sorted_wrt (<) ns" and "\<forall>n \<in> set ns. 0 < n \<and> n \<le> l" and "0 \<le> l"
  shows "sum_list ns \<le> l * l"
proof -
  have "distinct ns" using assms(1) strict_sorted_iff by blast
  moreover have "set ns \<subseteq> {1..l}" using assms(2) by auto
  ultimately have "length ns \<le> nat l" using card_mono [of "{1..l}" "set ns"] by (simp add: distinct_card)
  moreover have "sum_list ns \<le> int (length ns) * l" using assms(2) by (induction ns) (auto simp: algebra_simps)
  ultimately show ?thesis using assms(3) mult_right_mono [of "int (length ns)" l l] by linarith
qed

lemma sorted_wrt_dropWhile: "sorted_wrt R xs \<Longrightarrow> sorted_wrt R (dropWhile P xs)"
  by (metis dropWhile_eq_drop sorted_wrt_drop)

lemma trimmed_ascending:
  fixes ts :: "int list"
  assumes "sorted_wrt (\<lambda>a b. a < b \<or> a = 0 \<and> b = 0) ts" and "\<forall>x \<in> set ts. 0 \<le> x \<and> x \<le> l"
  defines "ns \<equiv> dropWhile (\<lambda>n. n = 0) (rev (dropWhile (\<lambda>n. n = l) (rev ts)))"
  shows "sorted_wrt (<) ns" and "\<forall>x \<in> set ns. 0 < x \<and> x \<le> l"
proof -
  let ?us = "rev (dropWhile (\<lambda>n. n = l) (rev ts))"
  obtain k where us: "?us = take k ts" by (metis dropWhile_eq_drop rev_drop rev_rev_ident)
  have 1: "sorted_wrt (\<lambda>a b. a < b \<or> a = 0 \<and> b = 0) ns"
    unfolding ns_def us using assms(1) by (intro sorted_wrt_dropWhile sorted_wrt_take)
  have 2: "\<forall>x \<in> set ns. 0 \<le> x \<and> x \<le> l"
    using assms(2) unfolding ns_def us by (meson set_dropWhileD in_set_takeD)
  have "\<forall>x \<in> set ns. 0 < x"
  proof (cases ns)
    case (Cons n ns')
    then have "n \<noteq> 0" using hd_dropWhile [of "\<lambda>n. n = 0" ?us] unfolding ns_def by force
    with Cons 1 2 show ?thesis by force
  qed simp
  with 2 show "\<forall>x \<in> set ns. 0 < x \<and> x \<le> l" by blast
  show "sorted_wrt (<) ns" using 1 by (rule sorted_wrt_mono_rel [rotated]) (use \<open>\<forall>x \<in> set ns. 0 < x\<close> in force)
qed

lemma schedule_leads:
  assumes "sorted_wrt (\<lambda>a b. a < b \<or> a = 0 \<and> b = 0) ts" and "\<forall>x \<in> set ts. 0 \<le> x \<and> x \<le> l" and "0 \<le> l" and "l < 2 ^ 15"
    and id: "unat (c_node_id c) < length (c_table c)" and nd: "nd = c_table c ! unat (c_node_id c)"
    and left: "time_left nd \<le> sgx_time nd" "unat (sgx_time nd) < 2 ^ 31"
  shows "\<exists>acts. schedule c nd ts l = Inr (acts @ [Lead], c) \<and> leads_at nd l acts"
proof -
  let ?ns = "dropWhile (\<lambda>n. n = 0) (rev (dropWhile (\<lambda>n. n = l) (rev ts)))"
  note ns = trimmed_ascending [OF assms(1,2)]
  have "l * l \<le> 2 ^ 15 * 2 ^ 15" using assms(3,4) by (intro mult_mono) auto
  with ascending_sum [OF ns assms(3)] have sum: "sum_list ?ns \<le> 1073741824" by simp
  have left': "unat (time_left nd) < 2 ^ 31" using left by (simp add: word_le_nat_alt)
  then have s: "sint (time_left nd) = uint (time_left nd)" by (subst sint_eq_unat) simp_all
  have "\<exists>acts. notify_loop c l ?ns 0 (uint (time_left nd)) = Inr (acts @ [Lead]) \<and> leads_at nd (l - 0) acts"
    unfolding nd
  proof (rule notify_loop_leads)
    have "int (unat (time_left nd)) < int (2 ^ 31)" using left' unfolding of_nat_less_iff .
    then have "uint (time_left nd) < 2 ^ 31" by simp
    then show "uint (time_left (c_table c ! unat (c_node_id c))) < 2 ^ 31" by (simp only: nd)
    have "- 2147483648 \<le> uint (time_left nd) - sum_list ?ns" using sum uint_ge_0 [of "time_left nd"] by linarith
    then show "- (2 ^ 31) \<le> uint (time_left (c_table c ! unat (c_node_id c))) - sum_list ?ns" by (simp add: nd)
  qed (use ns assms(3) id left(1) in \<open>auto simp: nd\<close>)
  then obtain acts where "notify_loop c l ?ns 0 (uint (time_left nd)) = Inr (acts @ [Lead])" "leads_at nd l acts" by auto
  moreover have "ts = [] \<or> last ts \<le> l" using assms(2) by (cases "ts = []") auto
  ultimately show ?thesis using assms(3) by (intro exI [of _ acts]) (simp add: schedule_def s)
qed

lemma lookahead_schedule:
  fixes cl :: client
  assumes ok: "net_ok (c_table cl) (c_ntiers cl) (c_sgxmax cl)" and c: "unat (c_node_id cl) < length (c_table cl)"
    and q: "queue_rep (c_queue cl) xs" "queue_ok (c_table cl) (map ucast xs)"
    and free: "\<not> c_locked cl"
    and now: "uint (minimum_arrival_time (c_table cl) (c_table cl ! unat (c_node_id cl))) \<le> c_current_time cl"
    and small: "sum_list (map (\<lambda>nd. unat (sgx_time nd)) (c_table cl)) < 2 ^ 15"
  defines "nd \<equiv> c_table cl ! unat (c_node_id cl)"
  shows "\<exists>t. calc_leadership_time (c_queue cl) (c_table cl) nd (c_ntiers cl) (c_sgxmax cl) (c_current_time cl) = Some (Inr t)
     \<and> (if c_node_id cl \<in> ucast ` set xs \<and> 0 < unat (time_left nd)
        then t \<le> int (sum_list (map (\<lambda>nd. unat (sgx_time nd)) (c_table cl)))
          \<and> (\<exists>acts. starting_time_calculation cl = Some (Inr (acts @ [Lead], cl)) \<and> leads_at nd t acts)
        else starting_time_calculation cl = Some (Inr ([], cl\<lparr>c_rejoin := c_rejoin cl + 1\<rparr>)))"
proof -
  let ?S = "sum_list (map (\<lambda>nd. unat (sgx_time nd)) (c_table cl))"
  have entry: "unat (node_id nd) = unat (c_node_id cl)" "unat (time_left nd) \<le> unat (sgx_time nd)"
    using ok c by (auto simp: net_ok_def list_all_iff nd_def)
  have id: "node_id nd = c_node_id cl" using entry(1) by (simp add: word_unat_eq_iff)
  have "unat (sgx_time nd) \<le> ?S" unfolding nd_def using c by (intro member_le_sum_list) auto
  then have st: "unat (sgx_time nd) < 2 ^ 31" using small by simp
  let ?here = "c_node_id cl \<in> ucast ` set xs \<and> 0 < unat (time_left nd)"
  let ?delay = "c_current_time cl - uint (minimum_arrival_time (c_table cl) nd)"
  have delay: "0 \<le> ?delay" "max ?delay 0 = ?delay" using now unfolding nd_def by simp_all
  from lookahead_run [OF ok c q, of "c_current_time cl", folded nd_def, unfolded id delay(2)] delay(1)
  obtain s :: slice_state and ts where
    l: "calc_leadership_time (c_queue cl) (c_table cl) nd (c_ntiers cl) (c_sgxmax cl) (c_current_time cl) =
      Some (Inr (if ?here then max (int (unat (sl_acc s)) - ?delay) 0 else - 1))"
    and n: "calc_notification_times (c_queue cl) (c_table cl) nd (c_ntiers cl) (c_sgxmax cl) (c_current_time cl) = Some (Inr ts)"
    and acc: "unat (sl_acc s) \<le> ?S" and ts: "sorted_wrt (\<lambda>a b. a < b \<or> a = 0 \<and> b = 0) ts"
      "\<forall>t \<in> set ts. 0 \<le> t \<and> t \<le> max (int (unat (sl_acc s)) - ?delay) 0"
    by blast
  let ?t = "max (int (unat (sl_acc s)) - ?delay) 0"
  have t: "?t \<le> int ?S" "0 \<le> ?t" using acc now [folded nd_def] by (simp_all del: of_nat_unat add: max_def)
  moreover have "int ?S < 2 ^ 15" using small by simp
  ultimately have "?t < 2 ^ 15" by (rule_tac le_less_trans)
  then obtain acts where "schedule cl nd ts ?t = Inr (acts @ [Lead], cl)" "leads_at nd ?t acts"
    using schedule_leads [OF ts t(2) _ c nd_def [THEN meta_eq_to_obj_eq]] entry(2) st by (auto simp: word_le_nat_alt)
  moreover have "schedule cl nd ts (- 1) = Inr ([], cl\<lparr>c_rejoin := c_rejoin cl + 1\<rparr>)" by (simp add: schedule_def)
  ultimately show ?thesis using free c l n t(1) by (simp add: starting_time_calculation_def flip: nd_def)
qed

lemma stub_lib_simps [simp]:
  "u_integer (stub_lib s doc) (JInteger i) = i" "json_parse (stub_lib s doc) s = Some doc"
  by (simp_all add: stub_lib_def)

lemma stub_compliance: "check_json_compliance (stub_lib t doc) s = (s \<noteq> [])"
proof -
  have "compliance_loop (stub_lib t doc) () cs = (True, ())" for cs
    by (induction cs) (simp_all add: stub_lib_def)
  then show ?thesis by (simp add: check_json_compliance_def split_beta) (simp add: stub_lib_def)
qed

lemma calc_leadership_time_rep:
  "queue_rep q xs \<Longrightarrow> queue_rep q' xs \<Longrightarrow> calc_leadership_time q table nd T m now = calc_leadership_time q' table nd T m now"
  by (simp add: calc_leadership_time_def queue_print_func_dump_def queue_rep_dump)

lemma registry_lists:
  assumes "registry_ok g xs"
  shows "list_all (\<lambda>nd. time_left nd \<le> sgx_time nd) (sgx_table g)" "list_all (\<lambda>x. unat x < 2 ^ 32) xs"
proof -
  show "list_all (\<lambda>nd. time_left nd \<le> sgx_time nd) (sgx_table g)"
    using assms by (simp add: registry_ok_def entry_ok_def list_all_length word_le_nat_alt)
  show "list_all (\<lambda>x. unat x < 2 ^ 32) xs"
    using assms by (fastforce simp: registry_ok_def list_all_iff)
qed

lemma notification_message_run:
  assumes "registry_ok g xs"
  shows "\<exists>g'. notification_message g = Inr (notification_text xs (sgx_table g), g') \<and> registry_ok g' xs \<and> sgx_table g' = sgx_table g"
  using assms by (simp add: notification_message_def get_queue_text [OF assms] get_sgx_table_text notification_text_def registry_listed)

lemma word_mod_range:
  fixes l m r :: uint
  assumes "l \<le> m" and "m - l + 1 \<noteq> 0"
  shows "l \<le> l + r mod (m - l + 1) \<and> l + r mod (m - l + 1) \<le> m"
proof -
  have d: "unat (m - l + 1) = Suc (unat m - unat l)"
    using assms unatSuc [of "m - l"] by (simp add: unat_sub add.commute)
  then have "unat (r mod (m - l + 1)) \<le> unat m - unat l" using mod_less_divisor [of "unat (m - l + 1)" "unat r"] by (simp add: unat_mod)
  moreover have "unat m < 2 ^ 32" using unsigned_less [of m, where ?'a = nat] by simp
  ultimately have "unat (l + r mod (m - l + 1)) = unat l + unat (r mod (m - l + 1))"
    using assms(1) by (simp add: unat_word_ariths(1) word_le_nat_alt)
  with \<open>unat (r mod (m - l + 1)) \<le> unat m - unat l\<close> show ?thesis using assms(1) by (simp add: word_le_nat_alt)
qed

lemma registration_run:
  fixes g :: "'sock global"
  assumes "0 \<le> server_starting_time g" and "server_starting_time g < 2 ^ 63"
    and "check_json_compliance lib (register_reply g nd)" and "json_parse lib (register_reply g nd) = Some (reply_doc g nd)"
  shows "registration_reply lib (Reply (register_reply g nd)) c =
    Inr (True, c\<lparr>c_sgxmax := ucast (sgxmax g), c_lowerbound := ucast (sgxt_lowerbound g), c_node_id := node_id nd,
      c_ntiers := n_tiers g, c_starting_time := server_starting_time g\<rparr>)"
proof -
  have "uint (of_int (server_starting_time g) :: size_t) = server_starting_time g"
    using assms(1,2) by (simp add: uint_word_of_int)
  then show ?thesis using assms(3,4)
    by (simp add: registration_reply_def find_value_bfs reply_doc_bfs status_ok_def read_registration_def read_int_bfs streq_def del: bfs.simps)
qed

section \<open>Properties\<close>

text \<open>
  The time a client draws lies within the bounds it was given at its registration, and every
  time within the bounds can be drawn, unless the bounds span all 32-bit numbers, in which case the
  remainder is by zero.
\<close>

theorem generate_random_sgx_time_range:
  assumes "c_lowerbound c \<le> c_sgxmax c"
  shows "if c_sgxmax c - c_lowerbound c + 1 = 0
    then \<forall>r. generate_random_sgx_time (Some r) c = Inl Division_By_Zero
    else {t. \<exists>r. generate_random_sgx_time (Some r) c = Inr t} = {c_lowerbound c .. c_sgxmax c}"
proof -
  have "\<exists>r. c_lowerbound c + r mod (c_sgxmax c - c_lowerbound c + 1) = t"
    if d: "c_sgxmax c - c_lowerbound c + 1 \<noteq> 0" and t: "c_lowerbound c \<le> t" "t \<le> c_sgxmax c" for t
  proof -
    have "unat (c_sgxmax c - c_lowerbound c + 1) = Suc (unat (c_sgxmax c - c_lowerbound c))"
      using d unatSuc [of "c_sgxmax c - c_lowerbound c"] by (simp add: add.commute)
    then have "t - c_lowerbound c < c_sgxmax c - c_lowerbound c + 1"
      using t assms by (simp add: word_less_nat_alt word_le_nat_alt unat_sub)
    then have "(t - c_lowerbound c) mod (c_sgxmax c - c_lowerbound c + 1) = t - c_lowerbound c"
      by (simp add: word_arith_nat_mod word_less_nat_alt)
    then show ?thesis by (intro exI [of _ "t - c_lowerbound c"]) simp
  qed
  then show ?thesis using word_mod_range [OF assms] by (fastforce simp: generate_random_sgx_time_def Let_def)
qed

theorem generate_random_sgx_time_range_witness:
  "{t. \<exists>r. generate_random_sgx_time (Some r) (sample_client test_queue []) = Inr t} = {1 .. 10}"
  using generate_random_sgx_time_range [of "sample_client test_queue []"] by (simp add: sample_client_def)

text \<open>
  A client reads from the server's reply to its registration what the server printed: the
  bounds, the number of tiers, its id and the starting time. The parser is assumed to read the reply
  as written.
\<close>

theorem registration_roundtrip:
  fixes g :: "'sock global"
  assumes "0 \<le> server_starting_time g" and "server_starting_time g < 2 ^ 63"
    and "check_json_compliance lib (register_reply g nd)" and "json_parse lib (register_reply g nd) = Some (reply_doc g nd)"
  shows "registration_reply lib (Reply (register_reply g nd)) c =
    Inr (True, c\<lparr>c_sgxmax := ucast (sgxmax g), c_lowerbound := ucast (sgxt_lowerbound g), c_node_id := node_id nd,
      c_ntiers := n_tiers g, c_starting_time := server_starting_time g\<rparr>)"
  using registration_run [OF assms] .

theorem registration_roundtrip_witness:
  "\<exists>lib :: unit json_lib. registration_reply lib (Reply (register_reply (one_node test_queue) (test_node 3 5))) (sample_client test_queue []) =
    Inr (True, (sample_client test_queue [])\<lparr>c_sgxmax := ucast (sgxmax (one_node test_queue)), c_lowerbound := ucast (sgxt_lowerbound (one_node test_queue)),
      c_node_id := node_id (test_node 3 5), c_ntiers := n_tiers (one_node test_queue), c_starting_time := server_starting_time (one_node test_queue)\<rparr>)"
proof -
  let ?g = "one_node test_queue" and ?nd = "test_node 3 5"
  have "check_json_compliance (stub_lib (register_reply ?g ?nd) (reply_doc ?g ?nd)) (register_reply ?g ?nd)"
    unfolding stub_compliance by (simp add: register_reply_def)
  moreover have "0 \<le> server_starting_time ?g" "server_starting_time ?g < 2 ^ 63" by (simp_all add: one_node_def initial_global_def)
  moreover have "json_parse (stub_lib (register_reply ?g ?nd) (reply_doc ?g ?nd)) (register_reply ?g ?nd) = Some (reply_doc ?g ?nd)"
    by simp
  ultimately show ?thesis using registration_roundtrip by blast
qed

text \<open>
  A notification leaves the client with the server's table and queue: the text of the server's
  notification, read back by the client, gives a queue of the same ids in the same order and the
  same table entries. The parser is assumed to read the text as written.
\<close>

theorem notification_roundtrip:
  fixes g :: "'sock global"
  assumes "registry_ok g xs" and "check_json_compliance lib (notification_text xs (sgx_table g))"
    and "json_parse lib (notification_text xs (sgx_table g)) = Some (notification_doc xs (sgx_table g))"
    and "\<And>i. u_integer lib (JInteger i) = i" and "\<not> c_locked c" and "queue_wf (c_queue c)"
  shows "\<exists>buffer g' q'. notification_message g = Inr (buffer, g') \<and> registry_ok g' xs
     \<and> update_sgx_table_and_queue_from_txt lib now buffer c =
        Inr (True, c\<lparr>c_queue := q', c_table := sgx_table g, c_current_time := now - c_starting_time c\<rparr>)
     \<and> queue_rep q' xs"
proof -
  have "list_all (\<lambda>nd. time_left nd \<le> sgx_time nd) (sgx_table g)" "list_all (\<lambda>x. unat x < 2 ^ 32) xs"
    using assms(1) registry_lists by blast+
  with update_run [OF assms(4,3,2,5,6)] notification_message_run [OF assms(1)] show ?thesis by blast
qed

theorem notification_roundtrip_witness:
  "\<exists>q (lib :: unit json_lib) buffer g' q'. notification_message (one_node q) = Inr (buffer, g')
     \<and> update_sgx_table_and_queue_from_txt lib 7 buffer (sample_client q []) =
        Inr (True, (sample_client q [])\<lparr>c_queue := q', c_table := [test_node 0 5], c_current_time := 7\<rparr>)
     \<and> queue_rep q' [0]"
proof -
  obtain q where q: "queue_rep q [0 :: size_t]" "tolerant (q_heap q)" using queue_rep_exists [of _ True] by blast
  let ?tbl = "sgx_table (one_node q)" and ?c = "sample_client q []"
  let ?lib = "stub_lib (notification_text [0] ?tbl) (notification_doc [0] ?tbl)"
  have "check_json_compliance ?lib (notification_text [0] ?tbl)" unfolding stub_compliance by (simp add: notification_text_def)
  moreover have "queue_wf (c_queue ?c)" "\<not> c_locked ?c" "c_starting_time ?c = 0" using q by (auto simp: sample_client_def queue_wf_def)
  ultimately show ?thesis
    using notification_roundtrip [OF one_node_registry [OF q], of ?lib ?c 7]
    by (intro exI [of _ q] exI [of _ ?lib]) (auto simp: one_node_def)
qed

text \<open>
  A calculation that finds the client's id beyond the table ends its thread while it holds both
  mutexes. No later notification is ever read and no later calculation ends.
\<close>

theorem stale_table_blocks:
  assumes "\<not> c_locked c" and "length (c_table c) \<le> unat (c_node_id c)"
  shows "\<exists>c'. starting_time_calculation c = Some (Inr ([], c')) \<and> starting_time_calculation c' = None
     \<and> (check_json_compliance lib buffer \<longrightarrow> update_sgx_table_and_queue_from_txt lib now buffer c' = Inl Diverges)"
  using assms by (simp add: starting_time_calculation_def update_sgx_table_and_queue_from_txt_def)

theorem stale_table_blocks_witness:
  "\<exists>c'. starting_time_calculation (sample_client test_queue []) = Some (Inr ([], c')) \<and> starting_time_calculation c' = None
     \<and> (check_json_compliance (stub_lib [] JNull) [] \<longrightarrow>
          update_sgx_table_and_queue_from_txt (stub_lib [] JNull) 0 [] c' = Inl Diverges)"
  by (rule stale_table_blocks) (simp_all add: sample_client_def)

end
