(* ===== verification/Notifier.thy ===== *)
theory Notifier imports Client
begin

text \<open>
  The notification thread of \<^verbatim>\<open>poet_server.cpp\<close> beside the handlers: when a change of the table or the
  queue reaches the subscribers, and when it does not. Every change ends in a broadcast on the
  condition of the queue, which wakes the thread if it waits; nothing remembers a broadcast that
  comes while it sends.
\<close>

section \<open>The thread\<close>

text \<open>
  Where \<^verbatim>\<open>sgx_table_and_queue_notification\<close> stands: before \<^verbatim>\<open>queue_wait_change\<close>, in it, after it,
  with the message at hand, and with threads that still send it to some sockets.
\<close>

datatype 'sock notify_phase = Idle | Waiting | Woken | Composed string | Sending string "'sock list"

text \<open>The server, the phase of the thread and what was sent to each secondary socket.\<close>

type_synonym 'sock net = "'sock server \<times> 'sock notify_phase \<times> ('sock \<Rightarrow> string list)"

definition broadcasts :: "'sock global \<Rightarrow> nat" where
  "broadcasts g = count_list (q_calls (g_queue g)) Broadcast"

text \<open>A broadcast between two states wakes the thread only while it waits.\<close>

definition wake :: "'sock global \<Rightarrow> 'sock global \<Rightarrow> 'sock notify_phase \<Rightarrow> 'sock notify_phase" where
  "wake g g' ph = (if ph = Waiting \<and> broadcasts g < broadcasts g' then Woken else ph)"

text \<open>
  The steps: a handler runs; the thread starts to wait, its wait fails, or it returns without a
  broadcast (which POSIX allows, \<open>spurious\<close>); the thread builds the message under the lock of the
  table, hands it to a thread for every secondary socket, these send it in any order, and all of
  them are joined.
\<close>

inductive notifier_step :: "'c json_lib \<Rightarrow> bool \<Rightarrow> 'sock net \<Rightarrow> 'sock net \<Rightarrow> bool" for lib spurious where
  serve: "server_step lib (g, conns) (g', conns') \<Longrightarrow> notifier_step lib spurious ((g, conns), ph, inbox) ((g', conns'), wake g g' ph, inbox)"
| wait: "notifier_step lib spurious (s, Idle, inbox) (s, Waiting, inbox)"
| failed: "\<not> fst (queue_wait_change True ok) \<Longrightarrow> notifier_step lib spurious (s, Waiting, inbox) (s, Idle, inbox)"
| spurious: "spurious \<Longrightarrow> notifier_step lib spurious (s, Waiting, inbox) (s, Woken, inbox)"
| compose: "notification_message g = Inr (buffer, g') \<Longrightarrow> notifier_step lib spurious ((g, conns), Woken, inbox) ((g', conns), Composed buffer, inbox)"
| dispatch: "notifier_step lib spurious ((g, conns), Composed buffer, inbox) ((g, conns), Sending buffer (map snd (secondary_socket_comms g)), inbox)"
| send: "k < length socks \<Longrightarrow> notifier_step lib spurious (s, Sending buffer socks, inbox)
    (s, Sending buffer (take k socks @ drop (Suc k) socks), inbox(socks ! k := inbox (socks ! k) @ [buffer]))"
| joined: "notifier_step lib spurious (s, Sending buffer [], inbox) (s, Idle, inbox)"

section \<open>Specification\<close>

text \<open>Between \<open>s1\<close> and \<open>s\<close> the thread has built the message \<open>m\<close>.\<close>

definition composed :: "('sock net \<Rightarrow> 'sock net \<Rightarrow> bool) \<Rightarrow> 'sock net \<Rightarrow> string \<Rightarrow> 'sock net \<Rightarrow> bool" where
  "composed step s1 m s \<longleftrightarrow> (\<exists>g conns inbox g'. step\<^sup>*\<^sup>* s1 ((g, conns), Woken, inbox) \<and> notification_message g = Inr (m, g')
     \<and> step\<^sup>*\<^sup>* ((g, conns), Woken, inbox) s)"

text \<open>It has then sent it to all the sockets that were subscribed, up to those in \<open>socks\<close>.\<close>

definition dispatched :: "('sock net \<Rightarrow> 'sock net \<Rightarrow> bool) \<Rightarrow> 'sock net \<Rightarrow> string \<Rightarrow> 'sock list \<Rightarrow> 'sock net \<Rightarrow> bool" where
  "dispatched step s1 m socks s \<longleftrightarrow> (\<exists>g conns inbox. composed step s1 m ((g, conns), Composed m, inbox)
     \<and> step\<^sup>*\<^sup>* ((g, conns), Composed m, inbox) s \<and> (\<forall>soc \<in> snd ` set (secondary_socket_comms g). soc \<in> set socks \<or> m \<in> set (snd (snd s) soc)))"

definition round_inv :: "('sock net \<Rightarrow> 'sock net \<Rightarrow> bool) \<Rightarrow> 'sock net \<Rightarrow> 'sock net \<Rightarrow> bool" where
  "round_inv step s1 s \<longleftrightarrow> (case fst (snd s) of Woken \<Rightarrow> True | Composed m \<Rightarrow> composed step s1 m s | Sending m socks \<Rightarrow> dispatched step s1 m socks s
     | _ \<Rightarrow> (\<exists>m. dispatched step s1 m [] s))"

text \<open>A step of the server that leaves what is notified as it was, and makes no broadcast.\<close>

definition quiet :: "'sock global \<Rightarrow> 'sock global \<Rightarrow> bool" where
  "quiet g g' \<longleftrightarrow> sgx_table g' = sgx_table g \<and> (\<forall>xs. registry_ok g' xs = registry_ok g xs) \<and> broadcasts g' = broadcasts g"

text \<open>A part of a run that makes no broadcast leaves what is notified as it was.\<close>

definition calm :: "'sock net \<Rightarrow> 'sock net \<Rightarrow> bool" where
  "calm s s' \<longleftrightarrow> broadcasts (fst (fst s)) \<le> broadcasts (fst (fst s'))
     \<and> (broadcasts (fst (fst s')) = broadcasts (fst (fst s)) \<longrightarrow> quiet (fst (fst s)) (fst (fst s')))"

text \<open>A server with one subscriber, and connections on which node 0 is registered.\<close>

definition subscribed :: "unit global" where
  "subscribed = (initial_global True 0 1 9 1)\<lparr>secondary_socket_comms := [(0, ())]\<rparr>"

definition open_conns :: "nat \<Rightarrow> poet_context \<times> conn" where
  "open_conns k = (empty_context\<lparr>ctx_node := Some zero_node\<rparr>, new_conn)"

section \<open>Changes and broadcasts\<close>

lemma unlocked_calls:
  "queue_pop_custom q False False = Inr q' \<Longrightarrow> q_calls q' = q_calls q"
  "queue_push_custom ok q x False False = Inr q' \<Longrightarrow> q_calls q' = q_calls q"
  "queue_selective_remove a b del c q dealloc False = Inr (n, c', ds, q') \<Longrightarrow> q_calls q' = q_calls q"
  "queue_print_func_dump_custom q f dest False = Inr (dest', q') \<Longrightarrow> q' = q"
  "queue_size_custom q False = (sz, q') \<Longrightarrow> q' = q"
  by (auto simp: queue_pop_custom_def queue_push_custom_def queue_selective_remove_def queue_print_func_dump_custom_def
      queue_size_custom_def call_def Let_def res_simps split: option.splits if_splits prod.splits)

lemma queue_cleanup_calls: "queue_cleanup lock g = Inr g' \<Longrightarrow> q_calls (g_queue g') = q_calls (g_queue g)"
  by (auto simp: queue_cleanup_def res_simps dest!: unlocked_calls split: if_splits)

lemma rfold_calls:
  "(\<And>q x q'. f q x = Inr q' \<Longrightarrow> q_calls q' = q_calls q) \<Longrightarrow> rfold f q xs = Inr q' \<Longrightarrow> q_calls q' = q_calls q"
  by (induction xs arbitrary: q) (auto simp: res_simps)

lemma fill_missing_calls: "fill_missing g = Inr g' \<Longrightarrow> q_calls (g_queue g') = q_calls (g_queue g)"
  by (auto simp: fill_missing_def res_simps dest!: unlocked_calls(4,5) rfold_calls [rotated] dest: unlocked_calls(2)
      split: if_splits prod.splits)

lemma broadcast_calls [simp]: "q_calls (queue_broadcast q) = q_calls q @ [Broadcast]"
  by (simp add: queue_broadcast_def)

lemma insert_broadcasts:
  assumes "insert_node_into_sgx_table_and_queue locks g node = Inr g'"
  shows "broadcasts g' = Suc (broadcasts g)"
proof -
  obtain g1 where g1: "(if unat (node_id node) < length (sgx_table g) then insert_known g node else insert_new g node) = Inr g1" "fill_missing g1 = Inr g'"
    using assms by (auto simp: insert_node_into_sgx_table_and_queue_def res_simps)
  have "q_calls (g_queue g1) = q_calls (g_queue g) @ [Broadcast]"
    using g1(1) by (auto simp: insert_known_def insert_new_def res_simps Let_def dest!: queue_cleanup_calls unlocked_calls split: if_splits prod.splits)
  with fill_missing_calls [OF g1(2)] show ?thesis by (simp add: broadcasts_def)
qed

lemma unfinished_broadcasts:
  "unfinished_update g node = Inr (ok, g') \<Longrightarrow> g' = g \<or> broadcasts g' = Suc (broadcasts g)"
  by (auto simp: unfinished_update_def broadcasts_def res_simps Let_def dest!: queue_cleanup_calls unlocked_calls split: if_splits)

lemma quiet_refl [simp]: "quiet g g"
  by (simp add: quiet_def)

lemma get_queue_quiet: "get_queue_str g = Inr (s, g') \<Longrightarrow> quiet g g'"
  by (auto simp: get_queue_str_def queue_print_func_dump_def queue_print_func_dump_custom_def res_simps quiet_def broadcasts_def
      registry_listed)

lemma register_quiet: "poet_register lib env data (g, ctx, soc) = Inr (ok, g', ctx', soc') \<Longrightarrow> quiet g g'"
proof -
  assume "poet_register lib env data (g, ctx, soc) = Inr (ok, g', ctx', soc')"
  then obtain i k where "g' = g\<lparr>current_id := i, public_keys := k\<rparr>" using poet_register_limits by blast
  then show ?thesis by (simp add: quiet_def broadcasts_def)
qed

lemma queries_quiet:
  "poet_get_queue lib env data (g, ctx, soc) = Inr (ok, g', ctx', soc') \<Longrightarrow> quiet g g'"
  "poet_get_sgxtable_and_queue lib env data (g, ctx, soc) = Inr (ok, g', ctx', soc') \<Longrightarrow> quiet g g'"
  "poet_get_sgxtable lib env data (g, ctx, soc) = Inr (ok, g', ctx', soc') \<Longrightarrow> quiet g g'"
  "poet_remote_attestation lib env data (g, ctx, soc) = Inr (ok, g', ctx', soc') \<Longrightarrow> quiet g g'"
  "poet_close_connection lib env data (g, ctx, soc) = Inr (ok, g', ctx', soc') \<Longrightarrow> quiet g g'"
  by (auto simp: poet_get_queue_def poet_get_sgxtable_and_queue_def poet_get_sgxtable_def poet_remote_attestation_def
      poet_close_connection_def Let_def res_simps split_beta dest: get_queue_quiet split: if_splits)

lemma announcement_broadcasts:
  "poet_sgx_time_broadcast lib env data (g, ctx, soc) = Inr (ok, g', ctx', soc') \<Longrightarrow> quiet g g' \<or> broadcasts g' = Suc (broadcasts g)"
  by (auto simp: poet_sgx_time_broadcast_def Let_def res_simps split_beta dest!: insert_broadcasts split: if_splits option.splits)

lemma report_broadcasts:
  "poet_unfinished_node lib env data (g, ctx, soc) = Inr (ok, g', ctx', soc') \<Longrightarrow> quiet g g' \<or> broadcasts g' = Suc (broadcasts g)"
  by (auto simp: poet_unfinished_node_def Let_def res_simps split_beta dest!: unfinished_broadcasts split: if_splits)

lemma server_step_broadcasts:
  fixes g :: "'sock global"
  assumes "server_step lib (g, conns) (g', conns')"
  shows "quiet g g' \<or> broadcasts g' = Suc (broadcasts g)"
  using assms
proof (cases rule: server_step.cases)
  case (message k ctx soc buffer env ok ctx' soc')
  from delegate_message_cases [OF message(6)] show ?thesis
    by (auto dest!: find_poet_function dest: register_quiet queries_quiet announcement_broadcasts report_broadcasts)
next
  case (secondary env msg socket soc soc')
  then obtain s where "g' = g\<lparr>secondary_socket_comms := s\<rparr>" using secondary_addition_limits [of lib env msg socket g soc] by blast
  then show ?thesis by (simp add: quiet_def broadcasts_def)
qed simp

section \<open>Runs\<close>

lemma quiet_trans: "quiet g g1 \<Longrightarrow> quiet g1 g2 \<Longrightarrow> quiet g g2"
  by (simp add: quiet_def)

lemma message_quiet: "notification_message g = Inr (buffer, g') \<Longrightarrow> quiet g g'"
  by (auto simp: notification_message_def res_simps dest: get_queue_quiet)

lemma quiet_message:
  assumes "quiet g g'" and "registry_ok g xs" and "notification_message g = Inr (m, g1)"
  shows "\<exists>g2. notification_message g' = Inr (m, g2)"
  using assms notification_message_run [of g xs] notification_message_run [of g' xs] by (auto simp: quiet_def)

lemma notifier_step_calm: "notifier_step lib spurious s s' \<Longrightarrow> calm s s'"
proof (induction rule: notifier_step.induct)
  case (serve g conns g' conns' ph inbox)
  from server_step_broadcasts [OF serve] show ?case by (auto simp: calm_def quiet_def)
next
  case (compose g buffer g' conns inbox)
  from message_quiet [OF compose] show ?case by (auto simp: calm_def quiet_def)
qed (simp_all add: calm_def)

interpretation net: framed_machine "notifier_step lib spurious" "\<lambda>s. \<exists>xs. registry_ok (fst (fst s)) xs" calm
proof
  fix s s' :: "'sock net"
  assume step: "notifier_step lib spurious s s'" and reg: "\<exists>xs. registry_ok (fst (fst s)) xs"
  from step reg show "\<exists>xs. registry_ok (fst (fst s')) xs"
  proof (cases rule: notifier_step.cases)
    case (serve g conns g' conns' ph inbox)
    with reg server_step_keeps [OF serve(3)] show ?thesis by auto
  next
    case (compose g buffer g' conns inbox)
    with reg message_quiet [OF compose(3)] show ?thesis by (auto simp: quiet_def)
  qed auto
  show "calm s s'" by (rule notifier_step_calm [OF step])
next
  fix s t u :: "'sock net"
  assume "calm s t" "calm t u"
  then show "calm s u" by (auto simp: calm_def intro: quiet_trans)
qed (simp add: calm_def)

lemma inbox_grows: "notifier_step lib spurious s s' \<Longrightarrow> m \<in> set (snd (snd s) soc) \<Longrightarrow> m \<in> set (snd (snd s') soc)"
  by (induction rule: notifier_step.induct) auto

lemma composed_step: "composed step s1 m s \<Longrightarrow> step s s' \<Longrightarrow> composed step s1 m s'"
  by (auto simp: composed_def intro: rtranclp.rtrancl_into_rtrancl)

lemma dispatched_step:
  assumes "dispatched (notifier_step lib spurious) s1 m socks s" and "notifier_step lib spurious s s'"
    and "\<And>soc. soc \<in> set socks \<Longrightarrow> soc \<in> set socks' \<or> m \<in> set (snd (snd s') soc)"
  shows "dispatched (notifier_step lib spurious) s1 m socks' s'"
  using assms inbox_grows [OF assms(2)] unfolding dispatched_def by (meson rtranclp.rtrancl_into_rtrancl)

lemma removed_nth: "k < length xs \<Longrightarrow> x \<in> set xs \<Longrightarrow> x \<in> set (take k xs @ drop (Suc k) xs) \<or> x = xs ! k"
  by (metis Un_iff id_take_nth_drop insert_iff list.simps(15) set_append)

lemma round_step:
  assumes run: "(notifier_step lib spurious)\<^sup>*\<^sup>* s1 s" and step: "notifier_step lib spurious s s'" and inv: "round_inv (notifier_step lib spurious) s1 s"
  shows "round_inv (notifier_step lib spurious) s1 s'"
  using step
proof (cases rule: notifier_step.cases)
  case (serve g conns g' conns' ph inbox)
  have "composed (notifier_step lib spurious) s1 m s \<Longrightarrow> composed (notifier_step lib spurious) s1 m s'"
    and "dispatched (notifier_step lib spurious) s1 m socks s \<Longrightarrow> dispatched (notifier_step lib spurious) s1 m socks s'" for m socks
    using step composed_step dispatched_step [of lib spurious s1 m socks s s' socks] by blast+
  with inv serve(1,2) show ?thesis by (cases ph) (auto simp: round_inv_def wake_def, blast)
next
  case (compose g buffer g' conns inbox)
  then have "composed (notifier_step lib spurious) s1 buffer s'"
    using run step unfolding composed_def by blast
  with compose show ?thesis by (simp add: round_inv_def)
next
  case (dispatch g conns buffer inbox)
  then have "dispatched (notifier_step lib spurious) s1 buffer (map snd (secondary_socket_comms g)) s'"
    using inv step unfolding dispatched_def round_inv_def by fastforce
  with dispatch show ?thesis by (simp add: round_inv_def)
next
  case (send k socks srv buffer inbox)
  have "dispatched (notifier_step lib spurious) s1 buffer (take k socks @ drop (Suc k) socks) s'"
  proof (rule dispatched_step [OF _ step])
    show "dispatched (notifier_step lib spurious) s1 buffer socks s" using inv send(1) by (simp add: round_inv_def)
    show "soc \<in> set (take k socks @ drop (Suc k) socks) \<or> buffer \<in> set (snd (snd s') soc)" if "soc \<in> set socks" for soc
      using removed_nth [OF send(3) that] send(2) by auto
  qed
  with send(2) show ?thesis by (simp add: round_inv_def)
next
  case (joined s buffer inbox)
  with inv dispatched_step [OF _ step, of s1 buffer "[]" "[]"] show ?thesis by (auto simp: round_inv_def)
next
  case (wait s inbox)
  with inv dispatched_step [OF _ step, of s1 _ "[]" "[]"] show ?thesis by (auto simp: round_inv_def)
next
  case (failed ok s inbox)
  with inv dispatched_step [OF _ step, of s1 _ "[]" "[]"] show ?thesis by (auto simp: round_inv_def)
qed (simp_all add: round_inv_def)

text \<open>A round of the thread can always be brought to its end.\<close>

lemma sends_finish: "\<exists>inbox'. (notifier_step lib spurious)\<^sup>*\<^sup>* (s, Sending m socks, inbox) (s, Idle, inbox')
    \<and> (\<forall>soc. last (inbox' soc) = (if soc \<in> set socks then m else last (inbox soc)))"
proof (induction socks arbitrary: inbox)
  case Nil
  show ?case using notifier_step.joined [of lib spurious s m inbox] by auto
next
  case (Cons soc socks)
  have "notifier_step lib spurious (s, Sending m (soc # socks), inbox) (s, Sending m socks, inbox(soc := inbox soc @ [m]))"
    using notifier_step.send [of 0 "soc # socks" lib spurious s m inbox] by simp
  with Cons.IH [of "inbox(soc := inbox soc @ [m])"] show ?case
    by (elim exE conjE) (rule exI, rule conjI, erule (1) converse_rtranclp_into_rtranclp, auto)
qed

lemma round_finishes:
  assumes "registry_ok g xs"
  shows "\<exists>g' inbox'. (notifier_step lib spurious)\<^sup>*\<^sup>* ((g, conns), Woken, inbox) ((g', conns), Idle, inbox')"
proof -
  obtain g' where "notification_message g = Inr (notification_text xs (sgx_table g), g')"
    using notification_message_run [OF assms] by blast
  from notifier_step.compose [OF this, of lib spurious conns inbox] notifier_step.dispatch [of lib spurious g' conns _ inbox]
    sends_finish [of lib spurious "(g', conns)" _ _ inbox] show ?thesis by (meson converse_rtranclp_into_rtranclp)
qed

text \<open>A thread that waits or is about to do so sends nothing before the next broadcast.\<close>

lemma no_broadcast_no_message:
  assumes "(notifier_step lib False)\<^sup>*\<^sup>* s s'" and "fst (snd s) \<in> {Idle, Waiting}" and "broadcasts (fst (fst s')) = broadcasts (fst (fst s))"
  shows "fst (snd s') \<in> {Idle, Waiting} \<and> snd (snd s') = snd (snd s)"
  using assms
proof (induction rule: rtranclp_induct)
  case (step t u)
  have "(notifier_step lib False)\<^sup>*\<^sup>* s t \<Longrightarrow> broadcasts (fst (fst s)) \<le> broadcasts (fst (fst t))"
    by (induction rule: rtranclp_induct) (auto dest: notifier_step_calm simp: calm_def)
  moreover have "broadcasts (fst (fst t)) \<le> broadcasts (fst (fst u))" using notifier_step_calm [OF step.hyps(2)] by (simp add: calm_def)
  ultimately have "broadcasts (fst (fst t)) = broadcasts (fst (fst s))" using step.hyps(1) step.prems(2) by simp
  with step.IH step.prems have "fst (snd t) \<in> {Idle, Waiting} \<and> snd (snd t) = snd (snd s)" "broadcasts (fst (fst u)) = broadcasts (fst (fst t))" by simp_all
  with step.hyps(2) show ?case by (cases rule: notifier_step.cases) (auto simp: wake_def)
qed simp

section \<open>A server with a subscriber\<close>

text \<open>Node 0 announces the time 5 on a connection of its own.\<close>

lemma hello_step:
  fixes g :: "'sock global"
  assumes reg: "registry_ok g xs" and len: "Suc (length (sgx_table g)) < 2 ^ 30"
    and lim: "sgxt_lowerbound g = 1" "sgxmax g = 9" "server_starting_time g = 0" and conn: "conns k = open_conns k"
  shows "\<exists>g' ctx soc ys. server_step (stub_lib ''m'' hello_doc) (g, conns) (g', conns(k := (ctx, soc))) \<and> registry_ok g' ys
    \<and> sgx_table g' = insert_table (sgx_table g) (zero_node\<lparr>arrival_time := of_int now, sgx_time := 5, time_left := 5\<rparr>)
    \<and> sgxt_lowerbound g' = 1 \<and> sgxmax g' = 9 \<and> server_starting_time g' = 0 \<and> secondary_socket_comms g' = secondary_socket_comms g"
proof -
  let ?nd = "zero_node\<lparr>arrival_time := of_int now, sgx_time := 5, time_left := 5\<rparr>" and ?ctx = "empty_context\<lparr>ctx_node := Some zero_node\<rparr>"
  let ?lib = "stub_lib ''m'' hello_doc" and ?env = "hello_env\<lparr>env_now := now\<rparr>"
  obtain q c ys where ins: "insert_node_into_sgx_table_and_queue True g ?nd = Inr (g\<lparr>sgx_table := insert_table (sgx_table g) ?nd, g_queue := q, g_cleanup := c\<rparr>)"
    "registry_ok (g\<lparr>sgx_table := insert_table (sgx_table g) ?nd, g_queue := q, g_cleanup := c\<rparr>) ys"
    using insert_keeps [OF reg, of ?nd] len lim by (auto simp: zero_node_def Let_def)
  have nd: "zero_node\<lparr>arrival_time := word_of_int now, n_leadership := 0, sgx_time := 5, time_left := 5\<rparr> = ?nd" by (simp add: zero_node_def)
  have "\<exists>ctx soc. delegate_message ?lib ?env ''m'' (g, ?ctx, new_conn) =
      Inr (True, g\<lparr>sgx_table := insert_table (sgx_table g) ?nd, g_queue := q, g_cleanup := c\<rparr>, ctx, soc)"
    using ins(1) lim
    by (simp add: hello_delegate poet_sgx_time_broadcast_def find_value_bfs hello_bfs ucast_le_iff hello_env_def conn_send_def Let_def nd del: bfs.simps)
  moreover have "in_turn ?lib ''m'' g ?ctx" by (simp add: in_turn_def may_announce_def zero_node_def)
  moreover have "\<not> conn_closed new_conn" by (simp add: new_conn_def)
  moreover have "conns k = (?ctx, new_conn)" using conn by (simp add: open_conns_def)
  ultimately obtain ctx soc where "server_step ?lib (g, conns) (g\<lparr>sgx_table := insert_table (sgx_table g) ?nd, g_queue := q, g_cleanup := c\<rparr>, conns(k := (ctx, soc)))"
    using server_step.message len by blast
  then show ?thesis using ins(2) lim
    by (intro exI [of _ "g\<lparr>sgx_table := insert_table (sgx_table g) ?nd, g_queue := q, g_cleanup := c\<rparr>"] exI [of _ ctx] exI [of _ soc] exI [of _ ys]) simp
qed

lemma subscribed_changes:
  "\<exists>(g1 :: unit global) conns1 ys m g1' g2 conns2. registry_ok subscribed [] \<and> server_step (stub_lib ''m'' hello_doc) (subscribed, open_conns) (g1, conns1)
     \<and> registry_ok g1 ys \<and> sgx_table g1 \<noteq> sgx_table subscribed \<and> notification_message g1 = Inr (m, g1') \<and> secondary_socket_comms g1' = [(0, ())]
     \<and> server_step (stub_lib ''m'' hello_doc) (g1', conns1) (g2, conns2) \<and> sgx_table g2 \<noteq> sgx_table g1"
proof -
  let ?lib = "stub_lib ''m'' hello_doc" and ?nd = "\<lambda>now. zero_node\<lparr>arrival_time := of_int now, sgx_time := 5, time_left := 5\<rparr>"
  have reg: "registry_ok subscribed []" using initial_registry [of 0 1 9 1] by (simp add: subscribed_def)
  obtain g1 ctx soc ys where s1: "server_step ?lib (subscribed, open_conns) (g1, open_conns(0 := (ctx, soc)))" "registry_ok g1 ys"
    "sgx_table g1 = [?nd 3]" "sgxt_lowerbound g1 = 1" "sgxmax g1 = 9" "server_starting_time g1 = 0" "secondary_socket_comms g1 = [(0, ())]"
    using hello_step [OF reg, of open_conns 0 3] by (auto simp: subscribed_def initial_global_def insert_table_def)
  obtain m q where m: "notification_message g1 = Inr (m, g1\<lparr>g_queue := q\<rparr>)" "registry_ok (g1\<lparr>g_queue := q\<rparr>) ys"
    using notification_message_run [OF s1(2)] by (auto simp: notification_message_def get_queue_text [OF s1(2)])
  obtain g2 conns2 where s2: "server_step ?lib (g1\<lparr>g_queue := q\<rparr>, open_conns(0 := (ctx, soc))) (g2, conns2)" "sgx_table g2 = insert_table [?nd 3] (?nd 4)"
    using hello_step [OF m(2), of "open_conns(0 := (ctx, soc))" 1 4] s1(3-6) by auto
  have "sgx_table g2 \<noteq> sgx_table g1" "sgx_table g1 \<noteq> sgx_table subscribed"
    using s1(3) s2(2) by (simp_all add: insert_table_def zero_node_def subscribed_def initial_global_def)
  with reg s1(1,2,7) m(1) s2(1) show ?thesis by fastforce
qed

section \<open>Properties\<close>

text \<open>
  C13. A change of the table or the queue that a handler makes while the notification thread waits is
  notified: before the thread waits again it has built a message after the change and sent it to
  every socket that was subscribed, and if no further change was made, this message is the
  current one.
\<close>

theorem change_notified:
  assumes reg: "registry_ok g xs" and step: "server_step lib (g, conns) (g1, conns1)"
    and change: "sgx_table g1 \<noteq> sgx_table g \<or> \<not> queue_rep (g_queue g1) xs"
    and run: "(notifier_step lib spurious)\<^sup>*\<^sup>* ((g1, conns1), wake g g1 Waiting, inbox) ((g2, conns2), ph, inbox2)"
    and ph: "ph = Idle \<or> ph = Waiting"
  shows "\<exists>m. dispatched (notifier_step lib spurious) ((g1, conns1), wake g g1 Waiting, inbox) m [] ((g2, conns2), ph, inbox2)
     \<and> (broadcasts g2 = broadcasts g1 \<longrightarrow> (\<exists>g3. notification_message g2 = Inr (m, g3)))"
proof -
  let ?R = "notifier_step lib spurious" and ?s1 = "((g1, conns1), wake g g1 Waiting, inbox)" and ?s2 = "((g2, conns2), ph, inbox2)"
  have woken: "wake g g1 Waiting = Woken"
    using server_step_broadcasts [OF step] reg change by (auto simp: wake_def quiet_def registry_ok_def)
  have "round_inv ?R ?s1 ?s2"
    using run by (induction rule: rtranclp_induct) (simp add: round_inv_def woken, blast intro: round_step)
  with ph obtain m where m: "dispatched ?R ?s1 m [] ?s2" by (auto simp: round_inv_def)
  obtain ys where reg1: "registry_ok g1 ys" using server_step_keeps [OF step reg] by blast
  have "\<exists>g3. notification_message g2 = Inr (m, g3)" if "broadcasts g2 = broadcasts g1"
  proof -
    from m obtain g4 conns4 inbox4 g5 where c: "?R\<^sup>*\<^sup>* ?s1 ((g4, conns4), Woken, inbox4)" "notification_message g4 = Inr (m, g5)"
      "?R\<^sup>*\<^sup>* ((g4, conns4), Woken, inbox4) ?s2" unfolding dispatched_def composed_def by (blast intro: rtranclp_trans)
    have f1: "calm ?s1 ((g4, conns4), Woken, inbox4)" "\<exists>zs. registry_ok g4 zs" using net.framed [OF c(1)] reg1 by auto
    then have "calm ((g4, conns4), Woken, inbox4) ?s2" using net.framed [OF c(3)] by auto
    with f1 that have "quiet g4 g2" by (simp add: calm_def)
    with f1(2) c(2) show ?thesis using quiet_message by blast
  qed
  with m show ?thesis by blast
qed

theorem change_notified_witness:
  "\<exists>g1 conns1 m g2 conns2 inbox. dispatched (notifier_step (stub_lib ''m'' hello_doc) False) ((g1, conns1), Woken, \<lambda>_. []) m [] ((g2, conns2), Idle, inbox)
     \<and> server_step (stub_lib ''m'' hello_doc) (subscribed, open_conns) (g1, conns1) \<and> sgx_table g1 \<noteq> sgx_table subscribed"
proof -
  let ?lib = "stub_lib ''m'' hello_doc"
  obtain g1 :: "unit global" and conns1 ys where s: "registry_ok subscribed []"
    "server_step ?lib (subscribed, open_conns) (g1, conns1)" "registry_ok g1 ys" "sgx_table g1 \<noteq> sgx_table subscribed"
    using subscribed_changes by blast
  have woken: "wake subscribed g1 Waiting = Woken" using server_step_broadcasts [OF s(2)] s(4) by (auto simp: wake_def quiet_def)
  obtain g2 inbox where run: "(notifier_step ?lib False)\<^sup>*\<^sup>* ((g1, conns1), wake subscribed g1 Waiting, \<lambda>_. []) ((g2, conns1), Idle, inbox)"
    unfolding woken using round_finishes [OF s(3)] by blast
  from change_notified [OF s(1,2) disjI1 [OF s(4)] run] s(2,4) show ?thesis unfolding woken by blast
qed

text \<open>
  C14. A change that is made while the notification thread sends is lost: the thread waits again with the
  last message of every subscriber from before the change, and nothing more is sent until yet
  another change broadcasts.
\<close>

theorem change_while_sending_lost:
  assumes reg: "registry_ok g xs" and step: "server_step lib (g, conns) (g1, conns1)"
    and change: "sgx_table g1 \<noteq> sgx_table g \<or> \<not> queue_rep (g_queue g1) xs"
    and msg: "notification_message g1 = Inr (m, g1')" and step2: "server_step lib (g1', conns1) (g2, conns2)"
  shows "\<exists>inbox'. (notifier_step lib False)\<^sup>*\<^sup>* ((g, conns), Waiting, inbox) ((g2, conns2), Waiting, inbox')
     \<and> (\<forall>soc \<in> snd ` set (secondary_socket_comms g1'). last (inbox' soc) = m)
     \<and> (\<forall>g3 conns3 ph inbox3. (notifier_step lib False)\<^sup>*\<^sup>* ((g2, conns2), Waiting, inbox') ((g3, conns3), ph, inbox3)
          \<and> broadcasts g3 = broadcasts g2 \<longrightarrow> inbox3 = inbox')"
proof -
  let ?R = "notifier_step lib False" and ?socks = "map snd (secondary_socket_comms g1')"
  have "wake g g1 Waiting = Woken"
    using server_step_broadcasts [OF step] reg change by (auto simp: wake_def quiet_def registry_ok_def)
  then have "?R ((g, conns), Waiting, inbox) ((g1, conns1), Woken, inbox)"
    using notifier_step.serve [OF step, of False Waiting inbox] by simp
  moreover have "?R ((g1, conns1), Woken, inbox) ((g1', conns1), Composed m, inbox)" by (rule notifier_step.compose [OF msg])
  moreover have "?R ((g1', conns1), Composed m, inbox) ((g1', conns1), Sending m ?socks, inbox)" by (rule notifier_step.dispatch)
  moreover have "?R ((g1', conns1), Sending m ?socks, inbox) ((g2, conns2), Sending m ?socks, inbox)"
    using notifier_step.serve [OF step2, of False "Sending m ?socks" inbox] by (simp add: wake_def)
  ultimately have run: "?R\<^sup>*\<^sup>* ((g, conns), Waiting, inbox) ((g2, conns2), Sending m ?socks, inbox)"
    by (blast intro: converse_rtranclp_into_rtranclp)
  obtain inbox' where sent: "?R\<^sup>*\<^sup>* ((g2, conns2), Sending m ?socks, inbox) ((g2, conns2), Idle, inbox')" "\<forall>soc \<in> set ?socks. last (inbox' soc) = m"
    using sends_finish [of lib False "(g2, conns2)" m ?socks inbox] by auto
  have "?R\<^sup>*\<^sup>* ((g, conns), Waiting, inbox) ((g2, conns2), Waiting, inbox')"
    using run sent(1) notifier_step.wait [of lib False "(g2, conns2)" inbox'] by (meson rtranclp.rtrancl_into_rtrancl rtranclp_trans)
  moreover have "inbox3 = inbox'" if "?R\<^sup>*\<^sup>* ((g2, conns2), Waiting, inbox') ((g3, conns3), ph, inbox3)" "broadcasts g3 = broadcasts g2" for g3 conns3 ph inbox3
    using no_broadcast_no_message [OF that(1)] that(2) by simp
  ultimately show ?thesis using sent(2) by auto
qed

theorem change_while_sending_lost_witness:
  "\<exists>conns1 m g1 g1' g2 conns2 inbox. (notifier_step (stub_lib ''m'' hello_doc) False)\<^sup>*\<^sup>* ((subscribed, open_conns), Waiting, \<lambda>_. []) ((g2, conns2), Waiting, inbox)
     \<and> server_step (stub_lib ''m'' hello_doc) (subscribed, open_conns) (g1, conns1)
     \<and> notification_message g1 = Inr (m, g1') \<and> last (inbox ()) = m \<and> sgx_table g2 \<noteq> sgx_table g1"
proof -
  obtain g1 :: "unit global" and conns1 ys m g1' g2 conns2 where s: "registry_ok subscribed []"
    "server_step (stub_lib ''m'' hello_doc) (subscribed, open_conns) (g1, conns1)" "sgx_table g1 \<noteq> sgx_table subscribed"
    "notification_message g1 = Inr (m, g1')" "secondary_socket_comms g1' = [(0, ())]"
    "server_step (stub_lib ''m'' hello_doc) (g1', conns1) (g2, conns2)" "sgx_table g2 \<noteq> sgx_table g1"
    using subscribed_changes by blast
  from change_while_sending_lost [OF s(1,2) disjI1 [OF s(3)] s(4,6), of "\<lambda>_. []"] s(5) obtain inbox where
    "(notifier_step (stub_lib ''m'' hello_doc) False)\<^sup>*\<^sup>* ((subscribed, open_conns), Waiting, \<lambda>_. []) ((g2, conns2), Waiting, inbox)" "last (inbox ()) = m" by auto
  with s show ?thesis by blast
qed

end
