(* ===== verification/Output.thy ===== *)
theory Output imports Client Simulation
begin

text \<open>
  What the programs print: the conversions of \<^verbatim>\<open>printf\<close> they use, the macros of
  \<^verbatim>\<open>poet_common_definitions.h\<close> and the build options that switch them, and the tables and queues
  that simulator and participant write. Texts are values; writing them is left to the callers.
\<close>

section \<open>Conversions\<close>

definition TAB :: char where "TAB = CHR 0x09"

definition NL :: char where "NL = CHR 0x0A"

definition pad :: "nat \<Rightarrow> char \<Rightarrow> string \<Rightarrow> string" where
  "pad w c s = replicate (w - length s) c @ s"

text \<open>\<^verbatim>\<open>%d\<close> reads the bits of an unsigned value as an \<^verbatim>\<open>int\<close>.\<close>

definition show_d :: "uint \<Rightarrow> string" where
  "show_d x = (if sint x < 0 then CHR ''-'' # decimal (nat (- sint x)) else decimal (nat (sint x)))"

fun hexadecimal :: "nat \<Rightarrow> string" where
  "hexadecimal n = (if n < 16 then [char_of (if n < 10 then 48 + n else 87 + n)] else hexadecimal (n div 16) @ hexadecimal (n mod 16))"

section \<open>Levels of messages\<close>

datatype level = ERRR | ERR | WARN | ERROR | INFO

datatype stream = Stdout | Stderr

record macros =
  DEBUG :: bool
  DEBUG1 :: bool
  WARNING :: bool
  NDEBUG :: bool

text \<open>
  \<^verbatim>\<open>CMakeLists.txt\<close>: its variable \<^verbatim>\<open>DEBUG\<close>, a number, selects the macros of the compiler. The condition
  \<^verbatim>\<open>if (DEBUG)\<close> does not hold for 0.
\<close>

definition cmake_debug :: "nat \<Rightarrow> macros" where
  "cmake_debug d = (let none = \<lparr>DEBUG = False, DEBUG1 = False, WARNING = False, NDEBUG = False\<rparr> in
     if d \<noteq> 0 then none\<lparr>DEBUG := (d = 2), DEBUG1 := (d = 1), WARNING := (d = 0)\<rparr>
     else none\<lparr>NDEBUG := True\<rparr>)"

text \<open>
  The header, from top to bottom: which levels print, and the macros that are defined after it. Each section may
  define the macro of the next, and the last two define \<^verbatim>\<open>DEBUG\<close> after the first has been passed.
\<close>

definition message_levels :: "macros \<Rightarrow> (level \<Rightarrow> bool) \<times> macros" where
  "message_levels m =
     (let errr = DEBUG m;
          m1 = (if errr then m\<lparr>DEBUG1 := True\<rparr> else m);
          err = DEBUG1 m1;
          m2 = (if err then m1\<lparr>WARNING := True, DEBUG := True\<rparr> else m1);
          warn = WARNING m2;
          m3 = (if warn then m2\<lparr>DEBUG := True\<rparr> else m2) in
      (\<lambda>l. case l of ERRR \<Rightarrow> errr | ERR \<Rightarrow> err | WARN \<Rightarrow> warn | ERROR \<Rightarrow> True | INFO \<Rightarrow> True, m3))"

text \<open>The part of \<^verbatim>\<open>__FILE__\<close> behind its last slash, found with \<^verbatim>\<open>strrchr\<close>.\<close>

definition base_name :: "string \<Rightarrow> string" where
  "base_name file = rev (takeWhile (\<lambda>c. c \<noteq> CHR ''/'') (rev file))"

definition STDERR_MSG :: "string \<Rightarrow> nat \<Rightarrow> string \<Rightarrow> nat \<Rightarrow> string \<Rightarrow> string" where
  "STDERR_MSG type self file line text =
     type @ '' [0x'' @ hexadecimal self @ ''|'' @ base_name file @ '':'' @ pad 3 (CHR '' '') (decimal line) @ ''] '' @ text"

definition level_stream :: "level \<Rightarrow> stream" where
  "level_stream l = (if l = WARN \<or> l = ERROR then Stderr else Stdout)"

definition level_type :: "level \<Rightarrow> string" where
  "level_type l = (case l of ERRR \<Rightarrow> ''DEBUG2 '' | ERR \<Rightarrow> ''DEBUG1 '' | WARN \<Rightarrow> ''WARNING'' | ERROR \<Rightarrow> ''ERROR  '' | INFO \<Rightarrow> ''INFO   '')"

definition message :: "macros \<Rightarrow> level \<Rightarrow> nat \<Rightarrow> string \<Rightarrow> nat \<Rightarrow> string \<Rightarrow> (stream \<times> string) list" where
  "message m l self file line text =
     (if fst (message_levels m) l then [(level_stream l, STDERR_MSG (level_type l) self file line text)] else [])"

section \<open>Queues and tables\<close>

text \<open>\<^verbatim>\<open>generic_print\<close> cuts the pointer to an \<^verbatim>\<open>unsigned int\<close>.\<close>

definition generic_print :: "size_t \<Rightarrow> string \<Rightarrow> string" where
  "generic_print d out = out @ ''['' @ decimal (unat (ucast d :: uint)) @ '']''"

definition queue_print :: "size_t queue_t \<Rightarrow> string \<Rightarrow> (string \<times> size_t queue_t) res" where
  "queue_print q out = queue_print_func q generic_print out"

definition node_to_json :: "node_t \<Rightarrow> string" where
  "node_to_json nd = (case node_t_to_json True nd of Some s \<Rightarrow> s | None \<Rightarrow> [])"

definition dashes :: string where
  "dashes = replicate 21 (CHR ''-'') @ [NL]"

definition print_sgx_table_and_queue :: "client \<Rightarrow> (string \<times> client) res" where
  "print_sgx_table_and_queue c =
     rbind (queue_print (c_queue c)
        (''SGX Table:'' @ [NL] @ dashes @ concat (map (\<lambda>nd. node_to_json nd @ [NL]) (c_table c)) @ dashes @ ''Queue: '')) (\<lambda>(out, q).
     Inr (out @ [NL], c\<lparr>c_queue := q\<rparr>))"

definition print_sgx_table :: "node_t list \<Rightarrow> string" where
  "print_sgx_table table =
     ''Pass:'' @ [TAB] @ ''Arrivaltime'' @ [TAB] @ ''SGXtime'' @ [TAB] @ ''#Leader'' @ [TAB] @ ''timeLeft'' @ [NL]
     @ concat (map (\<lambda>i. let nd = table ! i; col = (\<lambda>x. TAB # pad 5 (CHR '' '') (show_d x)) in
         ''[Node'' @ pad 3 (CHR ''0'') (decimal i) @ '']:'' @ col (arrival_time nd) @ col (sgx_time nd) @ col (n_leadership nd)
         @ col (time_left nd) @ [NL]) [0..<length table])"

definition print_quantum_times :: "config \<Rightarrow> sim \<Rightarrow> string res" where
  "print_quantum_times cfg s =
     rfold (\<lambda>out i.
       rbind (vec_get (tier_quantum_time s) i) (\<lambda>q. rbind (vec_get (tier_active_nodes s) i) (\<lambda>n.
       Inr (out @ ''Quantum time for tier '' @ decimal i @ '': '' @ decimal (unat q) @ [NL]
                @ ''Nodes in tier '' @ decimal i @ '': '' @ decimal (unat n) @ [NL]))))
       (''CURRENT time: '' @ show_d (s_time s) @ [NL]) [0..<unat (total_tiers cfg)]"

definition overall_queue_text :: "uint list \<Rightarrow> string" where
  "overall_queue_text secs = ''Overall Queue:'' @ [NL] @ replicate 13 (CHR ''-'') @ [NL]
     @ concat (map (\<lambda>u. ''[Node'' @ show_d u @ '']'') secs) @ [NL]"

text \<open>\<^verbatim>\<open>pause_for_user\<close>: what is left of the input, and the prompt. The end of the input is the end of the list.\<close>

definition pause_for_user :: "bool \<Rightarrow> bool \<Rightarrow> string \<Rightarrow> string \<times> string" where
  "pause_for_user promptUser clearStream input =
     (let input' = (if clearStream then drop 1 (dropWhile (\<lambda>c. c \<noteq> NL) input) else input) in
      (drop 1 input', if promptUser then ''Press [Enter] to continue'' else []))"

section \<open>Specification\<close>

definition digits_value :: "string \<Rightarrow> nat" where
  "digits_value s = foldl (\<lambda>v c. 10 * v + (of_char c - 48)) 0 s"

text \<open>The numbers between the brackets of a text.\<close>

function read_queue :: "string \<Rightarrow> nat list" where
  "read_queue [] = []"
| "read_queue (c # s) = digits_value (takeWhile (\<lambda>c. c \<noteq> CHR '']'') s) # read_queue (drop 1 (dropWhile (\<lambda>c. c \<noteq> CHR '']'') s))"
  by pat_completeness auto
termination
  by (relation "measure length") (auto simp: less_Suc_eq_le intro: le_trans [OF diff_le_self length_dropWhile_le])

section \<open>Reading a printed queue\<close>

lemma decimal_digits: "list_all (\<lambda>c. 48 \<le> (of_char c :: nat) \<and> (of_char c :: nat) < 58) (decimal n)"
proof (induction n rule: decimal.induct)
  case (1 n)
  have "48 \<le> (of_char (char_of (48 + k) :: char) :: nat) \<and> (of_char (char_of (48 + k) :: char) :: nat) < 58" if "k < 10" for k :: nat
    using that by (simp add: of_char_of)
  with 1 show ?case by (cases "n < 10") (simp_all add: decimal.simps [of n])
qed

lemma digits_value_decimal [simp]: "digits_value (decimal n) = n"
proof (induction n rule: decimal.induct)
  case (1 n)
  show ?case
  proof (cases "n < 10")
    case True
    then show ?thesis by (simp add: digits_value_def decimal.simps [of n] of_char_of)
  next
    case False
    then have "digits_value (decimal n) = 10 * digits_value (decimal (n div 10)) + n mod 10"
      by (simp add: digits_value_def decimal.simps [of n] of_char_of)
    with 1 False show ?thesis by simp
  qed
qed

lemma decimal_until_bracket:
  "takeWhile (\<lambda>c. c \<noteq> CHR '']'') (decimal n @ CHR '']'' # s) = decimal n" "dropWhile (\<lambda>c. c \<noteq> CHR '']'') (decimal n @ CHR '']'' # s) = CHR '']'' # s"
proof -
  have "c \<noteq> CHR '']''" if "c \<in> set (decimal n)" for c
    using decimal_digits [of n] that by (auto simp: list_all_iff)
  then show "takeWhile (\<lambda>c. c \<noteq> CHR '']'') (decimal n @ CHR '']'' # s) = decimal n" "dropWhile (\<lambda>c. c \<noteq> CHR '']'') (decimal n @ CHR '']'' # s) = CHR '']'' # s"
    by (simp_all add: takeWhile_append2 dropWhile_append2)
qed

lemma read_printed: "read_queue (concat (map (\<lambda>n. CHR ''['' # decimal n @ '']'') ns)) = ns"
  by (induction ns) (simp_all add: decimal_until_bracket)

lemma queue_print_text:
  assumes "queue_rep q xs"
  shows "queue_print q out = Inr (out @ concat (map (\<lambda>n. CHR ''['' # decimal n @ '']'') (map (\<lambda>x. unat (ucast x :: uint)) xs)), call True Unlock (call True Rdlock q))"
proof -
  have "fold generic_print xs out = out @ concat (map (\<lambda>n. CHR ''['' # decimal n @ '']'') (map (\<lambda>x. unat (ucast x :: uint)) xs))"
    by (induction xs arbitrary: out) (simp_all add: generic_print_def)
  with queue_rep_dump [OF assms, of generic_print out True] show ?thesis
    by (simp add: queue_print_def queue_print_func_def queue_print_func_dump_custom_def)
qed

section \<open>Properties\<close>

text \<open>
  \<^verbatim>\<open>queue_print\<close> prints a queue of node ids so that it can be read back, and leaves the queue as it was
  with its lock released.
\<close>

theorem queue_print_roundtrip:
  assumes "queue_rep q xs" and "list_all (\<lambda>x. unat x < 2 ^ 32) xs"
  shows "\<exists>s q'. queue_print q [] = Inr (s, q') \<and> read_queue s = map unat xs \<and> queue_rep q' xs \<and> q_calls q' = q_calls q @ [Rdlock, Unlock]"
proof -
  have "map (\<lambda>x. unat (ucast x :: uint)) xs = map unat xs" using assms(2) by (auto simp: list_all_iff unat_ucast_uint)
  then have "queue_print q [] = Inr (concat (map (\<lambda>n. CHR ''['' # decimal n @ '']'') (map unat xs)), call True Unlock (call True Rdlock q))"
    using queue_print_text [OF assms(1), of "[]"] by (simp only: append_Nil)
  then show ?thesis using read_printed [of "map unat xs"] assms(1) by auto
qed

theorem queue_print_roundtrip_witness:
  "\<exists>(q :: size_t queue_t) s q'. queue_rep q [3, 12] \<and> queue_print q [] = Inr (s, q') \<and> read_queue s = [3, 12]"
proof -
  obtain q where q: "queue_rep q [3, 12 :: size_t]" using queue_rep_exists [of _ True] by blast
  then show ?thesis using queue_print_roundtrip [OF q] by auto
qed

text \<open>
  The levels of messages are nested, errors and information are always printed, and code under
  \<^verbatim>\<open>#ifdef DEBUG\<close> behind the header is compiled exactly when warnings are printed. No value of the
  build's variable gives warnings without first-level debug messages: its branch for 0 lies
  inside a condition that 0 does not satisfy, and 0 switches the assertions off.
\<close>

lemma debug_levels:
  "fst (message_levels m) ERRR \<Longrightarrow> fst (message_levels m) ERR" "fst (message_levels m) ERR \<Longrightarrow> fst (message_levels m) WARN"
  "fst (message_levels m) ERROR \<and> fst (message_levels m) INFO" "DEBUG (snd (message_levels m)) = fst (message_levels m) WARN"
  "fst (message_levels (cmake_debug d)) WARN = fst (message_levels (cmake_debug d)) ERR"
  "NDEBUG (cmake_debug d) = (d = 0)" "fst (message_levels (cmake_debug d)) ERR = (d \<in> {1, 2})"
  by (auto simp: message_levels_def cmake_debug_def Let_def)

text \<open>A message names the file without its directories.\<close>

lemma base_name_split: "CHR ''/'' \<notin> set (base_name file) \<and> (\<exists>dir. file = dir @ base_name file \<and> (dir = [] \<or> last dir = CHR ''/''))"
proof -
  let ?d = "dropWhile (\<lambda>c. c \<noteq> CHR ''/'') (rev file)"
  have "rev file = takeWhile (\<lambda>c. c \<noteq> CHR ''/'') (rev file) @ ?d" by simp
  then have "file = rev ?d @ base_name file" unfolding base_name_def by (metis rev_append rev_rev_ident)
  moreover have "rev ?d = [] \<or> last (rev ?d) = CHR ''/''"
  proof (cases "?d = []")
    case False
    then have "hd ?d = CHR ''/''" using hd_dropWhile [OF False] by simp
    then show ?thesis by (simp only: last_rev simp_thms)
  qed simp
  moreover have "CHR ''/'' \<notin> set (base_name file)" by (auto simp: base_name_def dest: set_takeWhileD)
  ultimately show ?thesis by blast
qed

end
