(* ===== verification/Enclave.thy ===== *)
theory Enclave imports Client
begin

text \<open>
  The enclave of the participant: \<^verbatim>\<open>enclave_helper.c\<close>, which keeps the launch token in a file and
  creates the enclave, and \<^verbatim>\<open>enclave.c\<close>, whose only call yields random bytes. The functions of the SGX
  libraries, \<^verbatim>\<open>sgx_create_enclave\<close> and \<^verbatim>\<open>sgx_read_rand\<close>, and the answers of the C library are arguments;
  files are a map from paths to contents.
\<close>

section \<open>Error messages\<close>

text \<open>The values of \<^verbatim>\<open>sgx_status_t\<close> that the code names, and the others.\<close>

datatype sgx_status =
    SGX_SUCCESS
  | SGX_ERROR_UNEXPECTED
  | SGX_ERROR_INVALID_PARAMETER
  | SGX_ERROR_OUT_OF_MEMORY
  | SGX_ERROR_ENCLAVE_LOST
  | SGX_ERROR_INVALID_ENCLAVE
  | SGX_ERROR_INVALID_ENCLAVE_ID
  | SGX_ERROR_INVALID_SIGNATURE
  | SGX_ERROR_OUT_OF_EPC
  | SGX_ERROR_NO_DEVICE
  | SGX_ERROR_MEMORY_MAP_CONFLICT
  | SGX_ERROR_INVALID_METADATA
  | SGX_ERROR_DEVICE_BUSY
  | SGX_ERROR_INVALID_VERSION
  | SGX_ERROR_INVALID_ATTRIBUTE
  | SGX_ERROR_ENCLAVE_FILE_ACCESS
  | SGX_ERROR_NDEBUG_ENCLAVE
  | Other_Status nat

record sgx_errlist_t =
  sgx_err :: sgx_status
  sgx_msg :: string
  sgx_sug :: "string option"

definition sgx_errlist :: "sgx_errlist_t list" where
  "sgx_errlist =
    [\<lparr>sgx_err = SGX_ERROR_UNEXPECTED, sgx_msg = ''Unexpected error occurred.'', sgx_sug = None\<rparr>,
     \<lparr>sgx_err = SGX_ERROR_INVALID_PARAMETER, sgx_msg = ''Invalid parameter.'', sgx_sug = None\<rparr>,
     \<lparr>sgx_err = SGX_ERROR_OUT_OF_MEMORY, sgx_msg = ''Out of memory.'', sgx_sug = None\<rparr>,
     \<lparr>sgx_err = SGX_ERROR_ENCLAVE_LOST, sgx_msg = ''Power transition occurred.'',
        sgx_sug = Some ''Please refer to the sample \"PowerTransition\" for details.''\<rparr>,
     \<lparr>sgx_err = SGX_ERROR_INVALID_ENCLAVE, sgx_msg = ''Invalid enclave image.'', sgx_sug = None\<rparr>,
     \<lparr>sgx_err = SGX_ERROR_INVALID_ENCLAVE_ID, sgx_msg = ''Invalid enclave identification.'', sgx_sug = None\<rparr>,
     \<lparr>sgx_err = SGX_ERROR_INVALID_SIGNATURE, sgx_msg = ''Invalid enclave signature.'', sgx_sug = None\<rparr>,
     \<lparr>sgx_err = SGX_ERROR_OUT_OF_EPC, sgx_msg = ''Out of EPC memory.'', sgx_sug = None\<rparr>,
     \<lparr>sgx_err = SGX_ERROR_NO_DEVICE, sgx_msg = ''Invalid SGX device.'',
        sgx_sug = Some ''Please make sure SGX module is enabled in the BIOS, and install SGX driver afterwards.''\<rparr>,
     \<lparr>sgx_err = SGX_ERROR_MEMORY_MAP_CONFLICT, sgx_msg = ''Memory map conflicted.'', sgx_sug = None\<rparr>,
     \<lparr>sgx_err = SGX_ERROR_INVALID_METADATA, sgx_msg = ''Invalid enclave metadata.'', sgx_sug = None\<rparr>,
     \<lparr>sgx_err = SGX_ERROR_DEVICE_BUSY, sgx_msg = ''SGX device was busy.'', sgx_sug = None\<rparr>,
     \<lparr>sgx_err = SGX_ERROR_INVALID_VERSION, sgx_msg = ''Enclave version was invalid.'', sgx_sug = None\<rparr>,
     \<lparr>sgx_err = SGX_ERROR_INVALID_ATTRIBUTE, sgx_msg = ''Enclave was not authorized.'', sgx_sug = None\<rparr>,
     \<lparr>sgx_err = SGX_ERROR_ENCLAVE_FILE_ACCESS, sgx_msg = ''Can'' @ [CHR 0x27] @ ''t open enclave file.'', sgx_sug = None\<rparr>,
     \<lparr>sgx_err = SGX_ERROR_NDEBUG_ENCLAVE,
        sgx_msg = ''The enclave is signed as product enclave, and can not be created as debuggable enclave.'', sgx_sug = None\<rparr>]"

text \<open>The lines printed by the loop over the rest of the list.\<close>

fun print_loop :: "sgx_status \<Rightarrow> sgx_errlist_t list \<Rightarrow> string list" where
  "print_loop ret [] = [''Error: Unexpected error occurred.'']"
| "print_loop ret (e # es) =
     (if ret = sgx_err e
      then (case sgx_sug e of Some s \<Rightarrow> [''Info: '' @ s] | None \<Rightarrow> []) @ [''Error: '' @ sgx_msg e]
      else print_loop ret es)"

definition sgx_print_error_message :: "sgx_status \<Rightarrow> string list" where
  "sgx_print_error_message ret = print_loop ret sgx_errlist"

section \<open>The path of the launch token\<close>

definition MAX_PATH :: nat where "MAX_PATH = 4096"

definition TOKEN_FILENAME :: string where "TOKEN_FILENAME = ''enclave.token''"

definition TOKEN_SIZE :: nat where "TOKEN_SIZE = 1024"

text \<open>\<^verbatim>\<open>strncpy\<close> writes exactly \<open>n\<close> characters; \<^verbatim>\<open>strncat\<close> appends at most \<open>n\<close> and a zero.\<close>

definition strncpy :: "string \<Rightarrow> string \<Rightarrow> nat \<Rightarrow> string res" where
  "strncpy dst src n =
     (if length dst < n then Inl Out_Of_Range
      else Inr (take n (src @ replicate n (CHR 0x00)) @ drop n dst))"

definition strncat :: "string \<Rightarrow> string \<Rightarrow> nat \<Rightarrow> string res" where
  "strncat dst src n =
     (let l = length (cstr dst); new = take n src in
      if length dst < l + length new + 1 then Inl Out_Of_Range
      else Inr (take l dst @ new @ [CHR 0x00] @ drop (l + length new + 1) dst))"

definition token_path :: "string option \<Rightarrow> string res" where
  "token_path home_dir =
     (let buf = replicate MAX_PATH (CHR 0x00); fsize = length TOKEN_FILENAME + 1 in
      case home_dir of
        Some home \<Rightarrow>
          if length home + 1 + fsize + 1 \<le> MAX_PATH
          then rbind (strncpy buf home (length home)) (\<lambda>buf.
               rbind (strncat buf ''/'' 1) (\<lambda>buf.
               strncat buf TOKEN_FILENAME (fsize + 1)))
          else strncpy buf TOKEN_FILENAME fsize
      | None \<Rightarrow> strncpy buf TOKEN_FILENAME fsize)"

section \<open>Creating the enclave\<close>

text \<open>Files with the permissions that matter, and the modes of the streams.\<close>

record disk =
  files :: "string \<rightharpoonup> uchar list"
  readable :: "string \<Rightarrow> bool"
  writable :: "string \<Rightarrow> bool"

datatype stream = Read | Write

definition fopen_rb :: "string \<Rightarrow> disk \<Rightarrow> stream option" where
  "fopen_rb path d = (if files d path \<noteq> None \<and> readable d path then Some Read else None)"

definition fopen_wb :: "string \<Rightarrow> disk \<Rightarrow> stream option \<times> disk" where
  "fopen_wb path d = (if writable d path then (Some Write, d\<lparr>files := (files d)(path \<mapsto> [])\<rparr>) else (None, d))"

definition open_token :: "string \<Rightarrow> disk \<Rightarrow> stream option \<times> disk \<times> string list" where
  "open_token path d = (case fopen_rb path d of
       Some fp \<Rightarrow> (Some fp, d, [])
     | None \<Rightarrow> (case fopen_wb path d of
         (Some fp, d') \<Rightarrow> (Some fp, d', [])
       | (None, d') \<Rightarrow> (None, d', [''Warning: Failed to create/open the launch token file \"'' @ path @ ''\".''])))"

text \<open>\<^verbatim>\<open>fread\<close> into the zeroed token; a stream open for writing yields nothing.\<close>

definition read_token :: "string \<Rightarrow> stream option \<Rightarrow> disk \<Rightarrow> uchar list \<times> string list" where
  "read_token path fp d =
     (let zero = replicate TOKEN_SIZE 0;
          bytes = (case fp of Some Read \<Rightarrow> take TOKEN_SIZE (case files d path of Some b \<Rightarrow> b | None \<Rightarrow> []) | _ \<Rightarrow> []);
          token = bytes @ drop (length bytes) zero in
      if length bytes \<noteq> 0 \<and> length bytes \<noteq> TOKEN_SIZE
      then (zero, [''Warning: Invalid launch token read from \"'' @ path @ ''\".''])
      else (token, []))"

text \<open>
  \<^verbatim>\<open>sgx_create_enclave\<close> maps the token to its status, the \<^verbatim>\<open>updated\<close> flag, the token it leaves and the
  id; \<open>wrote\<close> is the number of bytes that \<^verbatim>\<open>fwrite\<close> gets onto the disk.
\<close>

definition save_token :: "string \<Rightarrow> nat \<Rightarrow> uchar list \<Rightarrow> disk \<Rightarrow> disk \<times> string list" where
  "save_token path wrote token d = (case fopen_wb path d of
       (None, d') \<Rightarrow> (d', [])
     | (Some _, d') \<Rightarrow>
         (d'\<lparr>files := (files d')(path \<mapsto> take wrote token)\<rparr>,
          if wrote \<noteq> TOKEN_SIZE then [''Warning: Failed to save launch token to \"'' @ path @ ''\".''] else []))"

record 'eid launch =
  l_ret :: int
  l_eid :: "'eid option"
  l_given :: "uchar list"
  l_disk :: disk
  l_output :: "string list"

text \<open>
  \<open>pw\<close> is the result of \<^verbatim>\<open>getpwuid\<close>, null or an entry whose directory may be null. \<open>l_given\<close> is the
  token that \<^verbatim>\<open>sgx_create_enclave\<close> was called with, \<open>l_eid\<close> the id it stored.
\<close>

definition initialize_enclave ::
    "string option option \<Rightarrow> (uchar list \<Rightarrow> sgx_status \<times> bool \<times> uchar list \<times> 'eid) \<Rightarrow> nat \<Rightarrow> disk \<Rightarrow> 'eid launch res" where
  "initialize_enclave pw create wrote d = (case pw of
       None \<Rightarrow> Inl Null_Deref
     | Some home_dir \<Rightarrow> rbind (token_path home_dir) (\<lambda>buf.
         let path = cstr buf in
         case open_token path d of (fp, d1, out1) \<Rightarrow>
         case read_token path fp d1 of (token, out2) \<Rightarrow>
         case create token of (ret, updated, token', eid) \<Rightarrow>
         if ret \<noteq> SGX_SUCCESS
         then Inr \<lparr>l_ret = - 1, l_eid = None, l_given = token, l_disk = d1, l_output = out1 @ out2 @ sgx_print_error_message ret\<rparr>
         else if \<not> updated \<or> fp = None
         then Inr \<lparr>l_ret = 0, l_eid = Some eid, l_given = token, l_disk = d1, l_output = out1 @ out2\<rparr>
         else case save_token path wrote token' d1 of (d2, out3) \<Rightarrow>
           Inr \<lparr>l_ret = 0, l_eid = Some eid, l_given = token, l_disk = d2, l_output = out1 @ out2 @ out3\<rparr>))"

section \<open>Random bytes\<close>

text \<open>
  \<^verbatim>\<open>ecall_random_bytes\<close> does not look at the status of \<^verbatim>\<open>sgx_read_rand\<close>: on a failure the buffer keeps its
  bytes. The number is read in the order of bytes of the machine.
\<close>

definition ecall_random_bytes :: "(nat \<Rightarrow> uchar list option) \<Rightarrow> uchar list \<Rightarrow> uchar list" where
  "ecall_random_bytes read_rand a = (case read_rand (length a) of Some bs \<Rightarrow> bs | None \<Rightarrow> a)"

definition uint_of_bytes :: "uchar list \<Rightarrow> uint" where
  "uint_of_bytes bs = foldr (\<lambda>b n. ucast b + 256 * n) bs 0"

text \<open>The draw of \<^verbatim>\<open>generate_random_sgx_time\<close>; \<open>called\<close> is whether the call into the enclave succeeded.\<close>

definition draw_sgx_time :: "bool \<Rightarrow> (nat \<Rightarrow> uchar list option) \<Rightarrow> client \<Rightarrow> uint res" where
  "draw_sgx_time called read_rand c =
     generate_random_sgx_time (if called then Some (uint_of_bytes (ecall_random_bytes read_rand (replicate 4 0))) else None) c"

section \<open>Specification\<close>

text \<open>The token file for a home directory.\<close>

definition token_file :: "string option \<Rightarrow> string" where
  "token_file home_dir = (case home_dir of
       Some home \<Rightarrow> if length home + 16 \<le> MAX_PATH then home @ ''/'' @ TOKEN_FILENAME else TOKEN_FILENAME
     | None \<Rightarrow> TOKEN_FILENAME)"

definition proper :: "string option \<Rightarrow> bool" where
  "proper home_dir = (case home_dir of Some home \<Rightarrow> CHR 0x00 \<notin> set home | None \<Rightarrow> True)"

definition token_given :: "string \<Rightarrow> disk \<Rightarrow> uchar list" where
  "token_given path d = (case files d path of
       Some bs \<Rightarrow> if readable d path \<and> TOKEN_SIZE \<le> length bs then take TOKEN_SIZE bs else replicate TOKEN_SIZE 0
     | None \<Rightarrow> replicate TOKEN_SIZE 0)"

text \<open>The disk after the token file was opened: a file that cannot be read is emptied or created.\<close>

definition opened_disk :: "string \<Rightarrow> disk \<Rightarrow> disk" where
  "opened_disk path d =
     (if (files d path = None \<or> \<not> readable d path) \<and> writable d path then d\<lparr>files := (files d)(path \<mapsto> [])\<rparr> else d)"

section \<open>The path\<close>

lemma cstr_zeros:
  assumes "CHR 0x00 \<notin> set s"
  shows "cstr (s @ replicate n (CHR 0x00)) = s"
proof -
  have "\<forall>x \<in> set s. x \<noteq> CHR 0x00" using assms by metis
  then show ?thesis by (cases n) (simp_all add: cstr_def takeWhile_append2)
qed

lemma TOKEN_FILENAME_simps [simp]: "length TOKEN_FILENAME = 13" "CHR 0x00 \<notin> set TOKEN_FILENAME"
  by (simp_all add: TOKEN_FILENAME_def)

text \<open>A buffer that holds \<open>s\<close> and is zero behind it.\<close>

lemma strncpy_zeros:
  assumes "length s \<le> n" and "n \<le> m"
  shows "strncpy (replicate m (CHR 0x00)) s n = Inr (s @ replicate (m - length s) (CHR 0x00))"
  using assms by (simp add: strncpy_def flip: replicate_add)

lemma strncat_zeros:
  assumes "CHR 0x00 \<notin> set s" and "length t \<le> n" and "length s + length t < m"
  shows "strncat (s @ replicate (m - length s) (CHR 0x00)) t n = Inr ((s @ t) @ replicate (m - length (s @ t)) (CHR 0x00))"
proof -
  have "m - length (s @ t) = Suc (m - length (s @ t) - 1)" using assms(3) by simp
  then have "replicate (m - length (s @ t)) (CHR 0x00) = CHR 0x00 # replicate (m - length (s @ t) - 1) (CHR 0x00)" by (metis replicate_Suc)
  then show ?thesis using assms by (simp add: strncat_def cstr_zeros Let_def)
qed

lemma token_path_run:
  assumes "proper home_dir"
  shows "\<exists>buf. token_path home_dir = Inr buf \<and> length buf = MAX_PATH \<and> cstr buf = token_file home_dir"
proof (cases "\<exists>home. home_dir = Some home \<and> length home + 16 \<le> MAX_PATH")
  case True
  then obtain home where home: "home_dir = Some home" "length home + 16 \<le> MAX_PATH" by blast
  have z: "CHR 0x00 \<notin> set home" using assms home(1) by (simp add: proper_def)
  have "token_path home_dir = Inr ((home @ ''/'' @ TOKEN_FILENAME) @ replicate (MAX_PATH - length (home @ ''/'' @ TOKEN_FILENAME)) (CHR 0x00))"
    using home z strncpy_zeros [of home "length home" MAX_PATH] strncat_zeros [of home "''/''" 1 MAX_PATH]
      strncat_zeros [of "home @ ''/''" TOKEN_FILENAME "length TOKEN_FILENAME + 2" MAX_PATH]
    by (simp add: token_path_def)
  moreover have "cstr ((home @ ''/'' @ TOKEN_FILENAME) @ replicate k (CHR 0x00)) = home @ ''/'' @ TOKEN_FILENAME" for k using z by (intro cstr_zeros) simp
  ultimately show ?thesis using home by (simp add: token_file_def)
next
  case False
  then have "token_path home_dir = strncpy (replicate MAX_PATH (CHR 0x00)) TOKEN_FILENAME (length TOKEN_FILENAME + 1)" "token_file home_dir = TOKEN_FILENAME"
    by (auto simp: token_path_def token_file_def Let_def split: option.split)
  moreover have "strncpy (replicate MAX_PATH (CHR 0x00)) TOKEN_FILENAME (length TOKEN_FILENAME + 1) = Inr (TOKEN_FILENAME @ replicate (MAX_PATH - length TOKEN_FILENAME) (CHR 0x00))"
    by (rule strncpy_zeros) (simp_all add: MAX_PATH_def)
  ultimately show ?thesis using cstr_zeros [of TOKEN_FILENAME] by (simp add: MAX_PATH_def)
qed

section \<open>Opening, reading and saving\<close>

lemma open_read_run:
  shows "fst (snd (open_token path d)) = opened_disk path d"
    and "fst (read_token path (fst (open_token path d)) (fst (snd (open_token path d)))) = token_given path d"
    and "fst (open_token path d) = None \<longleftrightarrow> (files d path = None \<or> \<not> readable d path) \<and> \<not> writable d path"
  by (auto simp: open_token_def fopen_rb_def fopen_wb_def read_token_def token_given_def opened_disk_def Let_def min_def TOKEN_SIZE_def
      split: option.splits)

lemma initialize_enclave_run:
  assumes "proper home_dir" and "create (token_given (token_file home_dir) d) = (ret, updated, token', eid)"
  shows "\<exists>l. initialize_enclave (Some home_dir) create wrote d = Inr l
    \<and> l_given l = token_given (token_file home_dir) d
    \<and> l_ret l = (if ret = SGX_SUCCESS then 0 else - 1) \<and> l_eid l = (if ret = SGX_SUCCESS then Some eid else None)
    \<and> l_disk l = (if ret = SGX_SUCCESS \<and> updated \<and> fst (open_token (token_file home_dir) d) \<noteq> None
        then fst (save_token (token_file home_dir) wrote token' (opened_disk (token_file home_dir) d))
        else opened_disk (token_file home_dir) d)
    \<and> (ret \<noteq> SGX_SUCCESS \<longrightarrow> (\<exists>ws. l_output l = ws @ sgx_print_error_message ret))"
proof -
  obtain buf where "token_path home_dir = Inr buf" "cstr buf = token_file home_dir" using token_path_run [OF assms(1)] by blast
  with assms(2) open_read_run [of "token_file home_dir" d] show ?thesis
    by (auto simp: initialize_enclave_def Let_def split: prod.splits)
qed

section \<open>Properties\<close>

text \<open>
  Whatever the home directory is, the path of the launch token is composed within its buffer, and
  it is the token file in the home directory or, when that is unknown or too long, in the current one.
\<close>

theorem token_path_in_bounds:
  assumes "proper home_dir"
  shows "\<exists>buf. token_path home_dir = Inr buf \<and> length buf = MAX_PATH \<and> cstr buf = token_file home_dir"
  using assms by (rule token_path_run)

theorem token_path_in_bounds_witness:
  "\<exists>buf. token_path (Some ''/root'') = Inr buf \<and> cstr buf = ''/root/enclave.token''"
  using token_path_in_bounds [of "Some ''/root''"] by (auto simp: proper_def token_file_def TOKEN_FILENAME_def MAX_PATH_def)

text \<open>
  C29. A launch token survives a restart: when the creation of the enclave updates the token and the
  file can be written, the next start gives exactly that token to the creation, and a start that does
  not update it leaves it in place.
\<close>

theorem launch_token_roundtrip:
  assumes "proper home_dir" and "writable d (token_file home_dir)" and "readable d (token_file home_dir)"
    and "create (token_given (token_file home_dir) d) = (SGX_SUCCESS, True, token', eid)" and "length token' = TOKEN_SIZE"
    and "create' token' = (ret, False, token'', eid')"
  shows "\<exists>l l'. initialize_enclave (Some home_dir) create TOKEN_SIZE d = Inr l \<and> l_ret l = 0
    \<and> initialize_enclave (Some home_dir) create' wrote (l_disk l) = Inr l' \<and> l_given l' = token'
    \<and> l_ret l' = (if ret = SGX_SUCCESS then 0 else - 1) \<and> l_disk l' = l_disk l"
proof -
  let ?p = "token_file home_dir"
  from initialize_enclave_run [of home_dir create d SGX_SUCCESS True token' eid TOKEN_SIZE] assms(1,4) obtain l where
    l: "initialize_enclave (Some home_dir) create TOKEN_SIZE d = Inr l" "l_ret l = 0"
      "l_disk l = (if fst (open_token ?p d) \<noteq> None then fst (save_token ?p TOKEN_SIZE token' (opened_disk ?p d)) else opened_disk ?p d)"
    by auto
  have "fst (open_token ?p d) \<noteq> None" using assms(2) open_read_run(3) [of ?p d] by simp
  with l(3) have disk: "files (l_disk l) ?p = Some token'" "readable (l_disk l) ?p"
    using assms(2,3,5) by (auto simp: save_token_def fopen_wb_def opened_disk_def)
  then have given: "token_given ?p (l_disk l) = token'" "opened_disk ?p (l_disk l) = l_disk l"
    using assms(5) by (simp_all add: token_given_def opened_disk_def)
  with assms(6) have "create' (token_given ?p (l_disk l)) = (ret, False, token'', eid')" by simp
  from initialize_enclave_run [of home_dir create' "l_disk l" ret False token'' eid' wrote] assms(1) this given l(1,2) show ?thesis by auto
qed

theorem launch_token_roundtrip_witness:
  "\<exists>l l'. initialize_enclave (Some (Some ''/root'')) (\<lambda>_. (SGX_SUCCESS, True, replicate TOKEN_SIZE 7, 1 :: nat)) TOKEN_SIZE
       \<lparr>files = (\<lambda>_. None), readable = (\<lambda>_. True), writable = (\<lambda>_. True)\<rparr> = Inr l
     \<and> initialize_enclave (Some (Some ''/root'')) (\<lambda>t. (SGX_SUCCESS, False, t, 2 :: nat)) TOKEN_SIZE (l_disk l) = Inr l'
     \<and> l_given l' = replicate TOKEN_SIZE 7"
  using launch_token_roundtrip [of "Some ''/root''" "\<lparr>files = (\<lambda>_. None), readable = (\<lambda>_. True), writable = (\<lambda>_. True)\<rparr>"
      "\<lambda>_. (SGX_SUCCESS, True, replicate TOKEN_SIZE 7, 1 :: nat)" "replicate TOKEN_SIZE 7" 1 "\<lambda>t. (SGX_SUCCESS, False, t, 2 :: nat)"
      SGX_SUCCESS "replicate TOKEN_SIZE 7" 2 TOKEN_SIZE]
  by (auto simp: proper_def)

text \<open>A token file of the wrong size is not used: the creation starts from a zero token.\<close>

theorem damaged_token_cleared:
  assumes "proper home_dir" and "files d (token_file home_dir) = Some bs" and "length bs < TOKEN_SIZE"
    and "create (replicate TOKEN_SIZE 0) = (ret, updated, token', eid)"
  shows "\<exists>l. initialize_enclave (Some home_dir) create wrote d = Inr l \<and> l_given l = replicate TOKEN_SIZE 0
    \<and> l_ret l = (if ret = SGX_SUCCESS then 0 else - 1)"
proof -
  have "token_given (token_file home_dir) d = replicate TOKEN_SIZE 0" using assms(2,3) by (simp add: token_given_def)
  with initialize_enclave_run [of home_dir create d ret updated token' eid wrote] assms(1,4) show ?thesis by auto
qed

text \<open>Every status has a message, and no status has two entries.\<close>

lemma print_loop_cases:
  "print_loop ret es = [''Error: Unexpected error occurred.''] \<or> (\<exists>e \<in> set es. sgx_err e = ret \<and> last (print_loop ret es) = ''Error: '' @ sgx_msg e)"
  by (induction es) auto

lemma sgx_errlist_distinct: "distinct (map sgx_err sgx_errlist)"
  by (simp add: sgx_errlist_def)

text \<open>
  When the random generator of the enclave fails, the participant does not notice: it draws the
  smallest SGX time that is allowed, the one that is most likely to lead.
\<close>

theorem failed_generator_draws_minimum:
  assumes "read_rand 4 = None" and "c_sgxmax c - c_lowerbound c + 1 \<noteq> 0"
  shows "draw_sgx_time True read_rand c = Inr (c_lowerbound c)"
proof -
  have "ecall_random_bytes read_rand (replicate 4 0) = replicate 4 0" using assms(1) by (simp add: ecall_random_bytes_def)
  moreover have "uint_of_bytes (replicate 4 0) = 0" by (simp add: uint_of_bytes_def numeral_eq_Suc)
  ultimately show ?thesis using assms(2) by (simp add: draw_sgx_time_def generate_random_sgx_time_def Let_def)
qed

theorem failed_generator_draws_minimum_witness:
  "draw_sgx_time True (\<lambda>_. None) (sample_client test_queue []) = Inr 1"
  using failed_generator_draws_minimum [of "\<lambda>_. None" "sample_client test_queue []"] by (simp add: sample_client_def)

text \<open>All numbers of four bytes can be drawn, so the draw covers the range when the generator works.\<close>

lemma uint_of_bytes_surj: "\<exists>bs. length bs = 4 \<and> uint_of_bytes bs = n"
proof -
  let ?k = "unat n" and ?b = "\<lambda>m. of_nat (m mod 256) :: uchar"
  have b: "ucast (?b m) = (of_nat (m mod 256) :: uint)" for m by (simp only: unsigned_of_nat) (simp add: take_bit_nat_def)
  have "?k < 256 * (256 * (256 * 256))" using unsigned_less [of n, where ?'a = nat] by simp
  then have k: "?k div 256 div 256 div 256 mod 256 = ?k div 256 div 256 div 256" by (simp add: less_mult_imp_div_less div_mult2_eq)
  have "uint_of_bytes [?b ?k, ?b (?k div 256), ?b (?k div 256 div 256), ?b (?k div 256 div 256 div 256)] =
      of_nat (?k mod 256 + 256 * (?k div 256 mod 256 + 256 * (?k div 256 div 256 mod 256 + 256 * (?k div 256 div 256 div 256 mod 256))))"
    unfolding uint_of_bytes_def by (simp add: b del: of_nat_unat)
  also have "\<dots> = of_nat ?k" unfolding k by (simp only: mod_mult_div_eq)
  also have "\<dots> = n" by simp
  finally show ?thesis by (intro exI conjI) simp_all
qed

text \<open>
  C30. The times a participant can draw with four random bytes of its enclave are exactly those within
  the bounds it was given at its registration.
\<close>

theorem draw_sgx_time_range:
  assumes "c_lowerbound c \<le> c_sgxmax c" and "c_sgxmax c - c_lowerbound c + 1 \<noteq> 0"
  shows "{t. \<exists>bs. length bs = 4 \<and> draw_sgx_time True (\<lambda>_. Some bs) c = Inr t} = {c_lowerbound c .. c_sgxmax c}"
proof -
  have "(\<exists>bs. length bs = 4 \<and> draw_sgx_time True (\<lambda>_. Some bs) c = Inr t) \<longleftrightarrow> (\<exists>r. generate_random_sgx_time (Some r) c = Inr t)" for t
    unfolding draw_sgx_time_def ecall_random_bytes_def using uint_of_bytes_surj by (auto, metis)
  moreover have "{t. \<exists>r. generate_random_sgx_time (Some r) c = Inr t} = {c_lowerbound c .. c_sgxmax c}"
    using generate_random_sgx_time_range [OF assms(1)] assms(2) by simp
  ultimately show ?thesis by simp
qed

theorem draw_sgx_time_range_witness:
  "{t. \<exists>bs. length bs = 4 \<and> draw_sgx_time True (\<lambda>_. Some bs) (sample_client test_queue []) = Inr t} = {1 .. 10}"
  using draw_sgx_time_range [of "sample_client test_queue []"] by (simp add: sample_client_def)

end
