(* ===== verification/Socket.thy ===== *)
theory Socket imports Queue
begin

text \<open>
  The message layer of \<^verbatim>\<open>socket_t.c\<close>: life cycle of a socket, the exchange of messages that end with
  carriage return and line feed, and the buffers they are collected in. The answers of the kernel
  (to \<^verbatim>\<open>recv\<close>, \<^verbatim>\<open>send\<close>, \<^verbatim>\<open>connect\<close>, \<^verbatim>\<open>select\<close>) are lists that the functions consume from the
  front; \<open>None\<close> is a call that is still waiting when the list ends.
\<close>

section \<open>Sockets\<close>

text \<open>Sockets are objects in memory: a child points to its parent, which holds the set of descriptors.\<close>

datatype fd_data = Fd_Set "int list" | Parent nat

record socket_t =
  socket_descriptor :: int
  opt :: int
  is_closed :: bool
  max_connections :: int
  is_parent :: bool
  fd_set :: fd_data
  close_queue :: "int queue_t"

type_synonym sockets = "nat \<Rightarrow> socket_t option"

definition BUFFER_SIZE :: nat where "BUFFER_SIZE = 1024"
definition RETRIES_THRESHOLD :: nat where "RETRIES_THRESHOLD = 10"
definition FD_SETSIZE :: int where "FD_SETSIZE = 1024"

type_synonym errno = nat

definition EINTR :: errno where "EINTR = 4"
definition EAGAIN :: errno where "EAGAIN = 11"
definition EISCONN :: errno where "EISCONN = 106"

text \<open>
  \<open>fd\<close> is what \<^verbatim>\<open>socket\<close> returned, \<open>reuseaddr\<close> and \<open>reuseport\<close> tell whether the two \<^verbatim>\<open>setsockopt\<close>
  succeeded; the second component tells which descriptor was closed again.
\<close>

definition create_primitive_socket :: "int \<Rightarrow> bool \<Rightarrow> bool \<Rightarrow> int \<times> int option" where
  "create_primitive_socket fd reuseaddr reuseport =
     (if fd = - 1 then (- 1, None)
      else if reuseaddr \<and> reuseport then (fd, None) else (- 1, Some fd))"

text \<open>\<open>alloc\<close>, \<open>pton\<close>: whether \<^verbatim>\<open>malloc\<close> and, when an address is given, \<^verbatim>\<open>inet_pton\<close> succeeded.\<close>

definition socket_constructor :: "bool \<Rightarrow> int \<Rightarrow> bool \<Rightarrow> bool \<Rightarrow> bool \<Rightarrow> socket_t option" where
  "socket_constructor alloc fd reuseaddr reuseport pton =
     (if \<not> alloc then None
      else case create_primitive_socket fd reuseaddr reuseport of (d, _) \<Rightarrow>
        if d = - 1 \<or> \<not> pton then None
        else Some \<lparr>socket_descriptor = d, opt = 1, is_closed = False, max_connections = 0, is_parent = True,
                   fd_set = Fd_Set [d], close_queue = fresh_queue True\<rparr>)"

definition socket_bind :: "int \<Rightarrow> socket_t \<Rightarrow> int" where
  "socket_bind bind soc = (if is_closed soc then 0 else bind)"

definition socket_listen :: "int \<Rightarrow> int \<Rightarrow> socket_t \<Rightarrow> (int \<times> socket_t) res" where
  "socket_listen listen max_conn soc =
     rbind (assertc (max_conn > 0)) (\<lambda>_.
     if is_closed soc then Inr (- 1, soc)
     else if listen < 0 then Inr (listen, soc)
     else Inr (listen, soc\<lparr>max_connections := max 0 (min max_conn FD_SETSIZE)\<rparr>))"

text \<open>Every child is newer than its parent: the chain is no longer than the address it starts at.\<close>

fun get_parent :: "nat \<Rightarrow> sockets \<Rightarrow> nat \<Rightarrow> nat res" where
  "get_parent n m a = (case m a of
       None \<Rightarrow> Inl Wild_Pointer
     | Some s \<Rightarrow> if is_parent s then Inr a
                 else (case fd_set s of
                         Fd_Set _ \<Rightarrow> Inl Wild_Pointer
                       | Parent b \<Rightarrow> (case n of 0 \<Rightarrow> Inl Diverges | Suc k \<Rightarrow> get_parent k m b)))"

definition parent_of :: "sockets \<Rightarrow> nat \<Rightarrow> nat res" where
  "parent_of m a = get_parent a m a"

definition socket_close :: "nat \<Rightarrow> sockets \<Rightarrow> sockets res" where
  "socket_close a m = (case m a of
       None \<Rightarrow> Inl Wild_Pointer
     | Some s \<Rightarrow>
         if is_closed s then Inr m
         else rbind (parent_of m a) (\<lambda>p. case m p of
                None \<Rightarrow> Inl Wild_Pointer
              | Some ps \<Rightarrow>
                  rbind (queue_push (close_queue ps) (socket_descriptor s)) (\<lambda>q.
                  let m1 = m(p \<mapsto> ps\<lparr>close_queue := q\<rparr>) in
                  case m1 a of None \<Rightarrow> Inl Wild_Pointer | Some s1 \<Rightarrow> Inr (m1(a \<mapsto> s1\<lparr>is_closed := True\<rparr>)))))"

definition socket_destructor :: "nat \<Rightarrow> sockets \<Rightarrow> sockets res" where
  "socket_destructor a m =
     rbind (socket_close a m) (\<lambda>m1. case m1 a of
        None \<Rightarrow> Inl Wild_Pointer
      | Some s \<Rightarrow>
          rbind (if is_parent s then rbind (queue_destructor 0 (close_queue s) False) (\<lambda>_. Inr ()) else Inr ()) (\<lambda>_.
          Inr (m1(a := None))))"

text \<open>\<open>new\<close> is the address of the new object, \<open>fd\<close> the result of \<^verbatim>\<open>accept\<close>.\<close>

definition socket_accept :: "nat \<Rightarrow> int \<Rightarrow> nat \<Rightarrow> sockets \<Rightarrow> (nat option \<times> sockets) res" where
  "socket_accept new fd a m = (case m a of
       None \<Rightarrow> Inl Wild_Pointer
     | Some s \<Rightarrow>
         if is_closed s \<or> fd < 0 then Inr (None, m)
         else rbind (parent_of m a) (\<lambda>p. case m p of
                None \<Rightarrow> Inl Wild_Pointer
              | Some ps \<Rightarrow> (case fd_set ps of
                    Parent _ \<Rightarrow> Inl Wild_Pointer
                  | Fd_Set fds \<Rightarrow>
                      Inr (Some new, m(p \<mapsto> ps\<lparr>fd_set := Fd_Set (List.insert fd fds)\<rparr>,
                         new \<mapsto> s\<lparr>socket_descriptor := fd, is_parent := False, fd_set := Parent a\<rparr>)))))"

text \<open>
  \<^verbatim>\<open>socket_select_parent\<close>: a parent first forgets the descriptors of its closed children. \<open>selects\<close>
  holds the results of \<^verbatim>\<open>select\<close>; what is tested afterwards is the set of watched descriptors, not
  the set of ready ones.
\<close>

fun select_loop :: "bool \<Rightarrow> int list \<Rightarrow> bool option" where
  "select_loop watched [] = None"
| "select_loop watched (r # rs) = (if r < 0 then Some False else if watched then Some True else select_loop watched rs)"

definition forget_closed :: "socket_t \<Rightarrow> socket_t res" where
  "forget_closed ps = (case fd_set ps of
       Parent _ \<Rightarrow> Inl Wild_Pointer
     | Fd_Set fds \<Rightarrow>
         rbind (drain (linked_ops 0) (brk (q_heap (close_queue ps))) (close_queue ps) []) (\<lambda>(closed, q).
         Inr (ps\<lparr>fd_set := Fd_Set (filter (\<lambda>fd. fd \<notin> set closed) fds), close_queue := q\<rparr>)))"

definition socket_select :: "int list \<Rightarrow> nat \<Rightarrow> sockets \<Rightarrow> (bool option \<times> sockets) res" where
  "socket_select selects a m =
     rbind (parent_of m a) (\<lambda>p. case m a of
        None \<Rightarrow> Inl Wild_Pointer
      | Some s \<Rightarrow>
          if is_closed s then Inr (Some False, m)
          else (case m p of
              None \<Rightarrow> Inl Wild_Pointer
            | Some ps \<Rightarrow>
                rbind (if is_parent s then forget_closed ps else Inr ps) (\<lambda>ps'.
                case fd_set ps' of
                  Parent _ \<Rightarrow> Inl Wild_Pointer
                | Fd_Set fds \<Rightarrow> Inr (select_loop (socket_descriptor ps' \<in> set fds) selects, m(p \<mapsto> ps')))))"

section \<open>Connecting\<close>

text \<open>The result of \<^verbatim>\<open>connect\<close> and the error number it left.\<close>

definition socket_connect :: "int \<times> errno \<Rightarrow> socket_t \<Rightarrow> int" where
  "socket_connect r soc = (if is_closed soc then - 1
     else if fst r \<noteq> 0 \<and> snd r = EISCONN then 0 else fst r)"

text \<open>
  Each attempt: the result of \<^verbatim>\<open>connect\<close> and, for when it fails, the new descriptor or \<open>-1\<close>. The
  number of attempts made is part of the result.
\<close>

fun connect_loop :: "nat \<Rightarrow> ((int \<times> errno) \<times> int) list \<Rightarrow> socket_t \<Rightarrow> (int \<times> nat \<times> socket_t) option" where
  "connect_loop retries [] soc = None"
| "connect_loop retries ((r, fd) # rs) soc =
     (let connected = socket_connect r soc in
      if connected = 0 then Some (0, Suc retries, soc)
      else if fd = - 1 then Some (connected, Suc retries, soc)
      else let soc' = soc\<lparr>socket_descriptor := fd\<rparr> in
           if Suc retries < RETRIES_THRESHOLD then connect_loop (Suc retries) rs soc'
           else Some (connected, Suc retries, soc'))"

definition socket_connect_retry :: "((int \<times> errno) \<times> int) list \<Rightarrow> socket_t \<Rightarrow> (int \<times> nat \<times> socket_t) option" where
  "socket_connect_retry rs soc = connect_loop 0 rs soc"

section \<open>Receiving\<close>

text \<open>What \<^verbatim>\<open>recv\<close> can answer: some bytes, the end of the connection, an error.\<close>

datatype recv_result = Data "uchar list" | Eof | Recv_Error errno

definition socket_recv :: "bool \<Rightarrow> recv_result list \<Rightarrow> (recv_result \<times> recv_result list) option" where
  "socket_recv closed ks =
     (if closed then Some (Recv_Error 0, ks)
      else case ks of
        [] \<Rightarrow> None
      | Recv_Error e # ks' \<Rightarrow>
          if e = EINTR \<or> e = EAGAIN then (case ks' of [] \<Rightarrow> None | r # ks'' \<Rightarrow> Some (r, ks''))
          else Some (Recv_Error e, ks')
      | r # ks' \<Rightarrow> Some (r, ks'))"

text \<open>The zeroed block after the call, and the returned \<^verbatim>\<open>int\<close> as a \<^verbatim>\<open>size_t\<close>.\<close>

definition block_of :: "recv_result \<Rightarrow> uchar list" where
  "block_of r = (case r of Data bs \<Rightarrow> bs @ replicate (BUFFER_SIZE - length bs) 0 | _ \<Rightarrow> replicate BUFFER_SIZE 0)"

definition received_of :: "recv_result \<Rightarrow> size_t" where
  "received_of r = (case r of Data bs \<Rightarrow> of_nat (length bs) | Eof \<Rightarrow> 0 | Recv_Error _ \<Rightarrow> - 1)"

text \<open>\<^verbatim>\<open>strstr\<close> for carriage return and line feed, and \<^verbatim>\<open>strlen\<close>, on a block of memory.\<close>

fun strstr_crlf :: "uchar list \<Rightarrow> nat option res" where
  "strstr_crlf [] = Inl Out_Of_Range"
| "strstr_crlf (c # cs) =
     (if c = 0 then Inr None
      else if c = 13
      then (case cs of [] \<Rightarrow> Inl Out_Of_Range
            | d # _ \<Rightarrow> if d = 10 then Inr (Some 0) else rbind (strstr_crlf cs) (\<lambda>r. Inr (map_option Suc r)))
      else rbind (strstr_crlf cs) (\<lambda>r. Inr (map_option Suc r)))"

definition strlen :: "uchar list \<Rightarrow> nat res" where
  "strlen bs = (if 0 \<in> set bs then Inr (length (takeWhile (\<lambda>c. c \<noteq> 0) bs)) else Inl Out_Of_Range)"

text \<open>\<^verbatim>\<open>concat_buffers\<close>: \<open>alloc\<close> is the outcome of its \<^verbatim>\<open>malloc\<close>.\<close>

definition concat_buffers :: "bool \<Rightarrow> uchar list queue_t \<Rightarrow> (uchar list option \<times> uchar list queue_t) res" where
  "concat_buffers alloc queue =
     (let (n, q) = queue_size queue in
      if \<not> alloc then Inr (None, q)
      else rbind (drain (linked_ops []) (brk (q_heap q)) q []) (\<lambda>(blocks, q').
           rbind (if length blocks \<le> unat n then Inr () else Inl Out_Of_Range) (\<lambda>_.
           Inr (Some (concat blocks @ replicate ((unat n - length blocks) * BUFFER_SIZE) 0), q'))))"

text \<open>
  The loop of \<^verbatim>\<open>socket_get_message_custom\<close>; a block is pushed in its final form. \<open>False\<close>: the jump to
  \<^verbatim>\<open>error\<close>. The test \<^verbatim>\<open>received < 0\<close> is made on an unsigned number.
\<close>

function get_loop ::
    "recv_result list \<Rightarrow> uchar list queue_t \<Rightarrow> size_t \<Rightarrow> ((bool \<times> uchar list queue_t \<times> size_t) res \<times> recv_result list) option" where
  "get_loop ks queue current_size =
     (case socket_recv False ks of
        None \<Rightarrow> None
      | Some (r, ks') \<Rightarrow>
          let block = block_of r; received = received_of r in
          if received = 0
          then Some (rbind (queue_push queue block) (\<lambda>q. Inr (False, q, current_size)), ks')
          else (case strstr_crlf block of
              Inl e \<Rightarrow> Some (Inl e, ks')
            | Inr (Some i) \<Rightarrow>
                let block' = block[i := 0] in
                Some (rbind (strlen block') (\<lambda>n. rbind (queue_push queue block') (\<lambda>q.
                  Inr (True, q, current_size + of_nat n))), ks')
            | Inr None \<Rightarrow>
                (case queue_push queue block of
                   Inl e \<Rightarrow> Some (Inl e, ks')
                 | Inr q \<Rightarrow> get_loop ks' q (current_size + received))))"
  by pat_completeness auto
termination
  by (relation "measure (\<lambda>(ks, q, n). length ks)")
     (auto simp: socket_recv_def split: list.splits recv_result.splits if_splits)

text \<open>The returned \<^verbatim>\<open>int\<close>, the buffer and its length.\<close>

record message =
  msg_ret :: int
  msg_buffer :: "uchar list option"
  msg_len :: nat

definition socket_get_message :: "bool \<Rightarrow> bool \<Rightarrow> recv_result list \<Rightarrow> (message res \<times> recv_result list) option" where
  "socket_get_message alloc closed ks =
     (if closed then Some (Inr \<lparr>msg_ret = - 1, msg_buffer = None, msg_len = 0\<rparr>, ks)
      else map_option (\<lambda>(r, ks').
        (rbind r (\<lambda>(finished, q, n).
         if \<not> finished
         then rbind (queue_destructor [] q True) (\<lambda>_. Inr \<lparr>msg_ret = 0, msg_buffer = None, msg_len = 0\<rparr>)
         else rbind (concat_buffers alloc q) (\<lambda>(buffer, q'). case buffer of
                None \<Rightarrow> Inl Null_Deref
              | Some bs \<Rightarrow> rbind (strlen bs) (\<lambda>len.
                  rbind (queue_destructor [] q' True) (\<lambda>_.
                  Inr \<lparr>msg_ret = sint (ucast n :: uint), msg_buffer = Some bs, msg_len = len\<rparr>)))), ks'))
        (get_loop ks (fresh_queue True) 0))"

section \<open>Sending\<close>

text \<open>
  An answer of \<^verbatim>\<open>send\<close>: the returned value, where a positive one means as many bytes as asked for
  at most, and the error number.
\<close>

type_synonym send_result = "int \<times> errno"

fun send_again :: "nat \<Rightarrow> send_result list \<Rightarrow> (send_result \<times> send_result list) option" where
  "send_again len [] = None"
| "send_again len ((v, e) # rs) =
     (if v \<le> 0 \<and> (e = EINTR \<or> e = EAGAIN) then send_again len rs else Some ((min v (int len), e), rs))"

definition socket_send :: "bool \<Rightarrow> nat \<Rightarrow> send_result list \<Rightarrow> (send_result res \<times> send_result list) option" where
  "socket_send closed len rs =
     (if len = 0 then Some (Inl Assertion_Failed, rs)
      else if closed then Some (Inr (- 1, 0), rs)
      else map_option (\<lambda>(r, rs'). (Inr r, rs')) (send_again len rs))"

lemma send_again_shorter: "send_again len rs = Some (r, rs') \<Longrightarrow> length rs' < length rs"
  by (induction len rs rule: send_again.induct) (auto split: if_splits)

text \<open>
  The loop of \<^verbatim>\<open>socket_send_message_custom\<close> after \<open>total_sent\<close> bytes: \<open>Some n\<close> bytes were sent in the end, or \<open>None\<close>
  for the jump to \<^verbatim>\<open>error\<close>; whether the socket is closed; what has gone onto the wire. An error is
  final, since \<^verbatim>\<open>socket_send\<close> itself repeats the call after \<^verbatim>\<open>EAGAIN\<close>.
\<close>

function send_loop :: "uchar list \<Rightarrow> nat \<Rightarrow> send_result list \<Rightarrow> uchar list \<Rightarrow> (nat option \<times> bool \<times> uchar list \<times> send_result list) option" where
  "send_loop buffer total_sent rs wire =
     (case send_again (min (length buffer - total_sent) BUFFER_SIZE) rs of
        None \<Rightarrow> None
      | Some ((v, e), rs') \<Rightarrow>
          if v < 0 then Some (None, False, wire, rs')
          else if v = 0 then Some (None, True, wire, rs')
          else let total' = total_sent + nat v; wire' = wire @ take (nat v) (drop total_sent buffer) in
               if total' < length buffer then send_loop buffer total' rs' wire'
               else Some (Some total', False, wire', rs'))"
  by pat_completeness auto
termination
  by (relation "measure (\<lambda>(b, t, rs, w). length rs)") (auto dest: send_again_shorter)

definition ending :: "uchar list" where "ending = [13, 10]"

text \<open>
  The result: the returned \<^verbatim>\<open>int\<close>, whether the socket was closed, the bytes on the wire. The
  number of bytes sent of the ending is compared as an unsigned number.
\<close>

definition socket_send_message ::
    "bool \<Rightarrow> uchar list \<Rightarrow> send_result list \<Rightarrow> ((int \<times> bool \<times> uchar list) res \<times> send_result list) option" where
  "socket_send_message closed buffer rs =
     (if buffer = [] then Some (Inl Assertion_Failed, rs)
      else if closed then Some (Inr (- 1, False, []), rs)
      else case send_loop buffer 0 rs [] of
        None \<Rightarrow> None
      | Some (None, cl, wire, rs') \<Rightarrow> Some (Inr (0, cl, wire), rs')
      | Some (Some n, cl, wire, rs') \<Rightarrow>
          (case send_again (length ending) rs' of
             None \<Rightarrow> None
           | Some ((v, e), rs'') \<Rightarrow>
               Some (Inr (if (of_int v :: size_t) < of_nat (length ending) then 0 else int n, False,
                          wire @ take (nat v) ending), rs'')))"

section \<open>Specification\<close>

text \<open>Bytes that can stand in a message: no zero and no line end.\<close>

definition clean :: "uchar list \<Rightarrow> bool" where
  "clean bs \<longleftrightarrow> 0 \<notin> set bs \<and> strstr_crlf (bs @ [0]) = Inr None"

text \<open>A listening socket, for the examples.\<close>

definition listening :: socket_t where
  "listening = \<lparr>socket_descriptor = 3, opt = 1, is_closed = False, max_connections = 20, is_parent = True,
     fd_set = Fd_Set [3], close_queue = fresh_queue True\<rparr>"

section \<open>What is sent\<close>

declare send_loop.simps [simp del] get_loop.simps [simp del]

lemma send_again_positive: "0 < v \<Longrightarrow> send_again len ((v, e) # rs) = Some ((min v (int len), e), rs)"
  by simp

lemma send_loop_complete:
  assumes "list_all (\<lambda>(v, e). 0 < v) rs" and "n < length buffer" and "length buffer - n \<le> length rs"
  shows "\<exists>k \<le> length buffer - n. send_loop buffer n rs (take n buffer) = Some (Some (length buffer), False, buffer, drop k rs)"
  using assms
proof (induction rs arbitrary: n)
  case (Cons r rs)
  obtain v e where r: "r = (v, e)" "0 < v" using Cons.prems(1) by (cases r) auto
  define k where "k = nat (min v (int (min (length buffer - n) BUFFER_SIZE)))"
  have k: "0 < k" "n + k \<le> length buffer" using r Cons.prems(2) by (auto simp: k_def BUFFER_SIZE_def)
  have m: "min v (int (min (length buffer - n) BUFFER_SIZE)) = int k" using r Cons.prems(2) by (simp add: k_def)
  have wire: "take n buffer @ take k (drop n buffer) = take (n + k) buffer" by (simp add: take_add)
  have step: "send_loop buffer n (r # rs) (take n buffer) =
      (if n + k < length buffer then send_loop buffer (n + k) rs (take (n + k) buffer)
       else Some (Some (n + k), False, take (n + k) buffer, rs))"
    using r(1) m k(1) by (subst send_loop.simps, subst r(1), subst send_again_positive [OF r(2)]) (simp add: wire Let_def)
  show ?case
  proof (cases "n + k < length buffer")
    case True
    moreover have "length buffer - (n + k) \<le> length rs" using Cons.prems(3) k(1) by simp
    ultimately obtain j where
      "j \<le> length buffer - (n + k)" "send_loop buffer (n + k) rs (take (n + k) buffer) = Some (Some (length buffer), False, buffer, drop j rs)"
      using Cons.IH [of "n + k"] Cons.prems(1) by auto
    then show ?thesis using True k(1) by (intro exI [of _ "Suc j"]) (simp add: step)
  next
    case False
    then show ?thesis using k Cons.prems(2) by (intro exI [of _ 1]) (simp add: step)
  qed
qed simp

lemma socket_send_message_complete:
  assumes "buffer \<noteq> []" and "list_all (\<lambda>(v, e). 2 \<le> v) rs" and "length buffer < length rs"
  shows "\<exists>rs'. socket_send_message False buffer rs = Some (Inr (int (length buffer), False, buffer @ ending), rs')"
proof -
  have "list_all (\<lambda>(v, e). 0 < v) rs" using assms(2) by (auto simp: list_all_iff)
  with send_loop_complete [of rs 0 buffer] assms(1,3) obtain k where
    k: "k \<le> length buffer" "send_loop buffer 0 rs [] = Some (Some (length buffer), False, buffer, drop k rs)" by auto
  obtain v e rs' where rs': "drop k rs = (v, e) # rs'" using k(1) assms(3) by (cases "drop k rs") auto
  then have "(v, e) \<in> set rs" by (metis in_set_dropD list.set_intros(1))
  then have v: "2 \<le> v" using assms(2) by (auto simp: list_all_iff)
  then have "min v 2 = 2" by simp
  with k(2) rs' v assms(1) show ?thesis by (simp add: socket_send_message_def ending_def)
qed

section \<open>What is received\<close>

lemma strstr_found:
  assumes "0 \<notin> set xs" and "strstr_crlf (xs @ [0]) = Inr None"
  shows "strstr_crlf (xs @ 13 # 10 # zs) = Inr (Some (length xs))"
  using assms
proof (induction xs)
  case (Cons c xs)
  then show ?case by (cases xs) (auto simp: rbind_eq_Inr split: if_splits)
qed simp

lemma strstr_none:
  assumes "0 \<notin> set xs" and "strstr_crlf (xs @ [0]) = Inr None"
  shows "strstr_crlf (xs @ 0 # zs) = Inr None" and "strstr_crlf xs = Inl Out_Of_Range"
  using assms
proof (induction xs)
  case (Cons c xs)
  {
    case 1
    with Cons show ?case by (cases xs) (auto simp: rbind_eq_Inr split: if_splits)
  next
    case 2
    with Cons show ?case by (cases xs) (auto simp: rbind_eq_Inr split: if_splits)
  }
qed simp_all

lemma strlen_at: "0 \<notin> set xs \<Longrightarrow> strlen (xs @ 0 # zs) = Inr (length xs)"
  by (simp add: strlen_def takeWhile_append)

lemma queue_push_rep: "queue_rep q xs \<Longrightarrow> \<exists>q'. queue_push q x = Inr q' \<and> queue_rep q' (xs @ [x])"
  using queue_rep_push [of q xs x True True] by (auto simp: queue_push_def)

lemma concat_buffers_rep:
  assumes "queue_rep q bs" and "length bs < 2 ^ 31"
  shows "\<exists>q'. concat_buffers True q = Inr (Some (concat bs), q') \<and> queue_rep q' []"
proof -
  obtain q1 where q1: "queue_size q = (of_nat (length bs), q1)" "queue_rep q1 bs"
    using queue_rep_size [OF assms, of True] assms(1) by (simp add: queue_size_def)
  have n: "unat (of_nat (length bs) :: size_t) = length bs" using assms(2) by (simp add: unat_of_nat)
  have "queue_wf q1" "queue_list q1 = bs" using queue_repI [OF q1(2)] by simp_all
  with linked.drain_contents [of q1 "brk (q_heap q1)" "[]" "[]"] queue_rep_length [OF q1(2)] obtain q' where
    "drain (linked_ops []) (brk (q_heap q1)) q1 [] = Inr (bs, q')" "queue_wf q'" "queue_list q' = []" by auto
  moreover then have "queue_rep q' []" using queue_wf_rep by metis
  ultimately show ?thesis using q1(1) n by (simp add: concat_buffers_def)
qed

lemma finished_message:
  assumes "queue_rep q bs" and "length bs < 2 ^ 31" and "strlen (concat bs) = Inr len"
  shows "\<exists>q'. rbind (concat_buffers True q) (\<lambda>(buffer, q'). case buffer of
                None \<Rightarrow> Inl Null_Deref
              | Some bs \<Rightarrow> rbind (strlen bs) (\<lambda>len.
                  rbind (queue_destructor [] q' True) (\<lambda>_.
                  Inr \<lparr>msg_ret = n, msg_buffer = Some bs, msg_len = len\<rparr>))) =
     Inr \<lparr>msg_ret = n, msg_buffer = Some (concat bs), msg_len = len\<rparr>"
proof -
  obtain q1 where q1: "concat_buffers True q = Inr (Some (concat bs), q1)" "queue_rep q1 []"
    using concat_buffers_rep [OF assms(1,2)] by blast
  obtain q2 where "queue_destructor [] q1 True = Inr ([], q2)" using queue_rep_destructor [OF q1(2)] by auto
  then show ?thesis using q1(1) assms(3) by simp
qed

lemma block_ending:
  assumes "length bs + 2 \<le> BUFFER_SIZE"
  shows "\<exists>zs. block_of (Data (bs @ ending)) = bs @ 13 # 10 # zs \<and> (block_of (Data (bs @ ending)))[length bs := 0] = bs @ 0 # 10 # zs"
  using assms by (simp add: block_of_def ending_def list_update_append)

lemma received_data: "bs \<noteq> [] \<Longrightarrow> length bs \<le> BUFFER_SIZE \<Longrightarrow> received_of (Data bs) = of_nat (length bs) \<and> received_of (Data bs) \<noteq> 0"
proof -
  assume bs: "bs \<noteq> []" "length bs \<le> BUFFER_SIZE"
  then have "unat (of_nat (length bs) :: size_t) = length bs" by (simp add: unat_of_nat BUFFER_SIZE_def)
  then show ?thesis using bs(1) by (auto simp: received_of_def)
qed

lemma get_last:
  assumes "clean bs" and "length bs + 2 \<le> BUFFER_SIZE" and "queue_rep q xs"
  shows "\<exists>q' zs. get_loop (Data (bs @ ending) # ks) q n = Some (Inr (True, q', n + of_nat (length bs)), ks)
     \<and> queue_rep q' (xs @ [bs @ 0 # 10 # zs])"
proof -
  obtain zs where zs: "block_of (Data (bs @ ending)) = bs @ 13 # 10 # zs" "(block_of (Data (bs @ ending)))[length bs := 0] = bs @ 0 # 10 # zs"
    using block_ending [OF assms(2)] by blast
  obtain q' where q': "queue_push q (bs @ 0 # 10 # zs) = Inr q'" "queue_rep q' (xs @ [bs @ 0 # 10 # zs])"
    using queue_push_rep [OF assms(3)] by blast
  have "received_of (Data (bs @ ending)) \<noteq> 0" using received_data [of "bs @ ending"] assms(2) by (auto simp: ending_def simp del: of_nat_Suc of_nat_add)
  moreover have "strstr_crlf (block_of (Data (bs @ ending))) = Inr (Some (length bs))"
    using strstr_found assms(1) unfolding zs(1) clean_def by blast
  moreover have "strlen (bs @ 0 # 10 # zs) = Inr (length bs)" using assms(1) strlen_at unfolding clean_def by blast
  ultimately show ?thesis using q' zs(2) by (intro exI) (subst get_loop.simps, auto simp: socket_recv_def Let_def)
qed

lemma get_more:
  assumes "clean bs" and "bs \<noteq> []" and "length bs < BUFFER_SIZE" and "queue_rep q xs"
  shows "\<exists>q' zs. get_loop (Data bs # ks) q n = get_loop ks q' (n + of_nat (length bs))
     \<and> queue_rep q' (xs @ [bs @ 0 # zs])"
proof -
  obtain zs where zs: "block_of (Data bs) = bs @ 0 # zs" using assms(3)
    by (cases "BUFFER_SIZE - length bs") (auto simp: block_of_def)
  obtain q' where q': "queue_push q (bs @ 0 # zs) = Inr q'" "queue_rep q' (xs @ [bs @ 0 # zs])"
    using queue_push_rep [OF assms(4)] by blast
  have "strstr_crlf (block_of (Data bs)) = Inr None" using strstr_none(1) assms(1) unfolding zs clean_def by blast
  then show ?thesis using q' zs received_data [OF assms(2)] assms(3)
    by (intro exI) (subst get_loop.simps, auto simp: socket_recv_def Let_def)
qed

lemma replicate_tail: "replicate n x = y # ys \<Longrightarrow> y = x \<and> ys = replicate (n - 1) x"
  by (cases n) auto

lemma message_run:
  assumes "msg \<noteq> []" and "clean msg" and "length msg + 2 \<le> BUFFER_SIZE"
    and "list_all (\<lambda>(v, e). 2 \<le> v) rs" and "length msg < length rs"
  shows "\<exists>wire rs' bs. socket_send_message False msg rs = Some (Inr (int (length msg), False, wire), rs')
     \<and> socket_get_message True False [Data wire] =
        Some (Inr \<lparr>msg_ret = int (length msg), msg_buffer = Some bs, msg_len = length msg\<rparr>, [])
     \<and> take (length msg) bs = msg"
proof -
  obtain rs' where send: "socket_send_message False msg rs = Some (Inr (int (length msg), False, msg @ ending), rs')"
    using socket_send_message_complete [OF assms(1,4,5)] by blast
  obtain q zs where q: "get_loop [Data (msg @ ending)] (fresh_queue True) 0 = Some (Inr (True, q, of_nat (length msg)), [])"
    "queue_rep q [msg @ 0 # 10 # zs]"
    using get_last [OF assms(2,3) fresh_queue_rep [of True], of "[]" 0] by auto
  have len: "strlen (concat [msg @ 0 # 10 # zs]) = Inr (length msg)" using assms(2) strlen_at [of msg] by (simp add: clean_def)
  have "unat (of_nat (length msg) :: size_t) = length msg" using assms(3) by (simp add: unat_of_nat BUFFER_SIZE_def)
  then have "unat (ucast (of_nat (length msg) :: size_t) :: uint) = length msg"
    using assms(3) by (simp add: unsigned_ucast_eq take_bit_nat_eq_self_iff BUFFER_SIZE_def)
  then have ret: "sint (ucast (of_nat (length msg) :: size_t) :: uint) = int (length msg)"
    using assms(3) by (subst sint_eq_unat) (simp_all add: BUFFER_SIZE_def)
  have "socket_get_message True False [Data (msg @ ending)] =
      Some (Inr \<lparr>msg_ret = int (length msg), msg_buffer = Some (msg @ 0 # 10 # zs), msg_len = length msg\<rparr>, [])"
    using q(1) ret finished_message [OF q(2) _ len, of "sint (ucast (of_nat (length msg) :: size_t) :: uint)"]
    by (simp add: socket_get_message_def)
  moreover have "take (length msg) (msg @ 0 # 10 # zs) = msg" by simp
  ultimately show ?thesis using send by blast
qed

lemma truncated_run:
  assumes "clean a" and "a \<noteq> []" and "length a < BUFFER_SIZE" and "clean b" and "length b + 2 \<le> BUFFER_SIZE"
  shows "\<exists>bs. socket_get_message True False [Data a, Data (b @ ending)] =
      Some (Inr \<lparr>msg_ret = int (length a + length b), msg_buffer = Some bs, msg_len = length a\<rparr>, [])
     \<and> take (length a) bs = a"
proof -
  obtain q1 ys where q1: "get_loop [Data a, Data (b @ ending)] (fresh_queue True) 0 = get_loop [Data (b @ ending)] q1 (of_nat (length a))"
    "queue_rep q1 [a @ 0 # ys]"
    using get_more [OF assms(1-3) fresh_queue_rep [of True], of "[Data (b @ ending)]" 0] by auto
  let ?n = "of_nat (length a) + of_nat (length b) :: size_t"
  obtain q2 zs where q2: "get_loop [Data (b @ ending)] q1 (of_nat (length a)) = Some (Inr (True, q2, ?n), [])"
    "queue_rep q2 ([a @ 0 # ys] @ [b @ 0 # 10 # zs])"
    using get_last [OF assms(4,5) q1(2), of "[]" "of_nat (length a)"] by auto
  have len: "strlen (concat ([a @ 0 # ys] @ [b @ 0 # 10 # zs])) = Inr (length a)" using assms(1) strlen_at [of a] by (simp add: clean_def)
  have "unat ?n = length a + length b" unfolding of_nat_add [symmetric]
    using assms(3,5) by (simp only: unat_of_nat) (simp add: BUFFER_SIZE_def)
  then have "unat (ucast ?n :: uint) = length a + length b"
    using assms(3,5) by (simp add: unsigned_ucast_eq take_bit_nat_eq_self_iff BUFFER_SIZE_def)
  then have ret: "sint (ucast ?n :: uint) = int (length a + length b)"
    using assms(3,5) by (subst sint_eq_unat) (simp_all add: BUFFER_SIZE_def)
  have "socket_get_message True False [Data a, Data (b @ ending)] =
      Some (Inr \<lparr>msg_ret = int (length a + length b), msg_buffer = Some (a @ 0 # ys @ b @ 0 # 10 # zs), msg_len = length a\<rparr>, [])"
    using q1(1) q2(1) ret finished_message [OF q2(2) _ len, of "sint (ucast ?n :: uint)"]
    by (simp add: socket_get_message_def)
  then show ?thesis by auto
qed

section \<open>Properties\<close>

text \<open>
  A message of up to 1022 bytes without zeros and line ends, sent with \<^verbatim>\<open>socket_send_message\<close>
  however the kernel splits the sending, and arriving in one piece, is what
  \<^verbatim>\<open>socket_get_message\<close> returns, with its length.
\<close>

theorem message_roundtrip:
  assumes "msg \<noteq> []" and "clean msg" and "length msg + 2 \<le> BUFFER_SIZE"
    and "list_all (\<lambda>(v, e). 2 \<le> v) rs" and "length msg < length rs"
  shows "\<exists>wire rs' bs. socket_send_message False msg rs = Some (Inr (int (length msg), False, wire), rs')
     \<and> socket_get_message True False [Data wire] =
        Some (Inr \<lparr>msg_ret = int (length msg), msg_buffer = Some bs, msg_len = length msg\<rparr>, [])
     \<and> take (length msg) bs = msg"
  using message_run [OF assms] .

theorem message_roundtrip_witness:
  "\<exists>wire rs' bs. socket_send_message False [123, 125] [(2, 0), (5, 0), (9, 0)] = Some (Inr (2, False, wire), rs')
     \<and> socket_get_message True False [Data wire] = Some (Inr \<lparr>msg_ret = 2, msg_buffer = Some bs, msg_len = 2\<rparr>, [])
     \<and> take 2 bs = [123, 125]"
proof -
  have "clean [123, 125]" by code_simp
  from message_roundtrip [OF _ this, of "[(2, 0), (5, 0), (9, 0)]"] show ?thesis by (simp add: BUFFER_SIZE_def numeral_2_eq_2)
qed

text \<open>
  A message that arrives in two pieces is cut off after the first: the blocks are joined with
  the zeros that fill them up, and the length is measured up to the first zero. The returned
  count still covers both pieces.
\<close>

theorem socket_get_message_truncates:
  assumes "clean a" and "a \<noteq> []" and "length a < BUFFER_SIZE" and "clean b" and "length b + 2 \<le> BUFFER_SIZE"
  shows "\<exists>bs. socket_get_message True False [Data a, Data (b @ ending)] =
      Some (Inr \<lparr>msg_ret = int (length a + length b), msg_buffer = Some bs, msg_len = length a\<rparr>, [])
     \<and> take (length a) bs = a"
  using truncated_run [OF assms] .

theorem socket_get_message_truncates_witness:
  "\<exists>bs. socket_get_message True False [Data [123, 32], Data ([125] @ ending)] =
      Some (Inr \<lparr>msg_ret = 3, msg_buffer = Some bs, msg_len = 2\<rparr>, [])"
proof -
  have "clean [123, 32]" "clean [125]" by code_simp+
  from socket_get_message_truncates [OF this(1) _ _ this(2)] show ?thesis by (auto simp: BUFFER_SIZE_def numeral_2_eq_2)
qed

text \<open>
  A block that is full and has no line end is searched beyond its end: a message of more than
  1022 bytes makes the receiver read outside its buffer.
\<close>

theorem socket_get_message_overreads:
  assumes "clean a" and "length a = BUFFER_SIZE"
  shows "socket_get_message alloc False (Data a # ks) = Some (Inl Out_Of_Range, ks)"
proof -
  have "block_of (Data a) = a" using assms(2) by (simp add: block_of_def)
  moreover have "a \<noteq> []" using assms(2) by (auto simp: BUFFER_SIZE_def)
  then have "received_of (Data a) \<noteq> 0" using received_data [of a, THEN conjunct2] assms(2) by simp
  ultimately show ?thesis
    using strstr_none(2) [of a] assms(1)
    by (simp add: socket_get_message_def get_loop.simps [of "Data a # ks"] socket_recv_def clean_def Let_def)
qed

theorem socket_get_message_overreads_witness:
  "socket_get_message True False [Data (replicate 1024 65)] = Some (Inl Out_Of_Range, [])"
proof -
  have none: "strstr_crlf (replicate n 65 @ [0]) = Inr None" for n by (induction n) simp_all
  show ?thesis
    by (rule socket_get_message_overreads) (simp_all add: clean_def BUFFER_SIZE_def none set_replicate_conv_if)
qed

text \<open>
  An error of \<^verbatim>\<open>recv\<close> is never noticed: as long as errors come, however many, the function
  goes on calling \<^verbatim>\<open>recv\<close> and returns nothing.
\<close>

theorem socket_get_message_ignores_errors:
  "socket_get_message alloc False (replicate n (Recv_Error e)) = None"
proof -
  have "get_loop (replicate n (Recv_Error e)) q m = None" if "queue_rep q xs" for q xs m
    using that
  proof (induction n arbitrary: q xs m rule: less_induct)
    case (less n)
    obtain q' where q': "queue_push q (block_of (Recv_Error e)) = Inr q'" "queue_rep q' (xs @ [block_of (Recv_Error e)])"
      using queue_push_rep [OF less.prems] by blast
    have z: "strstr_crlf (block_of (Recv_Error e)) = Inr None" by (simp add: block_of_def BUFFER_SIZE_def numeral_eq_Suc)
    have IH: "k < n \<Longrightarrow> get_loop (replicate k (Recv_Error e)) q' m' = None" for k m'
      using less.IH [OF _ q'(2)] .
    show ?case
    proof (cases n)
      case (Suc k)
      then show ?thesis
        using IH q'(1) z
        by (subst get_loop.simps) (auto simp: socket_recv_def received_of_def Let_def split: list.split dest!: replicate_tail)
    qed (simp add: get_loop.simps socket_recv_def)
  qed
  from this [OF fresh_queue_rep] show ?thesis by (simp add: socket_get_message_def)
qed

section \<open>Closing, selecting and connecting\<close>

declare get_parent.simps [simp del]

lemma parent_self: "m a = Some s \<Longrightarrow> is_parent s \<Longrightarrow> parent_of m a = Inr a"
  by (simp add: parent_of_def get_parent.simps)

lemma parent_child:
  "m c = Some s \<Longrightarrow> \<not> is_parent s \<Longrightarrow> fd_set s = Parent a \<Longrightarrow> m a = Some ps \<Longrightarrow> is_parent ps \<Longrightarrow> 0 < c \<Longrightarrow> parent_of m c = Inr a"
  by (cases c) (simp_all add: parent_of_def get_parent.simps [of _ m])

lemma forget_closed_rep:
  assumes "queue_rep (close_queue ps) xs" and "fd_set ps = Fd_Set fds"
  shows "\<exists>q. forget_closed ps = Inr (ps\<lparr>fd_set := Fd_Set (filter (\<lambda>fd. fd \<notin> set xs) fds), close_queue := q\<rparr>) \<and> queue_rep q []"
proof -
  let ?q = "close_queue ps"
  have "queue_wf ?q" "queue_list ?q = xs" using queue_repI [OF assms(1)] by simp_all
  with linked.drain_contents [of ?q "brk (q_heap ?q)" 0 "[]"] queue_rep_length [OF assms(1)] obtain q' where
    "drain (linked_ops 0) (brk (q_heap ?q)) ?q [] = Inr (xs, q')" "queue_wf q'" "queue_list q' = []" by auto
  moreover then have "queue_rep q' []" using queue_wf_rep by metis
  ultimately show ?thesis using assms(2) by (intro exI [of _ q']) (simp add: forget_closed_def)
qed

lemma socket_connect_fd [simp]: "socket_connect r (soc\<lparr>socket_descriptor := d\<rparr>) = socket_connect r soc"
  by (simp add: socket_connect_def)

lemma connect_loop_bounded:
  assumes "n < RETRIES_THRESHOLD" and "RETRIES_THRESHOLD - n \<le> length rs"
  shows "\<exists>ret k soc'. connect_loop n rs soc = Some (ret, n + Suc k, soc') \<and> n + Suc k \<le> RETRIES_THRESHOLD \<and> k < length rs
     \<and> ret = socket_connect (fst (rs ! k)) soc \<and> (\<forall>j < k. socket_connect (fst (rs ! j)) soc \<noteq> 0)
     \<and> (ret = 0 \<or> n + Suc k = RETRIES_THRESHOLD \<or> snd (rs ! k) = - 1)"
  using assms
proof (induction rs arbitrary: n soc)
  case (Cons x rs)
  obtain r fd where x: "x = (r, fd)" by (cases x)
  show ?case
  proof (cases "socket_connect r soc \<noteq> 0 \<and> fd \<noteq> - 1 \<and> Suc n < RETRIES_THRESHOLD")
    case True
    moreover have "RETRIES_THRESHOLD - Suc n \<le> length rs" using Cons.prems(2) by simp
    ultimately obtain ret k soc' where
      "connect_loop (Suc n) rs (soc\<lparr>socket_descriptor := fd\<rparr>) = Some (ret, Suc n + Suc k, soc')" "Suc n + Suc k \<le> RETRIES_THRESHOLD"
      "k < length rs" "ret = socket_connect (fst (rs ! k)) soc" "\<forall>j < k. socket_connect (fst (rs ! j)) soc \<noteq> 0"
      "ret = 0 \<or> Suc n + Suc k = RETRIES_THRESHOLD \<or> snd (rs ! k) = - 1"
      using Cons.IH [of "Suc n" "soc\<lparr>socket_descriptor := fd\<rparr>"] by auto
    then show ?thesis using True x by (intro exI [of _ ret] exI [of _ "Suc k"] exI [of _ soc']) (auto simp: less_Suc_eq_0_disj)
  next
    case False
    then show ?thesis using Cons.prems x by (intro exI [of _ "socket_connect r soc"] exI [of _ 0]) (auto simp: Let_def)
  qed
qed simp

text \<open>
  The descriptor of a connection is watched from its acceptance until it is closed and no
  longer: after accepting a connection, destroying its socket and selecting once more, the
  listening socket watches what it did before, its queue of closed descriptors is empty, and the
  child's memory is gone. The selection reports success although \<^verbatim>\<open>select\<close> only timed out.
\<close>

theorem socket_accept_destroy_select:
  assumes "m a = Some s" and "is_parent s" and "\<not> is_closed s" and "fd_set s = Fd_Set fds" and "socket_descriptor s \<in> set fds"
    and "queue_rep (close_queue s) []" and "0 \<le> fd" and "fd \<notin> set fds" and "a < new"
  shows "\<exists>m1 m2 m3 s3. socket_accept new fd a m = Inr (Some new, m1) \<and> socket_destructor new m1 = Inr m2
     \<and> socket_select [0] a m2 = Inr (Some True, m3) \<and> m3 new = None
     \<and> m3 a = Some s3 \<and> fd_set s3 = Fd_Set fds \<and> queue_rep (close_queue s3) []"
proof -
  let ?s1 = "s\<lparr>fd_set := Fd_Set (fd # fds)\<rparr>" and ?c1 = "s\<lparr>socket_descriptor := fd, is_parent := False, fd_set := Parent a\<rparr>"
  let ?m1 = "m(a \<mapsto> ?s1, new \<mapsto> ?c1)"
  have accept: "socket_accept new fd a m = Inr (Some new, ?m1)"
    using assms parent_self [of m a s] by (simp add: socket_accept_def List.insert_def)
  obtain q where q: "queue_push (close_queue s) fd = Inr q" "queue_rep q [fd]" using queue_push_rep [OF assms(6)] by auto
  let ?s2 = "?s1\<lparr>close_queue := q\<rparr>"
  let ?m2 = "?m1(a \<mapsto> ?s2)"
  have "parent_of ?m1 new = Inr a" using assms(2,9) parent_child [of ?m1 new ?c1 a ?s1] by simp
  then have "socket_close new ?m1 = Inr (?m2(new \<mapsto> ?c1\<lparr>is_closed := True\<rparr>))"
    using assms(3,9) q(1) by (simp add: socket_close_def Let_def)
  then have destroy: "socket_destructor new ?m1 = Inr (?m2(new := None))" by (simp add: socket_destructor_def)
  obtain q' where q': "forget_closed ?s2 = Inr (?s2\<lparr>fd_set := Fd_Set (filter (\<lambda>x. x \<notin> set [fd]) (fd # fds)), close_queue := q'\<rparr>)"
    "queue_rep q' []" using forget_closed_rep [of ?s2 "[fd]" "fd # fds"] q(2) by auto
  have "filter (\<lambda>x. x \<notin> set [fd]) (fd # fds) = fds" using assms(8) by (auto intro: filter_True)
  with q'(1) have f: "forget_closed ?s2 = Inr (?s2\<lparr>fd_set := Fd_Set fds, close_queue := q'\<rparr>)" by simp
  let ?m3 = "?m2(new := None, a \<mapsto> ?s2\<lparr>fd_set := Fd_Set fds, close_queue := q'\<rparr>)"
  have "(?m2(new := None)) a = Some ?s2" "is_parent ?s2" using assms(2,9) by auto
  with parent_self [of "?m2(new := None)" a ?s2] f assms(3,5)
  have "socket_select [0] a (?m2(new := None)) = Inr (Some True, ?m3)" by (simp add: socket_select_def)
  with accept destroy q'(2) assms(9) show ?thesis by (intro exI [of _ ?m1] exI [of _ "?m2(new := None)"] exI [of _ ?m3]) auto
qed

theorem socket_accept_destroy_select_witness:
  "\<exists>m1 m2 m3 s3. socket_accept 1 4 0 [0 \<mapsto> listening] = Inr (Some 1, m1) \<and> socket_destructor 1 m1 = Inr m2
     \<and> socket_select [0] 0 m2 = Inr (Some True, m3) \<and> m3 1 = None
     \<and> m3 0 = Some s3 \<and> fd_set s3 = Fd_Set [3] \<and> queue_rep (close_queue s3) []"
  by (rule socket_accept_destroy_select [where s = listening]) (simp_all add: listening_def fresh_queue_rep)

text \<open>
  \<^verbatim>\<open>socket_connect_retry\<close> gives up after at most ten attempts: it returns, with success exactly
  when its last attempt succeeded, every earlier attempt having failed, and it stops early without
  success only when no new descriptor could be had.
\<close>

theorem socket_connect_retry_bounded:
  assumes "10 \<le> length rs"
  shows "\<exists>ret k soc'. socket_connect_retry rs soc = Some (ret, Suc k, soc') \<and> Suc k \<le> 10
     \<and> ret = socket_connect (fst (rs ! k)) soc \<and> (\<forall>j < k. socket_connect (fst (rs ! j)) soc \<noteq> 0)
     \<and> (ret = 0 \<or> Suc k = 10 \<or> snd (rs ! k) = - 1)"
  using connect_loop_bounded [of 0 rs soc] assms by (auto simp: socket_connect_retry_def RETRIES_THRESHOLD_def)

theorem socket_connect_retry_bounded_witness:
  "\<exists>ret k soc'. socket_connect_retry (replicate 10 ((- 1, 111), 5)) listening = Some (ret, Suc k, soc') \<and> Suc k \<le> 10"
  using socket_connect_retry_bounded [of "replicate 10 ((- 1, 111), 5)" listening] by auto

end
