(* ===== verification/Participant.thy ===== *)
theory Participant imports Enclave Socket
begin

text \<open>
  The \<^verbatim>\<open>main\<close> program of the participant, \<^verbatim>\<open>poet_client.cpp\<close>: start-up with its sockets and enclave,
  registration, and the loop that announces a drawn time, waits until another thread asks to join
  again, and connects anew after repeated failures. What other threads, the server and the user do
  is part of the input of a round.
\<close>

section \<open>Start-up\<close>

text \<open>The global variables before \<^verbatim>\<open>main\<close> runs, except for those of the enclave and the sockets.\<close>

definition fresh_client :: client where
  "fresh_client = \<lparr>c_sgxt = 0, c_sgxmax = 0, c_ntiers = 0, c_lowerbound = 0, c_node_id = 0, c_starting_time = 0,
     c_current_time = 0, c_table = [], c_queue = fresh_queue True, c_locked = False, c_rejoin = 0\<rparr>"

text \<open>The results of the two calls of \<^verbatim>\<open>socket_constructor\<close> and of the start of the enclave.\<close>

definition global_variable_initialization ::
    "socket_t option \<Rightarrow> socket_t option \<Rightarrow> 'eid launch res \<Rightarrow> (socket_t \<times> socket_t \<times> 'eid option \<times> client) res" where
  "global_variable_initialization node_socket subscribe_socket enclave = (case (node_socket, subscribe_socket) of
       (Some s1, Some s2) \<Rightarrow>
         rbind enclave (\<lambda>l. rbind (assertc (l_ret l \<ge> 0)) (\<lambda>_. Inr (s1, s2, l_eid l, fresh_client)))
     | _ \<Rightarrow> Inl Assertion_Failed)"

section \<open>The loop\<close>

text \<open>
  The loop around \<^verbatim>\<open>pthread_cond_timedwait\<close>: the values of \<^verbatim>\<open>rejoin_state\<close> at its tests. It ends with the
  first that differs from the one read before the announcement; \<open>None\<close> is a wait without end.
\<close>

fun rejoin_wait :: "uint \<Rightarrow> uint list \<Rightarrow> uint option" where
  "rejoin_wait initial_state [] = None"
| "rejoin_wait initial_state (v # vs) = (if v = initial_state then rejoin_wait initial_state vs else Some v)"

text \<open>
  The input of a round: the enclave's number, whether the announcement was sent and its reply, the
  values of \<^verbatim>\<open>rejoin_state\<close>, whether a signal arrives before the end of the wait or of the announcement,
  and the outcome of connecting again.
\<close>

record round =
  r_random :: "uint option"
  r_sent :: bool
  r_reply :: reply
  r_rejoins :: "uint list"
  r_signal :: bool
  r_tries :: "(bool \<times> bool) list"
  r_secondary :: reply

record main_state =
  m_client :: client
  m_terminate :: bool
  m_retries :: nat

text \<open>After a failure: the assignment to \<^verbatim>\<open>should_terminate\<close> replaces what the signal handler stored.\<close>

definition reconnect :: "round \<Rightarrow> main_state \<Rightarrow> main_state res option" where
  "reconnect r m =
     (if m_retries m > 10
      then map_option (\<lambda>res. rbind res (\<lambda>connected.
             let should_terminate = \<not> (connected \<and> snd (setup_secondary_socket (r_secondary r) (m_client m))) in
             Inr (m\<lparr>m_terminate := should_terminate, m_retries := (if \<not> should_terminate then 0 else m_retries m) + 1\<rparr>)))
           (connect_to_server True False (r_tries r))
      else Some (Inr (m\<lparr>m_retries := m_retries m + 1\<rparr>)))"

definition main_round :: "'l json_lib \<Rightarrow> round \<Rightarrow> main_state \<Rightarrow> main_state res option" where
  "main_round lib r m =
     (let initial_state = c_rejoin (m_client m) in
      case poet_broadcast_sgxtime lib (r_random r) (r_sent r) (r_reply r) (m_client m) of
        Inl f \<Rightarrow> Some (Inl f)
      | Inr (_, state, c) \<Rightarrow>
          let m1 = m\<lparr>m_client := c, m_terminate := m_terminate m \<or> r_signal r\<rparr> in
          if state
          then map_option (\<lambda>v. Inr (m1\<lparr>m_client := c\<lparr>c_rejoin := v\<rparr>\<rparr>)) (rejoin_wait initial_state (r_rejoins r))
          else reconnect r m1)"

text \<open>The loop of \<^verbatim>\<open>main\<close> with the number of its rounds; \<open>None\<close> is a loop that goes on beyond the given rounds.\<close>

fun main_loop :: "'l json_lib \<Rightarrow> round list \<Rightarrow> nat \<Rightarrow> main_state \<Rightarrow> (nat \<times> main_state) res option" where
  "main_loop lib rs n m =
     (if m_terminate m then Some (Inr (n, m))
      else case rs of
        [] \<Rightarrow> None
      | r # rs' \<Rightarrow> (case main_round lib r m of
            None \<Rightarrow> None
          | Some (Inl f) \<Rightarrow> Some (Inl f)
          | Some (Inr m') \<Rightarrow> main_loop lib rs' (Suc n) m'))"

text \<open>
  \<^verbatim>\<open>main\<close> up to its loop: \<open>tries\<close> are the attempts to connect, the replies those to the registration,
  the attestation and the message on the secondary socket.
\<close>

definition participant_start ::
    "'l json_lib \<Rightarrow> (nat \<Rightarrow> nat) \<Rightarrow> socket_t option \<Rightarrow> socket_t option \<Rightarrow> 'eid launch res \<Rightarrow> (bool \<times> bool) list
      \<Rightarrow> reply \<Rightarrow> reply \<Rightarrow> reply \<Rightarrow> main_state res option" where
  "participant_start lib rnd s1 s2 enclave tries reply1 reply2 reply3 =
     (case global_variable_initialization s1 s2 enclave of
        Inl f \<Rightarrow> Some (Inl f)
      | Inr (_, _, _, c) \<Rightarrow>
          map_option (\<lambda>res. rbind res (\<lambda>connected.
            rbind (poet_register_to_server lib rnd reply1 reply2 c) (\<lambda>(ok, c').
            rbind (assertc ok) (\<lambda>_.
            rbind (assertc (snd (setup_secondary_socket reply3 c'))) (\<lambda>_.
            Inr \<lparr>m_client = c', m_terminate = False, m_retries = 0\<rparr>)))))
            (connect_to_server True True tries))"

text \<open>The object of the main socket at the end is \<open>soc\<close>: \<^verbatim>\<open>main\<close> closes it and the exit handler releases it.\<close>

definition global_variable_destructors :: "sockets \<Rightarrow> sockets res" where
  "global_variable_destructors m = socket_destructor 0 m"

definition participant_main ::
    "'l json_lib \<Rightarrow> (nat \<Rightarrow> nat) \<Rightarrow> socket_t option \<Rightarrow> socket_t option \<Rightarrow> 'eid launch res \<Rightarrow> (bool \<times> bool) list
      \<Rightarrow> reply \<Rightarrow> reply \<Rightarrow> reply \<Rightarrow> round list \<Rightarrow> socket_t \<Rightarrow> (nat \<times> main_state \<times> sockets) res option" where
  "participant_main lib rnd s1 s2 enclave tries reply1 reply2 reply3 rs soc =
     (case participant_start lib rnd s1 s2 enclave tries reply1 reply2 reply3 of
        None \<Rightarrow> None
      | Some (Inl f) \<Rightarrow> Some (Inl f)
      | Some (Inr m) \<Rightarrow>
          map_option (\<lambda>res. rbind res (\<lambda>(n, m').
            rbind (socket_close 0 [0 \<mapsto> soc]) (\<lambda>socks. rbind (global_variable_destructors socks) (\<lambda>socks'. Inr (n, m', socks')))))
            (main_loop lib rs 0 m))"

section \<open>Specification\<close>

text \<open>The announcement of a round fails, and so does connecting again.\<close>

definition fails :: "round \<Rightarrow> bool" where
  "fails r \<longleftrightarrow> \<not> r_sent r \<and> r_random r \<noteq> None"

definition cut_off :: "round \<Rightarrow> bool" where
  "cut_off r \<longleftrightarrow> r_tries r \<noteq> [] \<and> \<not> (fst (hd (r_tries r)) \<and> snd (hd (r_tries r)))"

definition draws :: "client \<Rightarrow> bool" where
  "draws c \<longleftrightarrow> c_sgxmax c - c_lowerbound c + 1 \<noteq> 0"

definition failing_round :: round where
  "failing_round = \<lparr>r_random = Some 4, r_sent = False, r_reply = Lost, r_rejoins = [], r_signal = False, r_tries = [(False, True)], r_secondary = Lost\<rparr>"

section \<open>Waiting and connecting\<close>

lemma rejoin_wait_iff: "(\<exists>v. rejoin_wait s vs = Some v) \<longleftrightarrow> (\<exists>v \<in> set vs. v \<noteq> s)"
  by (induction vs) auto

lemma rejoin_wait_differs: "rejoin_wait s vs = Some v \<Longrightarrow> v \<noteq> s \<and> v \<in> set vs"
  by (induction vs) (auto split: if_splits)

text \<open>The first connection is tried until both sockets have succeeded once; later ones are tried once.\<close>

lemma connect_rounds_first:
  assumes "c1 \<or> (\<exists>t \<in> set tries. fst t)" and "c2 \<or> (\<exists>t \<in> set tries. snd t)" and "tries \<noteq> []"
  shows "connect_rounds True c1 c2 tries = Some True"
  using assms
proof (induction tries arbitrary: c1 c2)
  case (Cons t tries)
  obtain r1 r2 where t: "t = (r1, r2)" by (cases t)
  show ?case
  proof (cases "(c1 \<or> r1) \<and> (c2 \<or> r2)")
    case False
    then have "tries \<noteq> []" using Cons.prems t by auto
    moreover have "(c1 \<or> r1) \<or> (\<exists>t \<in> set tries. fst t)" "(c2 \<or> r2) \<or> (\<exists>t \<in> set tries. snd t)" using Cons.prems(1,2) t by simp_all
    ultimately have "connect_rounds True (c1 \<or> r1) (c2 \<or> r2) tries = Some True" by (intro Cons.IH)
    with False t show ?thesis by (simp add: Let_def)
  qed (simp add: t Let_def)
qed simp

lemma connect_again: "connect_to_server True False (t # ts) = Some (Inr (fst t \<and> snd t))"
  by (cases t) (simp add: connect_to_server_def Let_def)

lemma failed_broadcast:
  assumes "fails r" and "draws c"
  shows "\<exists>m t. poet_broadcast_sgxtime lib (r_random r) (r_sent r) (r_reply r) c = Inr (m, False, c\<lparr>c_sgxt := t\<rparr>)"
  using assms by (auto simp: fails_def draws_def poet_broadcast_sgxtime_def generate_random_sgx_time_def Let_def split: reply.split)

lemma failed_round:
  assumes "fails r" and "draws (m_client m)"
  shows "\<exists>t. main_round lib r m = reconnect r (m\<lparr>m_client := (m_client m)\<lparr>c_sgxt := t\<rparr>, m_terminate := m_terminate m \<or> r_signal r\<rparr>)"
  using failed_broadcast [OF assms, of lib] by (auto simp: main_round_def Let_def)

text \<open>Failures up to the eleventh are only counted.\<close>

lemma counting:
  assumes "list_all (\<lambda>r. fails r \<and> \<not> r_signal r) rs" and "m_retries m + length rs \<le> 11" and "\<not> m_terminate m" and "draws (m_client m)"
  shows "\<exists>m'. main_loop lib (rs @ rest) n m = main_loop lib rest (n + length rs) m' \<and> m_retries m' = m_retries m + length rs
    \<and> \<not> m_terminate m' \<and> draws (m_client m') \<and> c_rejoin (m_client m') = c_rejoin (m_client m)"
  using assms
proof (induction rs arbitrary: m n)
  case (Cons r rs)
  then obtain t where "main_round lib r m = reconnect r (m\<lparr>m_client := (m_client m)\<lparr>c_sgxt := t\<rparr>, m_terminate := m_terminate m \<or> r_signal r\<rparr>)"
    using failed_round [of r m lib] by auto
  moreover have "\<not> m_retries m > 10" using Cons.prems(2) by simp
  ultimately have run: "main_round lib r m = Some (Inr (m\<lparr>m_client := (m_client m)\<lparr>c_sgxt := t\<rparr>, m_terminate := m_terminate m \<or> r_signal r, m_retries := m_retries m + 1\<rparr>))"
    by (simp add: reconnect_def)
  let ?m = "m\<lparr>m_client := (m_client m)\<lparr>c_sgxt := t\<rparr>, m_terminate := m_terminate m \<or> r_signal r, m_retries := m_retries m + 1\<rparr>"
  from Cons.IH [of ?m "Suc n"] Cons.prems run show ?case by (auto simp: draws_def)
qed auto

lemma reconnect_fails:
  assumes "m_retries m > 10" and "cut_off r"
  shows "reconnect r m = Some (Inr (m\<lparr>m_terminate := True, m_retries := m_retries m + 1\<rparr>))"
  using assms by (cases "r_tries r") (auto simp: reconnect_def cut_off_def connect_again Let_def)

text \<open>Closing and releasing the main socket, whether it was closed before or not.\<close>

lemma main_socket_released:
  assumes "is_parent soc" and "queue_rep (close_queue soc) xs"
  shows "\<exists>socks socks'. socket_close 0 [0 \<mapsto> soc] = Inr socks \<and> global_variable_destructors socks = Inr socks' \<and> socks' 0 = None"
proof (cases "is_closed soc")
  case True
  then show ?thesis using assms queue_rep_destructor [OF assms(2), of 0 False]
    by (auto simp: socket_close_def global_variable_destructors_def socket_destructor_def)
next
  case False
  obtain q where q: "queue_push (close_queue soc) (socket_descriptor soc) = Inr q" "queue_rep q (xs @ [socket_descriptor soc])"
    using queue_push_rep [OF assms(2)] by blast
  moreover have "parent_of [0 \<mapsto> soc] 0 = Inr 0" using assms(1) by (intro parent_self) auto
  ultimately show ?thesis using False assms(1) queue_rep_destructor [OF q(2), of 0 False]
    by (auto simp: socket_close_def global_variable_destructors_def socket_destructor_def Let_def)
qed

lemma loop_gives_up:
  assumes "list_all (\<lambda>r. fails r \<and> \<not> r_signal r) (rs @ [r])" and "length rs = 11" and "cut_off r"
    and "\<not> m_terminate m" and "m_retries m = 0" and "draws (m_client m)"
  shows "\<exists>m'. main_loop lib (rs @ r # rest) 0 m = Some (Inr (12, m')) \<and> m_terminate m' \<and> c_rejoin (m_client m') = c_rejoin (m_client m)"
proof -
  obtain m1 where m1: "main_loop lib (rs @ r # rest) 0 m = main_loop lib (r # rest) 11 m1" "m_retries m1 = 11" "\<not> m_terminate m1"
    "draws (m_client m1)" "c_rejoin (m_client m1) = c_rejoin (m_client m)"
    using counting [of rs m lib "r # rest" 0] assms by auto
  obtain t where "main_round lib r m1 = reconnect r (m1\<lparr>m_client := (m_client m1)\<lparr>c_sgxt := t\<rparr>, m_terminate := m_terminate m1 \<or> r_signal r\<rparr>)"
    using failed_round [of r m1 lib] assms(1) m1(4) by auto
  with m1 reconnect_fails [OF _ assms(3)] show ?thesis by (simp add: eval_nat_numeral)
qed

section \<open>Properties\<close>

text \<open>
  After a successful announcement the participant waits exactly until another thread has changed
  \<^verbatim>\<open>rejoin_state\<close>, also when that happens before the wait begins, and then goes into its next round.
\<close>

theorem rejoin_not_missed:
  assumes "poet_broadcast_sgxtime lib (r_random r) (r_sent r) (r_reply r) (m_client m) = Inr (req, True, c)"
  shows "case main_round lib r m of
       None \<Rightarrow> \<forall>v \<in> set (r_rejoins r). v = c_rejoin (m_client m)
     | Some res \<Rightarrow> \<exists>m'. res = Inr m' \<and> m_retries m' = m_retries m \<and> m_terminate m' = (m_terminate m \<or> r_signal r)
         \<and> c_rejoin (m_client m') \<in> set (r_rejoins r) \<and> c_rejoin (m_client m') \<noteq> c_rejoin (m_client m)"
proof -
  have "main_round lib r m = map_option (\<lambda>v. Inr (m\<lparr>m_terminate := m_terminate m \<or> r_signal r, m_client := c\<lparr>c_rejoin := v\<rparr>\<rparr>))
      (rejoin_wait (c_rejoin (m_client m)) (r_rejoins r))"
    using assms by (simp add: main_round_def Let_def)
  then show ?thesis
    using rejoin_wait_iff [of "c_rejoin (m_client m)" "r_rejoins r"] rejoin_wait_differs [of "c_rejoin (m_client m)" "r_rejoins r"]
    by (cases "rejoin_wait (c_rejoin (m_client m)) (r_rejoins r)") auto
qed

theorem rejoin_not_missed_witness:
  "\<exists>m'. main_round (stub_lib ''m'' (JObject [(''status'', JString ''success'')]))
       \<lparr>r_random = Some 4, r_sent = True, r_reply = Reply ''m'', r_rejoins = [0, 0, 1], r_signal = False, r_tries = [], r_secondary = Lost\<rparr>
       \<lparr>m_client = sample_client test_queue [], m_terminate = False, m_retries = 3\<rparr> = Some (Inr m')
     \<and> m_retries m' = 3 \<and> c_rejoin (m_client m') = 1"
proof -
  let ?lib = "stub_lib ''m'' (JObject [(''status'', JString ''success'')])" and ?c = "sample_client test_queue []"
  let ?r = "\<lparr>r_random = Some 4, r_sent = True, r_reply = Reply ''m'', r_rejoins = [0, 0, 1], r_signal = False, r_tries = [], r_secondary = Lost\<rparr>"
  let ?m = "\<lparr>m_client = ?c, m_terminate = False, m_retries = 3\<rparr>"
  have "poet_broadcast_sgxtime ?lib (r_random ?r) (r_sent ?r) (r_reply ?r) (m_client ?m) = Inr (broadcast_request 5, True, ?c\<lparr>c_sgxt := 5\<rparr>)"
    by (simp add: poet_broadcast_sgxtime_def generate_random_sgx_time_def sample_client_def stub_compliance find_value_bfs entries_def status_ok_def streq_def cstr_def)
  from rejoin_not_missed [OF this] show ?thesis
    by (cases "main_round ?lib ?r ?m") (auto simp: sample_client_def)
qed

text \<open>
  A signal that arrives while a participant loses and regains its server is lost: \<^verbatim>\<open>main\<close> overwrites
  the flag of the signal handler with the outcome of connecting again.
\<close>

theorem signal_lost:
  assumes "fails r" and "draws (m_client m)" and "m_retries m > 10" and "r_tries r = (True, True) # ts" and "r_secondary r = Reply b"
  shows "\<exists>m'. main_round lib (r\<lparr>r_signal := True\<rparr>) m = Some (Inr m') \<and> \<not> m_terminate m' \<and> m_retries m' = 1"
proof -
  have "fails (r\<lparr>r_signal := True\<rparr>)" using assms(1) by (simp add: fails_def)
  from failed_round [OF this assms(2), of lib] assms(3-5) show ?thesis
    by (auto simp: reconnect_def connect_again setup_secondary_socket_def Let_def)
qed

theorem signal_lost_witness:
  "\<exists>m'. main_round (stub_lib [] JNull) (failing_round\<lparr>r_tries := [(True, True)], r_secondary := Reply ''ok'', r_signal := True\<rparr>)
     \<lparr>m_client = sample_client test_queue [], m_terminate = False, m_retries = 11\<rparr> = Some (Inr m') \<and> \<not> m_terminate m'"
  using signal_lost [of "failing_round\<lparr>r_tries := [(True, True)], r_secondary := Reply ''ok''\<rparr>"
      "\<lparr>m_client = sample_client test_queue [], m_terminate = False, m_retries = 11\<rparr>" "[]" "''ok''" "stub_lib [] JNull"]
  by (auto simp: fails_def draws_def failing_round_def sample_client_def)

end
