(* ===== verification/Channel.thy ===== *)
theory Channel imports Participant
begin

text \<open>
  The interface between the programs and their sockets: a channel delivers the texts that fit it.
  What client and server rely on is proved over the interface; the sockets of \<^verbatim>\<open>socket_t.c\<close> provide
  it for every text without control characters that fits a receive buffer.
\<close>

section \<open>Sockets as a channel\<close>

definition bytes_of_text :: "string \<Rightarrow> uchar list" where
  "bytes_of_text s = map (\<lambda>c. of_nat (of_char c)) s"

text \<open>What a caller of \<^verbatim>\<open>socket_get_message\<close> sees; \<open>None\<close> is a call that does not return.\<close>

definition seen :: "(message res \<times> recv_result list) option \<Rightarrow> reply option" where
  "seen r = (case r of
       Some (Inr m, _) \<Rightarrow>
         Some (if msg_ret m < 0 then Not_Open
               else case msg_buffer m of Some bs \<Rightarrow> Reply (text_of (take (msg_len m) bs)) | None \<Rightarrow> Lost)
     | _ \<Rightarrow> None)"

text \<open>A text sent by one side, with the answers of \<^verbatim>\<open>send\<close>, that arrives in one piece at the other.\<close>

definition over_socket :: "send_result list \<Rightarrow> string \<Rightarrow> reply option" where
  "over_socket rs text = (case socket_send_message False (bytes_of_text text) rs of
       Some (Inr (_, _, wire), _) \<Rightarrow> seen (socket_get_message True False [Data wire])
     | _ \<Rightarrow> None)"

section \<open>Specification\<close>

definition plain :: "string \<Rightarrow> bool" where
  "plain s \<longleftrightarrow> list_all (\<lambda>c. 32 \<le> (of_char c :: nat)) s"

definition fits_socket :: "send_result list \<Rightarrow> string \<Rightarrow> bool" where
  "fits_socket rs text \<longleftrightarrow> text \<noteq> [] \<and> plain text \<and> length text + 2 \<le> BUFFER_SIZE \<and> length text < length rs
     \<and> list_all (\<lambda>(v, e). 2 \<le> v) rs"

text \<open>A parser for the examples, which reads the two answers of a server to a starting participant.\<close>

definition sample_lib :: "unit json_lib" where
  "sample_lib = (stub_lib [] JNull)\<lparr>json_parse := (\<lambda>s. if s = success_msg then Some (JObject [(''status'', JString ''success'')])
     else Some (reply_doc (one_node test_queue) (test_node 3 5)))\<rparr>"

section \<open>The interface\<close>

locale channel =
  fixes deliver :: "string \<Rightarrow> reply option" and fit :: "string \<Rightarrow> bool"
  assumes delivers: "fit m \<Longrightarrow> deliver m = Some (Reply m)"
begin

lemma registration:
  assumes "fit (register_reply g nd)" and "0 \<le> server_starting_time g" and "server_starting_time g < 2 ^ 63"
    and "check_json_compliance lib (register_reply g nd)" and "json_parse lib (register_reply g nd) = Some (reply_doc g nd)"
  shows "\<exists>r. deliver (register_reply g nd) = Some r \<and> registration_reply lib r c =
    Inr (True, c\<lparr>c_sgxmax := ucast (sgxmax g), c_lowerbound := ucast (sgxt_lowerbound g), c_node_id := node_id nd,
      c_ntiers := n_tiers g, c_starting_time := server_starting_time g\<rparr>)"
  using delivers [OF assms(1)] registration_run [OF assms(2-5)] by auto

lemma notification:
  assumes "fit (notification_text xs (sgx_table g))" and "registry_ok g xs" and "check_json_compliance lib (notification_text xs (sgx_table g))"
    and "json_parse lib (notification_text xs (sgx_table g)) = Some (notification_doc xs (sgx_table g))"
    and "\<And>i. u_integer lib (JInteger i) = i" and "\<not> c_locked c" and "queue_wf (c_queue c)"
  shows "\<exists>buffer g' r q'. notification_message g = Inr (buffer, g') \<and> deliver buffer = Some r
     \<and> notifications_sentinel lib now r c = Inr (True, c\<lparr>c_queue := q', c_table := sgx_table g, c_current_time := now - c_starting_time c\<rparr>)
     \<and> queue_rep q' xs"
proof -
  have "list_all (\<lambda>nd. time_left nd \<le> sgx_time nd) (sgx_table g)" "list_all (\<lambda>x. unat x < 2 ^ 32) xs"
    using assms(2) registry_lists by blast+
  with update_run [OF assms(5,4,3,6,7)] notification_message_run [OF assms(2)] delivers [OF assms(1)] show ?thesis
    by (fastforce simp: notifications_sentinel_def)
qed

end

section \<open>Texts without control characters\<close>

lemma plain_simps [simp]: "plain []" "plain (c # s) \<longleftrightarrow> 32 \<le> (of_char c :: nat) \<and> plain s" "plain (s @ t) \<longleftrightarrow> plain s \<and> plain t"
  by (simp_all add: plain_def)

lemma decimal_plain [simp]: "plain (decimal n)"
proof (induction n rule: decimal.induct)
  case (1 n)
  have "(of_char (char_of (48 + m) :: char) :: nat) = 48 + m" if "m < 10" for m :: nat using that by (simp add: of_char_of)
  then show ?case using 1 by (subst decimal.simps) simp
qed

lemma decimal_length: "n < 10 ^ k \<Longrightarrow> 0 < k \<Longrightarrow> length (decimal n) \<le> k"
proof (induction k arbitrary: n)
  case (Suc k)
  show ?case
  proof (cases "n < 10")
    case True
    then show ?thesis by (subst decimal.simps) simp
  next
    case False
    then have "0 < k" "n div 10 < 10 ^ k" using Suc.prems by (cases k; auto)+
    then have "length (decimal (n div 10)) \<le> k" by (rule Suc.IH [rotated])
    then show ?thesis using False by (subst decimal.simps) simp
  qed
qed simp

lemma text_bytes [simp]: "text_of (bytes_of_text s) = s" "length (bytes_of_text s) = length s"
proof -
  have "char_of (unat (of_nat (of_char c) :: uchar)) = c" for c
    by (simp add: unat_of_nat take_bit_nat_eq_self)
  then show "text_of (bytes_of_text s) = s" by (simp add: text_of_def bytes_of_text_def comp_def)
qed (simp add: bytes_of_text_def)

lemma strstr_no_cr: "13 \<notin> set bs \<Longrightarrow> 0 \<notin> set bs \<Longrightarrow> strstr_crlf (bs @ [0]) = Inr None"
  by (induction bs rule: strstr_crlf.induct) auto

lemma plain_clean:
  assumes "plain s"
  shows "clean (bytes_of_text s)"
proof -
  have "unat (of_nat (of_char c) :: uchar) = of_char c" for c by (simp add: unat_of_nat)
  then have "unat b \<noteq> 0 \<and> unat b \<noteq> 13" if "b \<in> set (bytes_of_text s)" for b
    using that assms by (auto simp: bytes_of_text_def plain_def list_all_iff)
  then have "0 \<notin> set (bytes_of_text s)" "13 \<notin> set (bytes_of_text s)" by fastforce+
  then show ?thesis by (simp add: clean_def strstr_no_cr)
qed

interpretation sock: channel "over_socket rs" "fits_socket rs"
proof
  fix m assume fit: "fits_socket rs m"
  then have "bytes_of_text m \<noteq> []" "clean (bytes_of_text m)" "length (bytes_of_text m) + 2 \<le> BUFFER_SIZE"
    "list_all (\<lambda>(v, e). 2 \<le> v) rs" "length (bytes_of_text m) < length rs"
    by (auto simp: fits_socket_def plain_clean) (simp add: bytes_of_text_def)
  from message_run [OF this] obtain wire rs' bs where
    "socket_send_message False (bytes_of_text m) rs = Some (Inr (int (length m), False, wire), rs')"
    "socket_get_message True False [Data wire] = Some (Inr \<lparr>msg_ret = int (length m), msg_buffer = Some bs, msg_len = length m\<rparr>, [])"
    "take (length m) bs = bytes_of_text m" by auto
  then show "over_socket rs m = Some (Reply m)" by (simp add: over_socket_def seen_def)
qed

section \<open>Lengths\<close>

lemma decimal_uint: "length (decimal (unat (n :: uint))) \<le> 10"
  using unsigned_less [of n, where ?'a = nat] by (intro decimal_length) simp_all

lemma decimal_size_t: "length (decimal (unat (n :: size_t))) \<le> 20"
  using unsigned_less [of n, where ?'a = nat] by (intro decimal_length) simp_all

lemma register_reply_fits:
  assumes "list_all (\<lambda>(v, e). 2 \<le> v) rs" and "1022 < length rs"
  shows "fits_socket rs (register_reply g nd)"
proof -
  have "length (register_reply g nd) \<le> 200"
    using decimal_size_t [of "sgxmax g"] decimal_size_t [of "sgxt_lowerbound g"] decimal_uint [of "node_id nd"] decimal_uint [of "n_tiers g"]
      decimal_size_t [of "of_int (server_starting_time g)"]
    by (simp add: register_reply_def del: decimal.simps)
  moreover have "plain (register_reply g nd)" by (simp add: register_reply_def del: decimal.simps)
  moreover have "register_reply g nd \<noteq> []" by (simp add: register_reply_def)
  ultimately show ?thesis using assms by (simp add: fits_socket_def BUFFER_SIZE_def)
qed

lemma success_fits:
  assumes "list_all (\<lambda>(v, e). 2 \<le> v) rs" and "1022 < length rs"
  shows "fits_socket rs success_msg"
  using assms by (simp add: fits_socket_def success_msg_def BUFFER_SIZE_def)

lemma node_text_size: "length (node_text nd) \<le> 130" "plain (node_text nd)"
  using decimal_uint [of "node_id nd"] decimal_uint [of "sgx_time nd"] decimal_uint [of "arrival_time nd"] decimal_uint [of "time_left nd"]
    decimal_uint [of "n_leadership nd"]
  by (simp_all add: node_text_def del: decimal.simps)

lemma join_size:
  assumes "list_all (\<lambda>s. length s \<le> k \<and> plain s) ss"
  shows "length (join ss) \<le> length ss * (k + 1) \<and> plain (join ss)"
proof (cases ss rule: rev_cases)
  case (snoc ys y)
  have "length (concat (map (\<lambda>s. s @ '','') zs)) \<le> length zs * (k + 1) \<and> plain (concat (map (\<lambda>s. s @ '','') zs))"
    if "list_all (\<lambda>s. length s \<le> k \<and> plain s) zs" for zs
    using that by (induction zs) auto
  from this [of ys] assms snoc show ?thesis by (auto simp: join_def)
qed (simp add: join_def)

lemma notification_plain: "plain (notification_text xs tbl)"
proof -
  have "plain (join (map (\<lambda>x. decimal (unat x)) xs))"
    using join_size [of 20 "map (\<lambda>x. decimal (unat x)) xs"] decimal_size_t by (simp add: list_all_iff del: decimal.simps)
  moreover have "plain (join (map node_text tbl))" using join_size [of 130 "map node_text tbl"] node_text_size by (simp add: list_all_iff)
  ultimately show ?thesis by (simp add: notification_text_def)
qed

lemma notification_fits:
  assumes "list_all (\<lambda>(v, e). 2 \<le> v) rs" and "1022 < length rs" and "length tbl \<le> 6" and "length xs \<le> 6"
  shows "fits_socket rs (notification_text xs tbl)"
proof -
  have "length (join (map (\<lambda>x. decimal (unat x)) xs)) \<le> length xs * 21"
    using join_size [of 20 "map (\<lambda>x. decimal (unat x)) xs"] decimal_size_t by (simp add: list_all_iff del: decimal.simps)
  moreover have "length (join (map node_text tbl)) \<le> length tbl * 131"
    using join_size [of 130 "map node_text tbl"] node_text_size by (simp add: list_all_iff)
  ultimately have "length (notification_text xs tbl) \<le> 980" using assms(3,4) by (simp add: notification_text_def)
  then show ?thesis using assms(1,2) notification_plain [of xs tbl] by (simp add: fits_socket_def BUFFER_SIZE_def notification_text_def)
qed

section \<open>Start-up\<close>

lemma register_with_pk_run:
  assumes "registration_reply lib reply c = Inr (ok, c')"
  shows "\<exists>req. poet_register_with_pk lib rnd reply c = Inr (req, ok, c')"
proof -
  have "\<exists>s. encode_64base True (fill_with_rand rnd 32) = Inr (Some s)"
  proof -
    have "length (fill_with_rand rnd 32) = 32" by (simp add: fill_with_rand_def)
    then obtain ys where "enc_lines (fill_with_rand rnd 32) 0 = ys @ [newline]" using enc_lines_snoc [of "fill_with_rand rnd 32" 0] by fastforce
    then show ?thesis using encode_eq [of "fill_with_rand rnd 32"] \<open>length (fill_with_rand rnd 32) = 32\<close> by (simp add: encode_64base_def)
  qed
  with assms show ?thesis by (auto simp: poet_register_with_pk_def Let_def)
qed

lemma attestation_run:
  assumes "check_json_compliance lib success_msg" and "json_parse lib success_msg = Some (JObject [(''status'', JString ''success'')])"
  shows "\<exists>req. poet_remote_attestation_to_server lib (Reply success_msg) = Inr (req, True)"
  using assms by (simp add: poet_remote_attestation_to_server_def find_value_bfs entries_def status_ok_def streq_def cstr_def)

lemma participant_start_run:
  fixes g :: "'sock global" and lib :: "'l json_lib" and l :: "'eid launch"
  assumes "0 \<le> l_ret l" and "\<exists>t \<in> set tries. fst t" and "\<exists>t \<in> set tries. snd t"
    and "list_all (\<lambda>(v, e). 2 \<le> v) rs" and "1022 < length rs"
    and "0 \<le> server_starting_time g" and "server_starting_time g < 2 ^ 63"
    and "check_json_compliance lib (register_reply g nd)" and "json_parse lib (register_reply g nd) = Some (reply_doc g nd)"
    and "check_json_compliance lib success_msg" and "json_parse lib success_msg = Some (JObject [(''status'', JString ''success'')])"
  shows "\<exists>r1 r2. over_socket rs (register_reply g nd) = Some r1 \<and> over_socket rs success_msg = Some r2
    \<and> participant_start lib rnd (Some s1) (Some s2) (Inr l) tries r1 r2 r2 = Some (Inr
        \<lparr>m_client = fresh_client\<lparr>c_sgxmax := ucast (sgxmax g), c_lowerbound := ucast (sgxt_lowerbound g), c_node_id := node_id nd,
           c_ntiers := n_tiers g, c_starting_time := server_starting_time g\<rparr>, m_terminate = False, m_retries = 0\<rparr>)"
proof -
  obtain r1 where r1: "over_socket rs (register_reply g nd) = Some r1" "registration_reply lib r1 fresh_client =
      Inr (True, fresh_client\<lparr>c_sgxmax := ucast (sgxmax g), c_lowerbound := ucast (sgxt_lowerbound g), c_node_id := node_id nd,
        c_ntiers := n_tiers g, c_starting_time := server_starting_time g\<rparr>)"
    using sock.registration [OF register_reply_fits [OF assms(4,5)] assms(6-9)] by blast
  have "tries \<noteq> []" using assms(2) by auto
  then have "connect_to_server True True tries = Some (Inr True)"
    using connect_rounds_first [of False tries False] assms(2,3) by (simp add: connect_to_server_def)
  moreover have "over_socket rs success_msg = Some (Reply success_msg)" by (rule sock.delivers [OF success_fits [OF assms(4,5)]])
  moreover obtain req where "poet_register_with_pk lib rnd r1 fresh_client = Inr (req, True, fresh_client\<lparr>c_sgxmax := ucast (sgxmax g),
      c_lowerbound := ucast (sgxt_lowerbound g), c_node_id := node_id nd, c_ntiers := n_tiers g, c_starting_time := server_starting_time g\<rparr>)"
    using register_with_pk_run [OF r1(2)] by blast
  ultimately show ?thesis using r1(1) attestation_run [OF assms(10,11)] assms(1)
    by (auto simp: participant_start_def global_variable_initialization_def poet_register_to_server_def setup_secondary_socket_def)
qed

lemma compliance_json_parse: "check_json_compliance (lib\<lparr>json_parse := p\<rparr>) s = check_json_compliance lib s"
proof -
  have "compliance_loop (lib\<lparr>json_parse := p\<rparr>) jc cs = compliance_loop lib jc cs" for jc cs
    by (induction cs arbitrary: jc) (auto split: prod.split bool.split)
  then show ?thesis by (simp add: check_json_compliance_def)
qed

lemma sample_lib_facts:
  "check_json_compliance sample_lib (register_reply (one_node test_queue) (test_node 3 5))" "check_json_compliance sample_lib success_msg"
  "json_parse sample_lib (register_reply (one_node test_queue) (test_node 3 5)) = Some (reply_doc (one_node test_queue) (test_node 3 5))"
  "json_parse sample_lib success_msg = Some (JObject [(''status'', JString ''success'')])"
  "server_starting_time (one_node test_queue) = 0" "n_tiers (one_node test_queue) = 1" "sgxmax (one_node test_queue) = 9"
  "sgxt_lowerbound (one_node test_queue) = 1" "node_id (test_node 3 5) = 3" "list_all (\<lambda>(v, e). 2 \<le> v) (replicate 1023 (2, 0) :: send_result list)"
  by (simp_all add: sample_lib_def compliance_json_parse stub_compliance register_reply_def success_msg_def one_node_def initial_global_def test_node_def list_all_iff)

section \<open>Properties\<close>

text \<open>
  C9. A participant starts: when its sockets and its enclave have been created, both sockets connect
  at some attempt, and the server's answers to the registration, the attestation and the message on
  the secondary socket arrive in one piece, \<^verbatim>\<open>main\<close> reaches its loop with the parameters that the server
  printed. All these answers fit the receive buffer. The parser is assumed to read them as written.
\<close>

theorem participant_starts:
  fixes g :: "'sock global" and lib :: "'l json_lib" and l :: "'eid launch"
  assumes "0 \<le> l_ret l" and "\<exists>t \<in> set tries. fst t" and "\<exists>t \<in> set tries. snd t"
    and "list_all (\<lambda>(v, e). 2 \<le> v) rs" and "1022 < length rs"
    and "0 \<le> server_starting_time g" and "server_starting_time g < 2 ^ 63"
    and "check_json_compliance lib (register_reply g nd)" and "json_parse lib (register_reply g nd) = Some (reply_doc g nd)"
    and "check_json_compliance lib success_msg" and "json_parse lib success_msg = Some (JObject [(''status'', JString ''success'')])"
  shows "\<exists>r1 r2. over_socket rs (register_reply g nd) = Some r1 \<and> over_socket rs success_msg = Some r2
    \<and> participant_start lib rnd (Some s1) (Some s2) (Inr l) tries r1 r2 r2 = Some (Inr
        \<lparr>m_client = fresh_client\<lparr>c_sgxmax := ucast (sgxmax g), c_lowerbound := ucast (sgxt_lowerbound g), c_node_id := node_id nd,
           c_ntiers := n_tiers g, c_starting_time := server_starting_time g\<rparr>, m_terminate = False, m_retries = 0\<rparr>)"
  using participant_start_run [OF assms] .

theorem participant_starts_witness:
  "\<exists>r1 r2. participant_start sample_lib (\<lambda>_. 0) (Some listening) (Some listening)
      (Inr \<lparr>l_ret = 0, l_eid = Some (), l_given = [], l_disk = undefined, l_output = []\<rparr>) [(True, False), (False, True)] r1 r2 r2 =
    Some (Inr \<lparr>m_client = fresh_client\<lparr>c_sgxmax := ucast (9 :: size_t), c_lowerbound := ucast (1 :: size_t),
       c_node_id := 3, c_ntiers := 1, c_starting_time := 0\<rparr>, m_terminate = False, m_retries = 0\<rparr>)"
  using participant_starts [of "\<lparr>l_ret = 0, l_eid = Some (), l_given = [], l_disk = undefined, l_output = []\<rparr>" "[(True, False), (False, True)]"
      "replicate 1023 (2, 0)" "one_node test_queue" sample_lib "test_node 3 5" "\<lambda>_. 0" listening listening] sample_lib_facts
  by auto

text \<open>
  C33. A participant that has lost its server stops: when after its start all announcements fail and
  the server cannot be reached, \<^verbatim>\<open>main\<close> leaves its loop in the twelfth round, the first in which it tries
  to connect again, and ends after it has released its main socket.
\<close>

theorem participant_gives_up:
  assumes "participant_start lib rnd s1 s2 enclave tries reply1 reply2 reply3 = Some (Inr m)" and "draws (m_client m)"
    and "list_all (\<lambda>r. fails r \<and> \<not> r_signal r) (rs @ [r])" and "length rs = 11" and "cut_off r"
    and "is_parent soc" and "queue_rep (close_queue soc) xs"
  shows "\<exists>m' socks. participant_main lib rnd s1 s2 enclave tries reply1 reply2 reply3 (rs @ r # rest) soc = Some (Inr (12, m', socks))
    \<and> m_terminate m' \<and> c_rejoin (m_client m') = c_rejoin (m_client m) \<and> socks 0 = None"
proof -
  have "\<not> m_terminate m" "m_retries m = 0" using assms(1)
    by (auto simp: participant_start_def res_simps split: sum.splits option.splits)
  then obtain m' where "main_loop lib (rs @ r # rest) 0 m = Some (Inr (12, m'))" "m_terminate m'" "c_rejoin (m_client m') = c_rejoin (m_client m)"
    using loop_gives_up [OF assms(3-5)] assms(2) by blast
  with assms(1) main_socket_released [OF assms(6,7)] show ?thesis by (auto simp: participant_main_def simp del: main_loop.simps)
qed

theorem participant_gives_up_witness:
  "\<exists>r1 r2 m' socks. participant_main sample_lib (\<lambda>_. 0) (Some listening) (Some listening)
      (Inr \<lparr>l_ret = 0, l_eid = Some (), l_given = [], l_disk = undefined, l_output = []\<rparr>) [(True, False), (False, True)] r1 r2 r2
      (replicate 11 failing_round @ [failing_round]) listening = Some (Inr (12, m', socks)) \<and> m_terminate m' \<and> socks 0 = None"
proof -
  let ?l = "\<lparr>l_ret = 0, l_eid = Some (), l_given = [], l_disk = undefined, l_output = []\<rparr>" and ?tries = "[(True, False), (False, True)]"
  obtain r1 r2 m where start: "participant_start sample_lib (\<lambda>_. 0) (Some listening) (Some listening) (Inr ?l) ?tries r1 r2 r2 = Some (Inr m)"
    "m_client m = fresh_client\<lparr>c_sgxmax := ucast (9 :: size_t), c_lowerbound := ucast (1 :: size_t), c_node_id := 3, c_ntiers := 1, c_starting_time := 0\<rparr>"
    using participant_start_run [of ?l ?tries "replicate 1023 (2, 0)" "one_node test_queue" sample_lib "test_node 3 5" "\<lambda>_. 0" listening listening] sample_lib_facts
    by auto
  have "draws (m_client m)" by (simp add: start(2) draws_def)
  moreover have "list_all (\<lambda>r. fails r \<and> \<not> r_signal r) (replicate 11 failing_round @ [failing_round])" "cut_off failing_round"
    by (simp_all add: list_all_iff fails_def cut_off_def failing_round_def)
  moreover have "is_parent listening" "queue_rep (close_queue listening) []" using fresh_queue_rep [of True] by (simp_all add: listening_def)
  ultimately show ?thesis using participant_gives_up [OF start(1), of "replicate 11 failing_round" failing_round listening "[]" "[]"] by auto
qed


lemma sample_notification:
  assumes "queue_rep q [0 :: size_t]" and "tolerant (q_heap q)"
  shows "registry_ok (one_node q) [0]" "list_all (\<lambda>(v, e). 2 \<le> v) (replicate 2000 (2, 0) :: send_result list)"
    "sgx_table (one_node q) = [test_node 0 5]" "queue_wf (c_queue (sample_client q []))" "\<not> c_locked (sample_client q [])"
  using assms one_node_registry by (auto simp: one_node_def sample_client_def queue_wf_def list_all_iff)




end
