(* ===== verification/Blockchain.thy ===== *)
theory Blockchain imports Machine "HOL-Library.Multiset"
begin

text \<open>
  The block file: \<^verbatim>\<open>blockchain_work\<close> of \<^verbatim>\<open>poet_client.cpp\<close>, run by the nodes of one machine. The thread
  of a leader appends a line when it starts and one when it finishes, while it holds the lock of the
  file. The lines are collected in the buffer of the stream and reach the file when the stream is
  closed, after the lock was released. Opening and locking the file are taken to succeed.
\<close>

section \<open>Writers\<close>

datatype line = Starts uint int | Finishes uint int

text \<open>Where a writer stands; the times are those of its lines.\<close>

datatype phase = Idle | Opened | Locked | Writing int | Written int int | Unlocked int int | Closed

record writer =
  w_node :: uint
  w_phase :: phase
  w_buffer :: "line list"
  w_rejoin :: uint

record chain =
  b_now :: int
  b_file :: "line list"
  b_holder :: "nat option"
  b_writers :: "writer list"

definition BLOCKCHAIN_WRITE_TIME :: int where "BLOCKCHAIN_WRITE_TIME = 1"

definition set_writer :: "nat \<Rightarrow> writer \<Rightarrow> chain \<Rightarrow> chain" where
  "set_writer i w s = s\<lparr>b_writers := (b_writers s)[i := w]\<rparr>"

text \<open>
  One step of writer \<open>i\<close>; \<open>None\<close> is a call that waits. The two lines fit into the buffer of the
  stream, which \<^verbatim>\<open>fclose\<close> appends to the file in one write; \<^verbatim>\<open>sleep\<close> is taken to run to its end.
\<close>

definition blockchain_work :: "nat \<Rightarrow> chain \<Rightarrow> chain option" where
  "blockchain_work i s =
     (let w = b_writers s ! i in
      case w_phase w of
        Idle \<Rightarrow> Some (set_writer i (w\<lparr>w_phase := Opened\<rparr>) s)
      | Opened \<Rightarrow>
          if b_holder s = None then Some (set_writer i (w\<lparr>w_phase := Locked\<rparr>) (s\<lparr>b_holder := Some i\<rparr>)) else None
      | Locked \<Rightarrow>
          Some (set_writer i (w\<lparr>w_buffer := w_buffer w @ [Starts (w_node w) (b_now s)], w_phase := Writing (b_now s)\<rparr>) s)
      | Writing a \<Rightarrow>
          if a + BLOCKCHAIN_WRITE_TIME \<le> b_now s
          then Some (set_writer i (w\<lparr>w_buffer := w_buffer w @ [Finishes (w_node w) (b_now s)], w_phase := Written a (b_now s)\<rparr>) s)
          else None
      | Written a b \<Rightarrow> Some (set_writer i (w\<lparr>w_phase := Unlocked a b\<rparr>) (s\<lparr>b_holder := None\<rparr>))
      | Unlocked a b \<Rightarrow> Some (set_writer i (w\<lparr>w_buffer := [], w_phase := Closed\<rparr>) (s\<lparr>b_file := b_file s @ w_buffer w\<rparr>))
      | Closed \<Rightarrow> Some (set_writer i (w\<lparr>w_rejoin := w_rejoin w + 1, w_phase := Idle\<rparr>) s))"

inductive chain_step :: "chain \<Rightarrow> chain \<Rightarrow> bool" where
  tick: "chain_step s (s\<lparr>b_now := b_now s + 1\<rparr>)"
| work: "i < length (b_writers s) \<Longrightarrow> blockchain_work i s = Some s' \<Longrightarrow> chain_step s s'"

definition initial_chain :: "int \<Rightarrow> uint list \<Rightarrow> chain" where
  "initial_chain now nodes = \<lparr>b_now = now, b_file = [], b_holder = None,
     b_writers = map (\<lambda>n. \<lparr>w_node = n, w_phase = Idle, w_buffer = [], w_rejoin = 0\<rparr>) nodes\<rparr>"

text \<open>A run along a schedule of ticks (\<open>None\<close>) and steps of writers.\<close>

fun run :: "nat option list \<Rightarrow> chain \<Rightarrow> chain option" where
  "run [] s = Some s"
| "run (None # sch) s = run sch (s\<lparr>b_now := b_now s + 1\<rparr>)"
| "run (Some i # sch) s =
     (if i < length (b_writers s) then case blockchain_work i s of Some s' \<Rightarrow> run sch s' | None \<Rightarrow> None else None)"

section \<open>Specification\<close>

text \<open>A block is a node with the times of its two lines.\<close>

type_synonym block = "uint \<times> int \<times> int"

definition lines :: "block list \<Rightarrow> line list" where
  "lines bs = concat (map (\<lambda>(n, a, b). [Starts n a, Finishes n b]) bs)"

definition apart :: "block \<Rightarrow> block \<Rightarrow> bool" where
  "apart x y \<longleftrightarrow> snd (snd x) \<le> fst (snd y) \<or> snd (snd y) \<le> fst (snd x)"

definition all_apart :: "block multiset \<Rightarrow> bool" where
  "all_apart M \<longleftrightarrow> (\<forall>x \<in># M. \<forall>y \<in># M - {#x#}. apart x y)"

text \<open>The block of a writer that is complete but not in the file yet, and its buffer.\<close>

fun pending :: "writer \<Rightarrow> block list" where
  "pending w = (case w_phase w of Written a b \<Rightarrow> [(w_node w, a, b)] | Unlocked a b \<Rightarrow> [(w_node w, a, b)] | _ \<Rightarrow> [])"

definition buffer_ok :: "writer \<Rightarrow> bool" where
  "buffer_ok w \<longleftrightarrow> w_buffer w = (case w_phase w of Writing a \<Rightarrow> [Starts (w_node w) a] | _ \<Rightarrow> lines (pending w))"

fun in_section :: "phase \<Rightarrow> bool" where
  "in_section Locked = True"
| "in_section (Writing a) = True"
| "in_section (Written a b) = True"
| "in_section _ = False"

definition block_ok :: "int \<Rightarrow> block \<Rightarrow> bool" where
  "block_ok now x \<longleftrightarrow> fst (snd x) + BLOCKCHAIN_WRITE_TIME \<le> snd (snd x) \<and> snd (snd x) \<le> now"

definition blocks :: "block list \<Rightarrow> chain \<Rightarrow> block multiset" where
  "blocks bs s = mset bs + mset (concat (map pending (b_writers s)))"

text \<open>Exactly the holder of the lock is in the critical section, and the buffers follow the phases.\<close>

definition control_ok :: "chain \<Rightarrow> bool" where
  "control_ok s \<longleftrightarrow> (\<forall>w \<in> set (b_writers s). buffer_ok w)
     \<and> (\<forall>i < length (b_writers s). in_section (w_phase (b_writers s ! i)) \<longleftrightarrow> b_holder s = Some i)
     \<and> (\<forall>i. b_holder s = Some i \<longrightarrow> i < length (b_writers s))"

text \<open>The file holds the blocks \<open>bs\<close>; with those that wait in buffers they do not overlap.\<close>

definition record_ok :: "block list \<Rightarrow> chain \<Rightarrow> bool" where
  "record_ok bs s \<longleftrightarrow> b_file s = lines bs \<and> all_apart (blocks bs s) \<and> (\<forall>x \<in># blocks bs s. block_ok (b_now s) x)
     \<and> (\<forall>w \<in> set (b_writers s). \<forall>a. w_phase w = Writing a \<longrightarrow> a \<le> b_now s \<and> (\<forall>x \<in># blocks bs s. snd (snd x) \<le> a))"

definition chain_ok :: "chain \<Rightarrow> bool" where
  "chain_ok s \<longleftrightarrow> control_ok s \<and> (\<exists>bs. record_ok bs s)"

section \<open>Blocks\<close>

lemma apart_sym: "apart x y \<Longrightarrow> apart y x"
  by (auto simp: apart_def)

lemma all_apart_add [simp]: "all_apart (add_mset x M) \<longleftrightarrow> all_apart M \<and> (\<forall>y \<in># M. apart x y)"
proof
  assume all: "all_apart (add_mset x M)"
  have "v \<in># add_mset x M - {#u#}" if "v \<in># M - {#u#}" for u v
    using that by (cases "u = x") (auto dest: in_diffD)
  then show "all_apart M \<and> (\<forall>y \<in># M. apart x y)" using all by (simp add: all_apart_def)
next
  assume "all_apart M \<and> (\<forall>y \<in># M. apart x y)"
  then have all: "\<And>u v. u \<in># M \<Longrightarrow> v \<in># M - {#u#} \<Longrightarrow> apart u v" "\<And>y. y \<in># M \<Longrightarrow> apart x y" by (auto simp: all_apart_def)
  have "apart u v" if "u \<in># add_mset x M" "v \<in># add_mset x M - {#u#}" for u v
  proof (cases "u = x")
    case False
    then have "u \<in># M" "v = x \<or> v \<in># M - {#u#}" using that by auto
    then show ?thesis using all apart_sym by blast
  qed (use that all(2) in simp)
  then show "all_apart (add_mset x M)" by (simp add: all_apart_def)
qed

lemma all_apart_mono:
  assumes "M \<subseteq># N" and "all_apart N"
  shows "all_apart M"
proof -
  have "v \<in># N - {#u#}" if "v \<in># M - {#u#}" for u v
    using that mset_subset_eq_count [OF assms(1), of v] unfolding in_diff_count by (rule less_le_trans)
  then show ?thesis using assms(2) mset_subset_eqD [OF assms(1)] unfolding all_apart_def by blast
qed

lemma all_apart_nth:
  assumes "all_apart (mset bs)" and "i < length bs" and "j < length bs" and "i \<noteq> j"
  shows "apart (bs ! i) (bs ! j)"
proof -
  have "mset bs = add_mset (bs ! i) (mset (take i bs @ drop (Suc i) bs))"
    using arg_cong [OF id_take_nth_drop [OF assms(2)], of mset] by simp
  moreover have "bs ! j \<in> set (take i bs @ drop (Suc i) bs)"
  proof (cases "j < i")
    case True
    then show ?thesis using assms(2) by (auto simp: in_set_conv_nth intro!: exI [of _ j])
  next
    case False
    then show ?thesis using assms(3,4) by (auto simp: in_set_conv_nth intro!: exI [of _ "j - Suc i"])
  qed
  ultimately show ?thesis using assms(1) by simp
qed

lemma pending_update:
  "i < length ws \<Longrightarrow> mset (concat (map pending (ws[i := w]))) + mset (pending (ws ! i)) = mset (concat (map pending ws)) + mset (pending w)"
  by (subst (2) id_take_nth_drop [of i ws]) (simp_all add: upd_conv_take_nth_drop del: pending.simps)

lemma lines_simps [simp]: "lines [] = []" "lines ((n, a, b) # bs) = Starts n a # Finishes n b # lines bs"
  "lines (bs @ bs') = lines bs @ lines bs'"
  by (simp_all add: lines_def)

section \<open>The invariant\<close>

lemma set_writer_simps [simp]:
  "b_now (set_writer i w s) = b_now s" "b_file (set_writer i w s) = b_file s" "b_holder (set_writer i w s) = b_holder s"
  "b_writers (set_writer i w s) = (b_writers s)[i := w]"
  by (simp_all add: set_writer_def)

lemma blocks_set_writer:
  "i < length (b_writers s) \<Longrightarrow> blocks bs (set_writer i w s) + mset (pending (b_writers s ! i)) = blocks bs s + mset (pending w)"
  using pending_update [of i "b_writers s" w] by (simp add: blocks_def ac_simps del: pending.simps)

lemma blocks_same:
  "i < length (b_writers s) \<Longrightarrow> pending w = pending (b_writers s ! i) \<Longrightarrow> blocks bs (set_writer i w s) = blocks bs s"
  using blocks_set_writer [of i s bs w] by (simp del: pending.simps)

lemma blocks_frame [simp]: "blocks bs (s\<lparr>b_holder := h\<rparr>) = blocks bs s" "blocks bs (s\<lparr>b_file := f\<rparr>) = blocks bs s"
  "blocks bs (s\<lparr>b_now := t\<rparr>) = blocks bs s"
  by (simp_all add: blocks_def)

lemma set_update_memD: "v \<in> set (xs[i := w]) \<Longrightarrow> v = w \<or> v \<in> set xs"
  using set_update_subset_insert [of xs i w] by auto

text \<open>A step that neither completes a block nor starts one.\<close>

lemma record_ok_set_writer:
  assumes "record_ok bs s" and "i < length (b_writers s)" and "pending w = pending (b_writers s ! i)" and "\<And>a. w_phase w \<noteq> Writing a"
  shows "record_ok bs (set_writer i w s)"
proof -
  have "v \<in> set (b_writers s)" if "v \<in> set ((b_writers s)[i := w])" "w_phase v = Writing a" for v a
    using set_update_memD [OF that(1)] assms(4) that(2) by auto
  then show ?thesis using assms(1) unfolding record_ok_def blocks_same [OF assms(2,3)] set_writer_simps by blast
qed

lemma record_ok_frame [simp]: "record_ok bs (s\<lparr>b_holder := h\<rparr>) = record_ok bs s"
  by (simp add: record_ok_def)

lemma control_step:
  assumes "blockchain_work i s = Some s'" and "i < length (b_writers s)" and "control_ok s"
  shows "control_ok s'"
proof -
  have w: "buffer_ok (b_writers s ! i)" and h: "in_section (w_phase (b_writers s ! i)) \<longleftrightarrow> b_holder s = Some i"
    using assms(2,3) by (auto simp: control_ok_def)
  have upd: "control_ok (set_writer i w t)"
    if "buffer_ok w" "b_writers t = b_writers s" "in_section (w_phase w) \<longleftrightarrow> b_holder t = Some i"
      "\<And>j. j \<noteq> i \<Longrightarrow> b_holder t = Some j \<longleftrightarrow> b_holder s = Some j" for w t
  proof -
    have "\<forall>v \<in> set ((b_writers s)[i := w]). buffer_ok v" using assms(3) that(1) by (auto simp: control_ok_def dest: set_update_memD)
    moreover have "in_section (w_phase ((b_writers s)[i := w] ! j)) \<longleftrightarrow> b_holder t = Some j" if "j < length (b_writers s)" for j
      using assms(3) that \<open>in_section (w_phase w) \<longleftrightarrow> b_holder t = Some i\<close> \<open>\<And>j. j \<noteq> i \<Longrightarrow> b_holder t = Some j \<longleftrightarrow> b_holder s = Some j\<close>
      by (cases "j = i") (simp_all add: control_ok_def)
    moreover have "j < length (b_writers s)" if "b_holder t = Some j" for j
      using assms(2,3) that \<open>\<And>j. j \<noteq> i \<Longrightarrow> b_holder t = Some j \<longleftrightarrow> b_holder s = Some j\<close> by (cases "j = i") (simp_all add: control_ok_def)
    ultimately show ?thesis using that(2) by (simp add: control_ok_def)
  qed
  show ?thesis using assms(1) w h unfolding blockchain_work_def Let_def
    by (cases "w_phase (b_writers s ! i)") (auto simp: buffer_ok_def split: if_splits intro!: upd)
qed

text \<open>The holder of the lock is the only writer that can be writing.\<close>

lemma only_writing:
  assumes "control_ok s" and "i < length (b_writers s)" and "in_section (w_phase (b_writers s ! i))"
    and "v \<in> set ((b_writers s)[i := w])" and "w_phase v = Writing a"
  shows "v = w"
proof -
  obtain j where j: "j < length (b_writers s)" "v = (b_writers s)[i := w] ! j" using assms(4) by (auto simp: in_set_conv_nth)
  show ?thesis
  proof (cases "j = i")
    case False
    then have "in_section (w_phase (b_writers s ! j))" using j assms(5) by simp
    then have "b_holder s = Some j" "b_holder s = Some i" using assms(1-3) j(1) by (auto simp: control_ok_def)
    with False show ?thesis by simp
  qed (use j in simp)
qed

lemma record_starts:
  assumes "control_ok s" and "record_ok bs s" and "i < length (b_writers s)" and "w_phase (b_writers s ! i) = Locked"
  shows "record_ok bs (set_writer i ((b_writers s ! i)\<lparr>w_buffer := f, w_phase := Writing (b_now s)\<rparr>) s)"
proof -
  let ?w = "(b_writers s ! i)\<lparr>w_buffer := f, w_phase := Writing (b_now s)\<rparr>"
  have "blocks bs (set_writer i ?w s) = blocks bs s" using assms(3,4) by (intro blocks_same) simp_all
  moreover have "v = ?w" if "v \<in> set ((b_writers s)[i := ?w])" "w_phase v = Writing a" for v a
    using only_writing [OF assms(1,3) _ that] assms(4) by simp
  ultimately show ?thesis using assms(2) by (fastforce simp: record_ok_def block_ok_def)
qed

lemma record_finishes:
  assumes "control_ok s" and "record_ok bs s" and "i < length (b_writers s)" and w: "w_phase (b_writers s ! i) = Writing a"
    and "a + BLOCKCHAIN_WRITE_TIME \<le> b_now s"
  shows "record_ok bs (set_writer i ((b_writers s ! i)\<lparr>w_buffer := f, w_phase := Written a (b_now s)\<rparr>) s)"
proof -
  let ?w = "(b_writers s ! i)\<lparr>w_buffer := f, w_phase := Written a (b_now s)\<rparr>" and ?x = "(w_node (b_writers s ! i), a, b_now s)"
  have B: "blocks bs (set_writer i ?w s) = add_mset ?x (blocks bs s)" using blocks_set_writer [OF assms(3), of bs ?w] w by simp
  have before: "\<forall>x \<in># blocks bs s. snd (snd x) \<le> a" using assms(2) w nth_mem [OF assms(3)] unfolding record_ok_def by blast
  then have "\<forall>x \<in># blocks bs s. apart ?x x" by (simp add: apart_def)
  moreover have False if "v \<in> set ((b_writers s)[i := ?w])" "w_phase v = Writing a'" for v a'
    using only_writing [OF assms(1,3) _ that] w that(2) by simp
  ultimately show ?thesis using assms(2,5) B by (auto simp: record_ok_def block_ok_def)
qed

lemma record_closes:
  assumes "record_ok bs s" and "i < length (b_writers s)" and w: "w_phase (b_writers s ! i) = Unlocked a b" and "buffer_ok (b_writers s ! i)"
  shows "record_ok (bs @ [(w_node (b_writers s ! i), a, b)])
    (set_writer i ((b_writers s ! i)\<lparr>w_buffer := [], w_phase := Closed\<rparr>) (s\<lparr>b_file := b_file s @ w_buffer (b_writers s ! i)\<rparr>))"
proof -
  let ?w = "(b_writers s ! i)\<lparr>w_buffer := [], w_phase := Closed\<rparr>" and ?x = "(w_node (b_writers s ! i), a, b)"
  have "blocks bs (set_writer i ?w s) + {#?x#} = blocks bs s" using blocks_set_writer [OF assms(2), of bs ?w] w by simp
  then have B: "blocks (bs @ [?x]) (set_writer i ?w (s\<lparr>b_file := f\<rparr>)) = blocks bs s" for f by (simp add: blocks_def)
  have "v \<in> set (b_writers s)" if "v \<in> set ((b_writers s)[i := ?w])" "w_phase v = Writing a'" for v a'
    using set_update_memD [OF that(1)] that(2) by auto
  moreover have "w_buffer (b_writers s ! i) = lines [?x]" using assms(4) w by (simp add: buffer_ok_def)
  moreover have "lines bs @ lines [?x] = lines (bs @ [?x])" by (simp only: lines_simps)
  ultimately show ?thesis using assms(1) unfolding record_ok_def B set_writer_simps by (simp del: lines_simps) blast
qed

lemma record_step:
  assumes "blockchain_work i s = Some s'" and "i < length (b_writers s)" and "control_ok s" and "record_ok bs s"
  shows "\<exists>bs'. record_ok bs' s'"
proof -
  have "buffer_ok (b_writers s ! i)" using assms(2,3) by (simp add: control_ok_def)
  note steps = record_starts [OF assms(3,4,2)] record_finishes [OF assms(3,4,2)] record_closes [OF assms(4,2) _ this]
  show ?thesis
  proof (cases "w_phase (b_writers s ! i)")
    case Locked
    then show ?thesis using assms(1) steps(1) by (auto simp: blockchain_work_def Let_def)
  next
    case (Writing a)
    then show ?thesis using assms(1) steps(2) by (auto simp: blockchain_work_def Let_def split: if_splits)
  next
    case (Unlocked a b)
    then show ?thesis using assms(1) steps(3) by (auto simp: blockchain_work_def Let_def)
  qed (use assms in \<open>auto simp: blockchain_work_def Let_def split: if_splits intro!: exI [of _ bs] record_ok_set_writer\<close>)
qed

lemma chain_step_keeps:
  assumes "chain_step s s'" and "chain_ok s"
  shows "chain_ok s'"
  using assms(1)
proof (cases rule: chain_step.cases)
  case tick
  then show ?thesis using assms(2) by (fastforce simp: chain_ok_def control_ok_def record_ok_def block_ok_def)
next
  case (work i)
  then show ?thesis using assms(2) control_step record_step by (auto simp: chain_ok_def)
qed

interpretation writers: framed_machine chain_step chain_ok "\<lambda>s s'. map w_node (b_writers s') = map w_node (b_writers s)"
proof
  fix s s' assume step: "chain_step s s'"
  then show "map w_node (b_writers s') = map w_node (b_writers s)"
  proof (cases rule: chain_step.cases)
    case (work i)
    have "w_node w = w_node (b_writers s ! i) \<Longrightarrow> map w_node ((b_writers s)[i := w]) = map w_node (b_writers s)" for w
      by (metis list_update_id map_update)
    with work show ?thesis by (auto simp: blockchain_work_def Let_def split: phase.splits if_splits)
  qed simp
qed (auto intro: chain_step_keeps)

lemma initial_chain_ok: "chain_ok (initial_chain now nodes)"
proof -
  have "concat (map pending (b_writers (initial_chain now nodes))) = []" by (simp add: initial_chain_def)
  then have "blocks [] (initial_chain now nodes) = {#}" by (simp add: blocks_def)
  then have "record_ok [] (initial_chain now nodes)" by (auto simp: record_ok_def initial_chain_def all_apart_def)
  moreover have "control_ok (initial_chain now nodes)" by (auto simp: control_ok_def initial_chain_def buffer_ok_def)
  ultimately show ?thesis by (auto simp: chain_ok_def)
qed

section \<open>Runs\<close>

lemma run_reaches: "run sch s = Some s' \<Longrightarrow> chain_step\<^sup>*\<^sup>* s s'"
proof (induction sch s rule: run.induct)
  case (2 sch s)
  then show ?case by (auto intro: converse_rtranclp_into_rtranclp chain_step.tick)
next
  case (3 i sch s)
  then show ?case by (auto split: if_splits option.splits intro: converse_rtranclp_into_rtranclp chain_step.work)
qed simp

lemma work_then:
  "i < length (b_writers s) \<Longrightarrow> blockchain_work i s = Some s1 \<Longrightarrow> \<exists>s'. chain_step\<^sup>*\<^sup>* s1 s' \<and> P s' \<Longrightarrow> \<exists>s'. chain_step\<^sup>*\<^sup>* s s' \<and> P s'"
  by (meson chain_step.work converse_rtranclp_into_rtranclp)

lemma tick_then: "\<exists>s'. chain_step\<^sup>*\<^sup>* (s\<lparr>b_now := b_now s + 1\<rparr>) s' \<and> P s' \<Longrightarrow> \<exists>s'. chain_step\<^sup>*\<^sup>* s s' \<and> P s'"
  using converse_rtranclp_into_rtranclp [of chain_step, OF chain_step.tick [of s]] by blast

text \<open>How far a writer is from the end of its block.\<close>

lemma writer_finishes:
  assumes "i < length (b_writers s)" and "if in_section (w_phase (b_writers s ! i)) then b_holder s = Some i else b_holder s = None"
  shows "\<exists>s'. chain_step\<^sup>*\<^sup>* s s' \<and> w_phase (b_writers s' ! i) = Closed \<and> b_holder s' = None"
proof -
  let ?P = "\<lambda>s'. w_phase (b_writers s' ! i) = Closed \<and> b_holder s' = None"
  have unlocked: "\<exists>s'. chain_step\<^sup>*\<^sup>* t s' \<and> ?P s'" if "i < length (b_writers t)" "w_phase (b_writers t ! i) = Unlocked a b" "b_holder t = None" for t a b
    using that by (intro work_then [OF that(1)]) (auto simp: blockchain_work_def Let_def)
  have written: "\<exists>s'. chain_step\<^sup>*\<^sup>* t s' \<and> ?P s'" if "i < length (b_writers t)" "w_phase (b_writers t ! i) = Written a b" for t a b
    using that by (intro work_then [OF that(1)]) (auto simp: blockchain_work_def Let_def intro!: unlocked)
  have late: "\<exists>s'. chain_step\<^sup>*\<^sup>* t s' \<and> ?P s'"
    if "i < length (b_writers t)" "w_phase (b_writers t ! i) = Writing a" "a + BLOCKCHAIN_WRITE_TIME \<le> b_now t" for t a
    using that by (intro work_then [OF that(1)]) (auto simp: blockchain_work_def Let_def intro!: written)
  have writing: "\<exists>s'. chain_step\<^sup>*\<^sup>* t s' \<and> ?P s'" if "i < length (b_writers t)" "w_phase (b_writers t ! i) = Writing a" for t a
    using that
  proof (induction "nat (a + BLOCKCHAIN_WRITE_TIME - b_now t)" arbitrary: t)
    case 0
    then show ?case by (intro late) simp_all
  next
    case (Suc n)
    then have "\<exists>s'. chain_step\<^sup>*\<^sup>* (t\<lparr>b_now := b_now t + 1\<rparr>) s' \<and> ?P s'" by simp
    then show ?case by (rule tick_then)
  qed
  have locked: "\<exists>s'. chain_step\<^sup>*\<^sup>* t s' \<and> ?P s'" if "i < length (b_writers t)" "w_phase (b_writers t ! i) = Locked" for t
    using that by (intro work_then [OF that(1)]) (auto simp: blockchain_work_def Let_def intro!: writing)
  have opened: "\<exists>s'. chain_step\<^sup>*\<^sup>* t s' \<and> ?P s'" if "i < length (b_writers t)" "w_phase (b_writers t ! i) = Opened" "b_holder t = None" for t
    using that by (intro work_then [OF that(1)]) (auto simp: blockchain_work_def Let_def intro!: locked)
  have idle: "\<exists>s'. chain_step\<^sup>*\<^sup>* t s' \<and> ?P s'" if "i < length (b_writers t)" "w_phase (b_writers t ! i) = Idle" "b_holder t = None" for t
    using that by (intro work_then [OF that(1)]) (auto simp: blockchain_work_def Let_def intro!: opened)
  show ?thesis
  proof (cases "w_phase (b_writers s ! i)")
    case Closed
    then show ?thesis using assms(2) by auto
  qed (use assms idle [of s] opened [of s] locked [of s] writing [of s] written [of s] unlocked [of s] in \<open>simp_all only: in_section.simps if_True if_False\<close>)
qed

section \<open>Properties\<close>

text \<open>
  C11. However the writers of the nodes interleave, the block file is a sequence of complete pairs of
  a start and a finish of one node, every pair spans at least the writing time, and the spans of two
  blocks never overlap.
\<close>

theorem blocks_do_not_overlap:
  assumes "chain_step\<^sup>*\<^sup>* (initial_chain now nodes) s"
  shows "\<exists>bs. b_file s = lines bs \<and> (\<forall>i < length bs. \<forall>j < length bs. i \<noteq> j \<longrightarrow> apart (bs ! i) (bs ! j))
     \<and> (\<forall>(n, a, b) \<in> set bs. a + BLOCKCHAIN_WRITE_TIME \<le> b \<and> b \<le> b_now s)"
proof -
  obtain bs where bs: "record_ok bs s" using writers.reachable [OF assms initial_chain_ok] by (auto simp: chain_ok_def)
  then have "all_apart (mset bs)" by (intro all_apart_mono [of "mset bs" "blocks bs s"]) (auto simp: record_ok_def blocks_def)
  moreover have "\<forall>x \<in> set bs. block_ok (b_now s) x" using bs by (auto simp: record_ok_def blocks_def)
  ultimately show ?thesis using bs all_apart_nth [of bs] by (intro exI [of _ bs]) (auto simp: record_ok_def block_ok_def)
qed

theorem blocks_do_not_overlap_witness:
  "\<exists>s bs. chain_step\<^sup>*\<^sup>* (initial_chain 0 [4, 5]) s \<and> b_file s = [Starts 4 0, Finishes 4 1] \<and> b_file s = lines bs
     \<and> (\<forall>(n, a, b) \<in> set bs. a + BLOCKCHAIN_WRITE_TIME \<le> b \<and> b \<le> b_now s)"
proof -
  let ?run = "run [Some 0, Some 0, Some 0, None, Some 0, Some 0, Some 0] (initial_chain 0 [4, 5])"
  have "map_option b_file ?run = Some [Starts 4 0, Finishes 4 1]"
    by (simp add: initial_chain_def blockchain_work_def set_writer_def BLOCKCHAIN_WRITE_TIME_def)
  then obtain s where s: "?run = Some s" "b_file s = [Starts 4 0, Finishes 4 1]" by (auto simp del: run.simps)
  from blocks_do_not_overlap [OF run_reaches [OF s(1)]] run_reaches [OF s(1)] s(2) show ?thesis by blast
qed

text \<open>
  C31. The blocks can reach the file in the wrong order: a node that has released the lock but not yet
  closed its stream has its lines still in the buffer, and a node that led after it can be in the
  file before it.
\<close>

theorem blocks_out_of_order:
  "\<exists>s. chain_step\<^sup>*\<^sup>* (initial_chain now [m, n]) s \<and> b_file s = lines [(n, now + 1, now + 2), (m, now, now + 1)]"
proof -
  let ?sch = "[Some 0, Some 0, Some 0, None, Some 0, Some 0, Some 1, Some 1, Some 1, None, Some 1, Some 1, Some 1, Some 0]"
  have "map_option b_file (run ?sch (initial_chain now [m, n])) = Some (lines [(n, now + 1, now + 2), (m, now, now + 1)])"
    by (simp add: initial_chain_def blockchain_work_def set_writer_def BLOCKCHAIN_WRITE_TIME_def)
  then obtain s where "run ?sch (initial_chain now [m, n]) = Some s" "b_file s = lines [(n, now + 1, now + 2), (m, now, now + 1)]"
    by (auto simp del: run.simps lines_simps)
  then show ?thesis using run_reaches by blast
qed



end
