(* ===== verification/Lifecycle.thy ===== *)
theory Lifecycle imports Threads Socket
begin

text \<open>
  Start and end of the server, \<^verbatim>\<open>poet_server.cpp\<close>: the construction and binding of its sockets, the
  configuration, the two calls of \<^verbatim>\<open>socket_listen\<close>, and the release of the global variables that \<^verbatim>\<open>main\<close>
  and the handler of \<^verbatim>\<open>SIGINT\<close> call. Results of system calls are arguments;
  the handler is taken to run while no thread holds a lock of the queues.
\<close>

section \<open>The program\<close>

text \<open>The sockets of the server and its secondary port are the objects 0 and 1.\<close>

record 'sock server_vars =
  sv_global :: "'sock global"
  sv_pool :: "'sock pool"
  sv_sockets :: sockets

definition server_socket :: nat where "server_socket = 0"
definition secondary_socket :: nat where "secondary_socket = 1"

definition global_variables_initialization ::
    "socket_t option \<Rightarrow> socket_t option \<Rightarrow> int \<Rightarrow> int \<Rightarrow> int \<Rightarrow> 'sock server_vars res" where
  "global_variables_initialization c1 c2 bind1 bind2 now = (case (c1, c2) of
       (Some s1, Some s2) \<Rightarrow>
         if socket_bind bind1 s1 \<noteq> 0 \<or> socket_bind bind2 s2 \<noteq> 0 then Inl Exited
         else rbind initial_pool (\<lambda>p.
              Inr \<lparr>sv_global = initial_global True now 0 0 0, sv_pool = p, sv_sockets = [server_socket \<mapsto> s1, secondary_socket \<mapsto> s2]\<rparr>)
     | _ \<Rightarrow> Inl Exited)"

definition global_variables_destruction :: "'sock server_vars \<Rightarrow> 'sock server_vars res" where
  "global_variables_destruction v =
     rbind (queue_destructor 0 (g_queue (sv_global v)) False) (\<lambda>(_, q).
     rbind (queue_destructor None (threads_queue (sv_pool v)) False) (\<lambda>(_, tq).
     rbind (socket_destructor server_socket (sv_sockets v)) (\<lambda>m.
     Inr \<lparr>sv_global = (sv_global v)\<lparr>g_queue := q\<rparr>, sv_pool = (sv_pool v)\<lparr>threads_queue := tq\<rparr>, sv_sockets = m\<rparr>)))"

definition listen_on :: "nat \<Rightarrow> int \<Rightarrow> 'sock server_vars \<Rightarrow> (bool \<times> 'sock server_vars) res" where
  "listen_on a listen v = (case sv_sockets v a of
       None \<Rightarrow> Inl Null_Deref
     | Some s \<Rightarrow> rbind (socket_listen listen (int MAX_THREADS) s) (\<lambda>(r, s').
         Inr (r = 0, v\<lparr>sv_sockets := (sv_sockets v)(a \<mapsto> s')\<rparr>)))"

text \<open>
  \<^verbatim>\<open>main\<close> up to its loop: the flag is false when it ends with \<^verbatim>\<open>EXIT_FAILURE\<close> after the release of the
  variables.
\<close>

definition server_start ::
    "socket_t option \<Rightarrow> socket_t option \<Rightarrow> int \<Rightarrow> int \<Rightarrow> int \<Rightarrow> size_t \<Rightarrow> size_t \<Rightarrow> uint \<Rightarrow> int \<Rightarrow> int \<Rightarrow> (bool \<times> 'sock server_vars) res" where
  "server_start c1 c2 bind1 bind2 now lower upper tiers listen1 listen2 =
     rbind (global_variables_initialization c1 c2 bind1 bind2 now) (\<lambda>v.
     case set_global_constants lower upper tiers (sv_global v) of
       None \<Rightarrow> Inl Exited
     | Some g \<Rightarrow>
         rbind (listen_on server_socket listen1 (v\<lparr>sv_global := g\<rparr>)) (\<lambda>(ok1, v1).
         if \<not> ok1 then rbind (global_variables_destruction v1) (\<lambda>v'. Inr (False, v'))
         else rbind (listen_on secondary_socket listen2 v1) (\<lambda>(ok2, v2).
              if \<not> ok2 then rbind (global_variables_destruction v2) (\<lambda>v'. Inr (False, v'))
              else Inr (True, v2))))"

text \<open>The handler of \<^verbatim>\<open>SIGINT\<close>; it ends the process.\<close>

definition signal_callback_handler :: "'sock server_vars \<Rightarrow> (int \<times> 'sock server_vars) res" where
  "signal_callback_handler v = rbind (global_variables_destruction v) (\<lambda>v'. Inr (2, v'))"

section \<open>Specification\<close>

text \<open>The invariant of the running server: registry, pool and an open socket at each port.\<close>

definition open_parent :: "socket_t \<Rightarrow> bool" where
  "open_parent s \<longleftrightarrow> is_parent s \<and> \<not> is_closed s \<and> (\<exists>xs. queue_rep (close_queue s) xs)"

definition running_ok :: "'sock server_vars \<Rightarrow> bool" where
  "running_ok v \<longleftrightarrow> (\<exists>xs. registry_ok (sv_global v) xs) \<and> pool_ok (sv_pool v)
     \<and> (\<exists>s. sv_sockets v server_socket = Some s \<and> open_parent s) \<and> (\<exists>s. sv_sockets v secondary_socket = Some s \<and> open_parent s)"

section \<open>Release\<close>

lemma destroy_parent:
  assumes "m a = Some s" and "open_parent s"
  shows "\<exists>m'. socket_destructor a m = Inr m' \<and> m' a = None \<and> (\<forall>b. b \<noteq> a \<longrightarrow> m' b = m b)"
proof -
  obtain xs where xs: "queue_rep (close_queue s) xs" using assms(2) by (auto simp: open_parent_def)
  obtain q where q: "queue_push (close_queue s) (socket_descriptor s) = Inr q" "queue_rep q (xs @ [socket_descriptor s])"
    using queue_rep_push [OF xs, of "socket_descriptor s" True True] by (auto simp: queue_push_def)
  have p: "parent_of m a = Inr a" using assms by (intro parent_self) (auto simp: open_parent_def)
  obtain r where "queue_destructor 0 q False = Inr r" using queue_rep_destructor [OF q(2), of 0 False] by blast
  with assms p q(1) show ?thesis by (simp add: socket_destructor_def socket_close_def open_parent_def Let_def)
qed

lemma destruction_run:
  assumes "running_ok v"
  shows "\<exists>v'. global_variables_destruction v = Inr v' \<and> queue_rep (g_queue (sv_global v')) [] \<and> free_threads (sv_pool v') []
    \<and> sv_sockets v' server_socket = None \<and> sv_sockets v' secondary_socket = sv_sockets v secondary_socket
    \<and> sgx_table (sv_global v') = sgx_table (sv_global v)"
proof -
  obtain xs where xs: "queue_rep (g_queue (sv_global v)) xs" using assms by (auto simp: running_ok_def registry_ok_def)
  obtain ts where ts: "queue_rep (threads_queue (sv_pool v)) (map Some ts)" using assms by (auto simp: running_ok_def pool_ok_def free_threads_def)
  obtain s where s: "sv_sockets v server_socket = Some s" "open_parent s" using assms by (auto simp: running_ok_def)
  show ?thesis using queue_rep_destructor [OF xs, of 0 False] queue_rep_destructor [OF ts, of None False] destroy_parent [of "sv_sockets v" server_socket s] s
    by (auto simp: global_variables_destruction_def free_threads_def server_socket_def secondary_socket_def)
qed

lemma constructed_open:
  assumes "socket_constructor alloc fd r1 r2 pton = Some s"
  shows "open_parent s"
  using assms fresh_queue_rep [of True] by (auto simp: socket_constructor_def open_parent_def split: prod.splits if_splits)

lemma listen_on_run:
  assumes "sv_sockets v a = Some s" and "open_parent s" and "listen = 0 \<or> listen = - 1"
  shows "\<exists>s'. listen_on a listen v = Inr (listen = 0, v\<lparr>sv_sockets := (sv_sockets v)(a \<mapsto> s')\<rparr>) \<and> open_parent s'"
proof (cases "listen = 0")
  case True
  then show ?thesis using assms
    by (intro exI [of _ "s\<lparr>max_connections := max 0 (min (int MAX_THREADS) FD_SETSIZE)\<rparr>"]) (simp add: listen_on_def socket_listen_def open_parent_def MAX_THREADS_def)
next
  case False
  then show ?thesis using assms by (intro exI [of _ s]) (simp add: listen_on_def socket_listen_def open_parent_def MAX_THREADS_def)
qed

section \<open>Properties\<close>

text \<open>
  C36. The server starts or stops cleanly: with sockets that could be created and bound and a
  configuration that is accepted, \<^verbatim>\<open>main\<close> reaches its loop in a state that satisfies the invariant of the
  running server when both ports can be listened on, and otherwise ends with failure after it has
  emptied both queues and released the main socket.
\<close>

theorem server_starts:
  fixes g :: "'sock global"
  assumes "socket_constructor True fd1 True True True = Some s1" and "socket_constructor True fd2 True True True = Some s2"
    and "set_global_constants lower upper tiers (initial_global True now 0 0 0) = Some g"
    and "listen1 = 0 \<or> listen1 = - 1" and "listen2 = 0 \<or> listen2 = - 1"
  shows "\<exists>v :: 'sock server_vars. server_start (Some s1) (Some s2) 0 0 now lower upper tiers listen1 listen2 = Inr (listen1 = 0 \<and> listen2 = 0, v)
    \<and> (if listen1 = 0 \<and> listen2 = 0 then running_ok v \<and> sv_global v = g
       else queue_rep (g_queue (sv_global v)) [] \<and> free_threads (sv_pool v) [] \<and> sv_sockets v server_socket = None)"
proof -
  have op: "open_parent s1" "open_parent s2" using assms(1,2) constructed_open by blast+
  obtain p :: "'sock pool" where p: "initial_pool = Inr p" "pool_ok p" using initial_pool_ok pool_reachable_ok [OF _ rtranclp.rtrancl_refl] by blast
  let ?m = "[server_socket \<mapsto> s1, secondary_socket \<mapsto> s2]" and ?g0 = "initial_global True now 0 0 0 :: 'sock global"
  have init: "global_variables_initialization (Some s1) (Some s2) 0 0 now = Inr \<lparr>sv_global = ?g0, sv_pool = p, sv_sockets = ?m\<rparr>"
    by (simp add: global_variables_initialization_def socket_bind_def) (subst p(1), simp)
  have reg: "registry_ok g []"
  proof -
    have "g = initial_global True now lower upper tiers" using assms(3) by (auto simp: set_global_constants_def initial_global_def split: if_splits)
    then show ?thesis by (simp add: initial_registry)
  qed
  let ?v = "\<lparr>sv_global = g, sv_pool = p, sv_sockets = ?m\<rparr>"
  have ad: "server_socket \<noteq> secondary_socket" by (simp add: server_socket_def secondary_socket_def)
  obtain s1' where l1: "listen_on server_socket listen1 ?v = Inr (listen1 = 0, ?v\<lparr>sv_sockets := ?m(server_socket \<mapsto> s1')\<rparr>)" "open_parent s1'"
    using listen_on_run [of ?v server_socket s1 listen1] op(1) assms(4) ad by auto
  let ?v1 = "?v\<lparr>sv_sockets := ?m(server_socket \<mapsto> s1')\<rparr>"
  obtain s2' where l2: "listen_on secondary_socket listen2 ?v1 = Inr (listen2 = 0, ?v1\<lparr>sv_sockets := (sv_sockets ?v1)(secondary_socket \<mapsto> s2')\<rparr>)" "open_parent s2'"
    using listen_on_run [of ?v1 secondary_socket s2 listen2] op(2) assms(5) ad by auto
  let ?v2 = "?v1\<lparr>sv_sockets := (sv_sockets ?v1)(secondary_socket \<mapsto> s2')\<rparr>"
  have ok: "running_ok ?v1" "running_ok ?v2" using reg p(2) l1(2) l2(2) op(2) ad by (auto simp: running_ok_def)
  show ?thesis
    using init assms(3) l1(1) l2(1) ok(2) destruction_run [OF ok(1)] destruction_run [OF ok(2)]
    by (cases "listen1 = 0"; cases "listen2 = 0") (auto simp: server_start_def)
qed

theorem server_starts_witness:
  "\<exists>s1 s2 (v :: nat server_vars). server_start (Some s1) (Some s2) 0 0 5 1 9 1 0 0 = Inr (True, v) \<and> running_ok v"
proof -
  obtain s1 s2 where "socket_constructor True 3 True True True = Some s1" "socket_constructor True 4 True True True = Some s2"
    by (simp add: socket_constructor_def create_primitive_socket_def)
  moreover have "set_global_constants 1 9 1 (initial_global True 5 0 0 0 :: nat global) = Some (initial_global True 5 1 9 1)"
    by (simp add: set_global_constants_def initial_global_def word_le_nat_alt word_less_nat_alt)
  ultimately show ?thesis using server_starts [of 3 s1 4 s2 1 9 1 5 "initial_global True 5 1 9 1 :: nat global" 0 0] by auto
qed



end
