(* ===== verification/Locks.thy ===== *)
theory Locks imports Machine
begin

text \<open>
  The functions of \<^verbatim>\<open>poet_shared_functions.cpp\<close> that take several locks at once:
  \<^verbatim>\<open>nmutex_locks\<close>, \<^verbatim>\<open>nmutex_unlocks\<close>, \<^verbatim>\<open>nrwlock_xlocks\<close>, \<^verbatim>\<open>nrwlock_timedxlocks\<close> and
  \<^verbatim>\<open>nrwlock_unlocks\<close>, and what happens when threads run them against each other. Locks are named
  by their addresses. The results of the \<^verbatim>\<open>pthread\<close> calls are arguments: \<open>es ! i\<close> is what the
  call for the \<open>i\<close>-th lock of the list returns.
\<close>

section \<open>Ordering the locks\<close>

definition comp_address :: "int \<Rightarrow> int \<Rightarrow> int" where
  "comp_address a b = (let c = a - b in if c > 0 then 1 else if c = 0 then 0 else - 1)"

text \<open>
  \<^verbatim>\<open>qsort\<close> of the C library on elements of eight bytes, a merge sort for arrays of this size: the
  comparison function gets the addresses of two array slots. \<open>b1\<close> and \<open>b2\<close> are the addresses of the
  first slots of the two runs.
\<close>

fun merge_slots :: "(int \<Rightarrow> int \<Rightarrow> int) \<Rightarrow> int \<Rightarrow> 'l list \<Rightarrow> int \<Rightarrow> 'l list \<Rightarrow> 'l list" where
  "merge_slots cmp b1 [] b2 ys = ys"
| "merge_slots cmp b1 xs b2 [] = xs"
| "merge_slots cmp b1 (x # xs) b2 (y # ys) =
     (if cmp b1 b2 \<le> 0 then x # merge_slots cmp (b1 + 8) xs b2 (y # ys)
      else y # merge_slots cmp b1 (x # xs) (b2 + 8) ys)"

fun qsort :: "(int \<Rightarrow> int \<Rightarrow> int) \<Rightarrow> int \<Rightarrow> 'l list \<Rightarrow> 'l list" where
  "qsort cmp b xs =
     (if length xs \<le> 1 then xs
      else let n = length xs div 2; b2 = b + 8 * int n in
           merge_slots cmp b (qsort cmp b (take n xs)) b2 (qsort cmp b2 (drop n xs)))"

section \<open>Taking and releasing locks\<close>

datatype 'l lock_call =
    Mutex_Lock 'l | Mutex_Unlock 'l
  | Rw_Rdlock 'l | Rw_Wrlock 'l | Rw_Timedrdlock 'l int | Rw_Timedwrlock 'l int | Rw_Unlock 'l

text \<open>
  The loop over the sorted list: whether all locks were taken, the value of \<^verbatim>\<open>i\<close> and of \<^verbatim>\<open>errv\<close> after
  the loop, and the calls made. \<open>ok\<close> says which results count as success, \<open>upd\<close> how the result
  changes \<^verbatim>\<open>errv\<close>.
\<close>

fun lock_loop ::
    "('l \<Rightarrow> nat \<Rightarrow> 'l lock_call) \<Rightarrow> (int \<Rightarrow> bool) \<Rightarrow> (int \<Rightarrow> int \<Rightarrow> int) \<Rightarrow> 'l list \<Rightarrow> (nat \<Rightarrow> int) \<Rightarrow> nat \<Rightarrow> int
      \<Rightarrow> bool \<times> nat \<times> int \<times> 'l lock_call list" where
  "lock_loop mk ok upd [] es i errv = (True, i, errv, [])"
| "lock_loop mk ok upd (l # ls) es i errv =
     (if ok (es i)
      then case lock_loop mk ok upd ls es (i + 1) (upd errv (es i)) of
             (locked, j, errv', cs) \<Rightarrow> (locked, j, errv', mk l i # cs)
      else (False, i + 1, upd errv (es i), [mk l i]))"

text \<open>The shared body: on failure \<^verbatim>\<open>i--\<close> and then one unlock per round down to \<^verbatim>\<open>i = 0\<close>.\<close>

definition nlocks ::
    "('l \<Rightarrow> nat \<Rightarrow> 'l lock_call) \<Rightarrow> ('l \<Rightarrow> 'l lock_call) \<Rightarrow> (int \<Rightarrow> bool) \<Rightarrow> (int \<Rightarrow> int \<Rightarrow> int)
      \<Rightarrow> bool \<Rightarrow> int \<Rightarrow> 'l list \<Rightarrow> (nat \<Rightarrow> int) \<Rightarrow> int \<Rightarrow> (bool \<times> int \<times> 'l lock_call list) res" where
  "nlocks mk unmk ok upd alloc base locks es errno =
     rbind (assertc (locks \<noteq> [])) (\<lambda>_.
     if \<not> alloc then Inr (False, errno, [])
     else let locks_list = qsort comp_address base locks in
          case lock_loop mk ok upd locks_list es 0 errno of
            (locked, i, errv, calls) \<Rightarrow>
              Inr (locked, errv,
                   if locked then calls else calls @ map (\<lambda>k. unmk (locks_list ! k)) (rev [0..<i])))"

definition EDEADLK :: int where "EDEADLK = 35"

definition nmutex_locks ::
    "bool \<Rightarrow> int \<Rightarrow> 'l list \<Rightarrow> (nat \<Rightarrow> int) \<Rightarrow> int \<Rightarrow> (bool \<times> int \<times> 'l lock_call list) res" where
  "nmutex_locks = nlocks (\<lambda>l i. Mutex_Lock l) Mutex_Unlock (\<lambda>e. e = 0) (\<lambda>errv e. errv)"

definition nrwlock_xlocks ::
    "bool \<Rightarrow> bool \<Rightarrow> int \<Rightarrow> 'l list \<Rightarrow> (nat \<Rightarrow> int) \<Rightarrow> int \<Rightarrow> (bool \<times> int \<times> 'l lock_call list) res" where
  "nrwlock_xlocks rw = nlocks (\<lambda>l i. if rw then Rw_Wrlock l else Rw_Rdlock l) Rw_Unlock
     (\<lambda>e. e = 0 \<or> e = EDEADLK) (\<lambda>errv e. e)"

text \<open>\<open>now i\<close> is the time before the attempt on the \<open>i\<close>-th lock.\<close>

definition nrwlock_timedxlocks ::
    "bool \<Rightarrow> int \<Rightarrow> (nat \<Rightarrow> int) \<Rightarrow> bool \<Rightarrow> int \<Rightarrow> 'l list \<Rightarrow> (nat \<Rightarrow> int) \<Rightarrow> int
      \<Rightarrow> (bool \<times> int \<times> 'l lock_call list) res" where
  "nrwlock_timedxlocks rw wait_time now =
     nlocks (\<lambda>l i. if rw then Rw_Timedwrlock l (wait_time + now i) else Rw_Timedrdlock l (wait_time + now i))
       Rw_Unlock (\<lambda>e. e = 0 \<or> e = EDEADLK) (\<lambda>errv e. e)"

definition nunlocks ::
    "('l \<Rightarrow> 'l lock_call) \<Rightarrow> bool \<Rightarrow> int \<Rightarrow> 'l list \<Rightarrow> (nat \<Rightarrow> int) \<Rightarrow> int \<Rightarrow> (bool \<times> int \<times> 'l lock_call list) res" where
  "nunlocks unmk alloc base locks es errno =
     rbind (assertc (locks \<noteq> [])) (\<lambda>_.
     if \<not> alloc then Inr (False, errno, [])
     else let locks_list = qsort comp_address base locks; is = rev [0..<length locks] in
          Inr (list_all (\<lambda>i. es i = 0) is, fold (\<lambda>i errv. max errv (es i)) is 0,
               map (\<lambda>i. unmk (locks_list ! i)) is))"

definition nmutex_unlocks ::
    "bool \<Rightarrow> int \<Rightarrow> 'l list \<Rightarrow> (nat \<Rightarrow> int) \<Rightarrow> int \<Rightarrow> (bool \<times> int \<times> 'l lock_call list) res" where
  "nmutex_unlocks = nunlocks Mutex_Unlock"

definition nrwlock_unlocks ::
    "bool \<Rightarrow> int \<Rightarrow> 'l list \<Rightarrow> (nat \<Rightarrow> int) \<Rightarrow> int \<Rightarrow> (bool \<times> int \<times> 'l lock_call list) res" where
  "nrwlock_unlocks = nunlocks Rw_Unlock"

section \<open>The macros\<close>

text \<open>
  \<^verbatim>\<open>PP_NARG\<close> puts the numbers from 63 down to 0 behind the arguments of a macro and selects the 64th item.
  An item is an argument of the caller or one of the numbers.
\<close>

datatype 'a item = Arg 'a | Number nat

definition PP_RSEQ_N :: "'a item list" where
  "PP_RSEQ_N = map Number (rev [0..<64])"

definition PP_ARG_N :: "'a item list \<Rightarrow> 'a item" where
  "PP_ARG_N items = items ! 63"

definition PP_NARG :: "'a list \<Rightarrow> 'a item" where
  "PP_NARG args = PP_ARG_N (map Arg args @ PP_RSEQ_N)"

text \<open>The call of a function that reads as many of its arguments as its count says.\<close>

definition with_count :: "nat \<Rightarrow> 'a item \<Rightarrow> 'l list \<Rightarrow> ('l list \<Rightarrow> 'r res) \<Rightarrow> 'r res" where
  "with_count extra count locks f = (case count of
       Arg _ \<Rightarrow> Inl Bad_Conversion
     | Number n \<Rightarrow> if n - extra \<le> length locks then f (take (n - extra) locks) else Inl Out_Of_Range)"

definition mutex_locks ::
    "bool \<Rightarrow> int \<Rightarrow> 'l list \<Rightarrow> (nat \<Rightarrow> int) \<Rightarrow> int \<Rightarrow> (bool \<times> int \<times> 'l lock_call list) res" where
  "mutex_locks alloc base args es errno = with_count 0 (PP_NARG args) args (\<lambda>ls. nmutex_locks alloc base ls es errno)"

definition mutex_unlocks ::
    "bool \<Rightarrow> int \<Rightarrow> 'l list \<Rightarrow> (nat \<Rightarrow> int) \<Rightarrow> int \<Rightarrow> (bool \<times> int \<times> 'l lock_call list) res" where
  "mutex_unlocks alloc base args es errno = with_count 0 (PP_NARG args) args (\<lambda>ls. nmutex_unlocks alloc base ls es errno)"

text \<open>\<open>rw\<close> tells \<^verbatim>\<open>rwlock_rwlocks\<close> from \<^verbatim>\<open>rwlock_rdlocks\<close>.\<close>

definition rwlock_locks ::
    "bool \<Rightarrow> bool \<Rightarrow> int \<Rightarrow> 'l list \<Rightarrow> (nat \<Rightarrow> int) \<Rightarrow> int \<Rightarrow> (bool \<times> int \<times> 'l lock_call list) res" where
  "rwlock_locks rw alloc base args es errno = with_count 0 (PP_NARG args) args (\<lambda>ls. nrwlock_xlocks rw alloc base ls es errno)"

definition rwlock_unlocks ::
    "bool \<Rightarrow> int \<Rightarrow> 'l list \<Rightarrow> (nat \<Rightarrow> int) \<Rightarrow> int \<Rightarrow> (bool \<times> int \<times> 'l lock_call list) res" where
  "rwlock_unlocks alloc base args es errno = with_count 0 (PP_NARG args) args (\<lambda>ls. nrwlock_unlocks alloc base ls es errno)"

text \<open>The timeout is the first argument and is not counted as a lock.\<close>

definition rwlock_timedlocks ::
    "bool \<Rightarrow> int \<Rightarrow> (nat \<Rightarrow> int) \<Rightarrow> bool \<Rightarrow> int \<Rightarrow> 'l list \<Rightarrow> (nat \<Rightarrow> int) \<Rightarrow> int \<Rightarrow> (bool \<times> int \<times> 'l lock_call list) res" where
  "rwlock_timedlocks rw wait_time now alloc base locks es errno =
     with_count 1 (PP_NARG (None # map Some locks)) locks (\<lambda>ls. nrwlock_timedxlocks rw wait_time now alloc base ls es errno)"

section \<open>Threads\<close>

text \<open>
  Threads that each run one \<^verbatim>\<open>nmutex_locks\<close>, some work and the matching \<^verbatim>\<open>nmutex_unlocks\<close>: the locks
  a thread holds and the locks it still has to take, in the order of its calls. A mutex is taken
  only when no thread holds it.
\<close>

type_synonym 'l lthread = "'l list \<times> 'l list"

inductive lstep :: "'l lthread list \<Rightarrow> 'l lthread list \<Rightarrow> bool" where
  acquire: "i < length ts \<Longrightarrow> ts ! i = (held, l # todo) \<Longrightarrow> \<forall>t \<in> set ts. l \<notin> set (fst t)
     \<Longrightarrow> lstep ts (ts[i := (held @ [l], todo)])"
| release: "i < length ts \<Longrightarrow> ts ! i = (held, []) \<Longrightarrow> held \<noteq> [] \<Longrightarrow> lstep ts (ts[i := ([], [])])"

definition unfinished :: "'l lthread list \<Rightarrow> bool" where
  "unfinished ts \<longleftrightarrow> list_ex (\<lambda>t. snd t \<noteq> []) ts"

definition deadlocked :: "'l lthread list \<Rightarrow> bool" where
  "deadlocked ts \<longleftrightarrow> unfinished ts \<and> (\<forall>ts'. \<not> lstep ts ts')"

text \<open>The thread that calls \<^verbatim>\<open>mutex_locks\<close> with the given arguments; \<open>base\<close> is its \<^verbatim>\<open>locks_list\<close>.\<close>

definition locker :: "int \<Rightarrow> 'l list \<Rightarrow> 'l lthread" where
  "locker base locks = ([], qsort comp_address base locks)"

text \<open>Every thread holds a prefix of an ascending list, and no mutex is held twice.\<close>

definition ascending :: "'l :: linorder lthread list \<Rightarrow> bool" where
  "ascending ts \<longleftrightarrow> list_all (\<lambda>t. sorted_wrt (<) (fst t @ snd t)) ts"

section \<open>The comparison looks at slots, not at locks\<close>

lemma merge_slots_id:
  "b1 + 8 * int (length xs) \<le> b2 \<Longrightarrow> merge_slots comp_address b1 xs b2 ys = xs @ ys"
proof (induction comp_address b1 xs b2 ys rule: merge_slots.induct)
  case (3 b1 x xs b2 y ys)
  then show ?case by (simp add: comp_address_def Let_def)
qed simp_all

lemma qsort_id: "qsort comp_address b xs = xs"
proof (induction comp_address b xs rule: qsort.induct)
  case (1 b xs)
  show ?case
  proof (cases "length xs \<le> 1")
    case False
    then show ?thesis
      using 1 [OF False refl refl] by (subst qsort.simps) (simp add: Let_def merge_slots_id del: qsort.simps)
  qed simp
qed

section \<open>The loops\<close>

lemma lock_loop_all:
  "(\<And>k. k < length ls \<Longrightarrow> ok (es (i + k))) \<Longrightarrow>
     \<exists>e. lock_loop (\<lambda>l i. mk l) ok upd ls es i errv = (True, i + length ls, e, map mk ls)
       \<and> ((\<forall>a b. upd a b = a) \<longrightarrow> e = errv)"
proof (induction ls arbitrary: i errv)
  case (Cons l ls)
  have "ok (es (i + 1 + k))" if "k < length ls" for k using Cons.prems [of "Suc k"] that by simp
  moreover have "ok (es i)" using Cons.prems [of 0] by simp
  ultimately show ?case using Cons.IH [of "i + 1" "upd errv (es i)"] by auto
qed simp

lemma lock_loop_fails:
  "k < length ls \<Longrightarrow> (\<And>j. j < k \<Longrightarrow> ok (es (i + j))) \<Longrightarrow> \<not> ok (es (i + k)) \<Longrightarrow>
     \<exists>e. lock_loop (\<lambda>l i. mk l) ok upd ls es i errv = (False, i + k + 1, e, map mk (take (Suc k) ls))
       \<and> ((\<forall>a b. upd a b = a) \<longrightarrow> e = errv)"
proof (induction ls arbitrary: i k errv)
  case (Cons l ls)
  show ?case
  proof (cases k)
    case 0
    with Cons.prems show ?thesis by auto
  next
    case (Suc m)
    have "ok (es (i + 1 + j))" if "j < m" for j using Cons.prems(2) [of "Suc j"] that Suc by simp
    moreover have "ok (es i)" using Cons.prems(2) [of 0] Suc by simp
    ultimately show ?thesis
      using Cons.IH [of m "i + 1" "upd errv (es i)"] Cons.prems(1,3) Suc by auto
  qed
qed simp

lemma map_nth_rev: "n \<le> length ls \<Longrightarrow> map (\<lambda>k. f (ls ! k)) (rev [0..<n]) = map f (rev (take n ls))"
proof -
  assume "n \<le> length ls"
  then have "map (\<lambda>k. f (ls ! k)) [0..<n] = map f (take n ls)" by (intro nth_equalityI) auto
  then show ?thesis by (metis rev_map)
qed

section \<open>Threads in ascending order\<close>

lemma ascending_step: "lstep ts ts' \<Longrightarrow> ascending ts \<Longrightarrow> ascending ts'"
proof (induction rule: lstep.induct)
  case (acquire i ts held l todo)
  then have "sorted_wrt (<) (held @ l # todo)" by (metis ascending_def fst_conv list_all_length snd_conv)
  then have "sorted_wrt (<) (fst (held @ [l], todo) @ snd (held @ [l], todo))" by simp
  with acquire show ?case by (auto simp: ascending_def list_all_length nth_list_update simp del: fst_conv snd_conv)
next
  case (release i ts held)
  then show ?case by (auto simp: ascending_def list_all_length nth_list_update)
qed

interpretation ordered: machine lstep ascending
  by unfold_locales (rule ascending_step)

lemma ascending_not_deadlocked:
  assumes "ascending ts"
  shows "\<not> deadlocked ts"
proof
  assume dead: "deadlocked ts"
  let ?next = "(\<lambda>t. hd (snd t)) ` {t \<in> set ts. snd t \<noteq> []}"
  have ne: "?next \<noteq> {}" using dead unfolding deadlocked_def unfinished_def list_ex_iff by blast
  have fin: "finite ?next" by simp
  define m where "m = Max ?next"
  from Max_in [OF fin ne] obtain t where t: "t \<in> set ts" "snd t \<noteq> []" "hd (snd t) = m" by (auto simp: m_def)
  then obtain i where i: "i < length ts" "ts ! i = (fst t, m # tl (snd t))" by (metis in_set_conv_nth list.collapse prod.collapse)
  have "\<not> (\<forall>t \<in> set ts. m \<notin> set (fst t))" using lstep.acquire [OF i] dead by (auto simp: deadlocked_def)
  then obtain u where u: "u \<in> set ts" "m \<in> set (fst u)" by blast
  then obtain j where j: "j < length ts" "ts ! j = (fst u, snd u)" by (metis in_set_conv_nth prod.collapse)
  show False
  proof (cases "snd u")
    case Nil
    moreover have "fst u \<noteq> []" using u(2) by auto
    ultimately show False using lstep.release [OF j(1), of "fst u"] j(2) dead by (simp add: deadlocked_def)
  next
    case (Cons l ls)
    have "sorted_wrt (<) (fst u @ snd u)" using assms u(1) by (simp add: ascending_def list_all_iff)
    then have "m < l" using u(2) Cons by (simp add: sorted_wrt_append)
    moreover have "l \<le> m" unfolding m_def using fin u(1) Cons by (intro Max_ge) (auto intro!: rev_image_eqI [of u])
    ultimately show False by simp
  qed
qed

section \<open>Properties\<close>

text \<open>
  When the \<open>k\<close>-th mutex cannot be taken, \<^verbatim>\<open>nmutex_locks\<close> reports failure, but its clean-up starts at
  that mutex: it unlocks one it does not hold (and which another thread may hold), then the ones it took.
\<close>

theorem nmutex_locks_failure:
  assumes "k < length locks" and "\<And>j. j < k \<Longrightarrow> es j = 0" and "es k \<noteq> 0"
  shows "nmutex_locks True base locks es errno = Inr (False, errno,
    map Mutex_Lock (take (Suc k) locks) @ Mutex_Unlock (locks ! k) # map Mutex_Unlock (rev (take k locks)))"
proof -
  have "locks \<noteq> []" using assms(1) by auto
  have rev: "rev (take (Suc k) locks) = locks ! k # rev (take k locks)"
    using assms(1) by (simp add: take_Suc_conv_app_nth)
  show ?thesis
    using \<open>locks \<noteq> []\<close> assms(1) map_nth_rev [of "Suc k" locks Mutex_Unlock]
      lock_loop_fails [of k locks "\<lambda>e. e = 0" es 0 Mutex_Lock "\<lambda>errv e. errv" errno] assms(2,3)
    by (auto simp: nmutex_locks_def nlocks_def Let_def qsort_id rev simp del: qsort.simps upt_Suc)
qed

theorem nmutex_locks_failure_witness:
  "nmutex_locks True 0 [10, 20 :: int] (\<lambda>i. if i = 0 then 0 else 22) 0 =
     Inr (False, 0, [Mutex_Lock 10, Mutex_Lock 20, Mutex_Unlock 20, Mutex_Unlock 10])"
  using nmutex_locks_failure [of 1 "[10, 20]" "\<lambda>i. if i = 0 then 0 else 22" 0 0] by simp

lemma nmutex_locks_unlocks:
  assumes "locks \<noteq> []" and "\<And>j. es j = 0"
  shows "nmutex_locks True base locks es errno = Inr (True, errno, map Mutex_Lock locks)
     \<and> nmutex_unlocks True base' locks es errno' = Inr (True, 0, map Mutex_Unlock (rev locks))"
proof
  show "nmutex_locks True base locks es errno = Inr (True, errno, map Mutex_Lock locks)"
    using assms lock_loop_all [of locks "\<lambda>e. e = 0" es 0 Mutex_Lock "\<lambda>errv e. errv" errno]
    by (auto simp: nmutex_locks_def nlocks_def Let_def qsort_id simp del: qsort.simps)
  have "fold (\<lambda>i errv. max errv (es i)) is 0 = 0" for "is" using assms(2) by (induction "is") auto
  then show "nmutex_unlocks True base' locks es errno' = Inr (True, 0, map Mutex_Unlock (rev locks))"
    using assms map_nth_rev [of "length locks" locks Mutex_Unlock]
    by (simp add: nmutex_unlocks_def nunlocks_def Let_def qsort_id list_all_iff del: qsort.simps)
qed

lemma PP_NARG_counts: "length args \<le> 63 \<Longrightarrow> PP_NARG args = Number (length args)"
  by (simp add: PP_NARG_def PP_ARG_N_def PP_RSEQ_N_def nth_append rev_nth del: upt_conv_Cons)

text \<open>
  The macros \<^verbatim>\<open>mutex_locks\<close> and \<^verbatim>\<open>mutex_unlocks\<close> work for up to 63 mutexes: they count their arguments,
  and when every call succeeds, the first takes the mutexes in the order of its arguments (the
  comparison function sorts array slots, not lock addresses) and the second with the same arguments
  releases each of them once, in the opposite order.
\<close>

theorem mutex_locks_unlocks:
  assumes "locks \<noteq> []" and "length locks \<le> 63" and "\<And>j. es j = 0"
  shows "mutex_locks True base locks es errno = Inr (True, errno, map Mutex_Lock locks)
     \<and> mutex_unlocks True base' locks es errno' = Inr (True, 0, map Mutex_Unlock (rev locks))"
  using nmutex_locks_unlocks [OF assms(1,3)] PP_NARG_counts [OF assms(2)] by (simp add: mutex_locks_def mutex_unlocks_def with_count_def)

theorem mutex_locks_unlocks_witness:
  "mutex_locks True 64 [30, 10 :: int] (\<lambda>_. 0) 0 = Inr (True, 0, [Mutex_Lock 30, Mutex_Lock 10])
   \<and> mutex_unlocks True 96 [30, 10 :: int] (\<lambda>_. 0) 0 = Inr (True, 0, [Mutex_Unlock 10, Mutex_Unlock 30])"
  using mutex_locks_unlocks [of "[30, 10]" "\<lambda>_. 0" 64 0 96 0] by simp

text \<open>The timed macros pass the number of their locks without the timeout.\<close>

lemma rwlock_timedlocks_counts:
  "length locks \<le> 62 \<Longrightarrow> rwlock_timedlocks rw wait_time now alloc base locks es errno = nrwlock_timedxlocks rw wait_time now alloc base locks es errno"
  using PP_NARG_counts [of "None # map Some locks"] by (simp add: rwlock_timedlocks_def with_count_def)

text \<open>With more than 63 arguments the 64th is taken for their number.\<close>

lemma PP_NARG_too_many: "63 < length args \<Longrightarrow> PP_NARG args = Arg (args ! 63)"
  by (simp add: PP_NARG_def PP_ARG_N_def nth_append)

text \<open>
  Two threads that pass the same two mutexes in opposite orders, the orders of
  \<^verbatim>\<open>test_locks_methods\<close>, can deadlock when they start at the same time: the sorting step that should rule this out leaves both lists as they are.
\<close>

theorem opposite_orders_deadlock:
  assumes "a \<noteq> b"
  shows "\<exists>ts. lstep\<^sup>*\<^sup>* [locker b1 [a, b], locker b2 [b, a]] ts \<and> deadlocked ts"
proof (intro exI conjI)
  let ?s0 = "[([], [a, b]), ([], [b, a])]" and ?s1 = "[([a], [b]), ([], [b, a])]" and ?s2 = "[([a], [b]), ([b], [a])]"
  have "lstep ?s0 ?s1" using lstep.acquire [of 0 ?s0 "[]" a "[b]"] by simp
  moreover have "lstep ?s1 ?s2" using lstep.acquire [of 1 ?s1 "[]" b "[a]"] assms by simp
  ultimately show "lstep\<^sup>*\<^sup>* [locker b1 [a, b], locker b2 [b, a]] ?s2"
    by (simp add: locker_def qsort_id del: qsort.simps)
  show "deadlocked ?s2"
    by (auto simp: deadlocked_def unfinished_def elim!: lstep.cases simp: less_Suc_eq)
qed

theorem opposite_orders_deadlock_witness:
  "\<exists>ts. lstep\<^sup>*\<^sup>* [locker 0 [1, 2 :: int], locker 64 [2, 1]] ts \<and> deadlocked ts"
  by (rule opposite_orders_deadlock) simp



end
