(* ===== verification/Methods_Test.thy ===== *)
theory Methods_Test imports Locks Leadership
begin

text \<open>
  The program \<^verbatim>\<open>poet_methods_test.cpp\<close>: the test of the leadership time, which fails its assertion, and
  the test of the lock macros, whose two threads the model interleaves.
\<close>

section \<open>The test of the leadership time\<close>

definition test_leadership_time :: "unit res option" where
  "test_leadership_time = map_option (\<lambda>r. rbind r (\<lambda>time. assertc (time = 25)))
     (calc_leadership_time test_queue test_table (test_table ! 3) 2 10 0)"

section \<open>The test of the locks\<close>

text \<open>
  \<^verbatim>\<open>mutex_locks\<close> waits in \<^verbatim>\<open>pthread_mutex_lock\<close> until each mutex is free, so its calls succeed; when they
  take place is up to the interleaving below. A thread is the list of the operations it has still to do.
\<close>

datatype test_mutex = Lock1 | Lock2

datatype test_op = Calls "test_mutex lock_call" | Create | Join

definition test_thread_locks :: "int \<Rightarrow> test_op list res" where
  "test_thread_locks base =
     rbind (mutex_locks True base [Lock1, Lock2] (\<lambda>_. 0) 0) (\<lambda>(ok, _, taken).
     rbind (assertc ok) (\<lambda>_.
     rbind (mutex_unlocks True base [Lock2, Lock1] (\<lambda>_. 0) 0) (\<lambda>(_, _, released).
     Inr (map Calls (taken @ released)))))"

definition test_locks_methods :: "int \<Rightarrow> test_op list res" where
  "test_locks_methods base =
     rbind (mutex_locks True base [Lock2, Lock1] (\<lambda>_. 0) 0) (\<lambda>(ok, _, taken).
     rbind (assertc ok) (\<lambda>_.
     rbind (mutex_unlocks True base [Lock1, Lock2] (\<lambda>_. 0) 0) (\<lambda>(_, _, released).
     Inr (map Calls taken @ [Create] @ map Calls released @ [Join]))))"

text \<open>What the main thread and the other one, once it is created, have to do, and the mutexes each holds.\<close>

record test_state =
  t_main :: "test_op list"
  t_thread :: "test_op list option"
  t_main_held :: "test_mutex list"
  t_thread_held :: "test_mutex list"

text \<open>A call of a thread with the mutexes \<open>own\<close> beside one with \<open>other\<close>; \<open>None\<close> when it has to wait.\<close>

fun run_call :: "test_mutex lock_call \<Rightarrow> test_mutex list \<Rightarrow> test_mutex list \<Rightarrow> test_mutex list option" where
  "run_call (Mutex_Lock l) own other = (if l \<in> set own \<or> l \<in> set other then None else Some (own @ [l]))"
| "run_call (Mutex_Unlock l) own other = Some (remove1 l own)"
| "run_call _ own other = None"

definition main_moves :: "test_op list \<Rightarrow> test_state \<Rightarrow> test_state list" where
  "main_moves thread s = (case t_main s of
       Calls c # ops \<Rightarrow> (case run_call c (t_main_held s) (t_thread_held s) of None \<Rightarrow> [] | Some held \<Rightarrow> [s\<lparr>t_main := ops, t_main_held := held\<rparr>])
     | Create # ops \<Rightarrow> [s\<lparr>t_main := ops, t_thread := Some thread\<rparr>]
     | Join # ops \<Rightarrow> (if t_thread s = Some [] then [s\<lparr>t_main := ops\<rparr>] else [])
     | [] \<Rightarrow> [])"

definition thread_moves :: "test_state \<Rightarrow> test_state list" where
  "thread_moves s = (case t_thread s of
       Some (Calls c # ops) \<Rightarrow> (case run_call c (t_thread_held s) (t_main_held s) of None \<Rightarrow> [] | Some held \<Rightarrow> [s\<lparr>t_thread := Some ops, t_thread_held := held\<rparr>])
     | _ \<Rightarrow> [])"

definition test_step :: "test_op list \<Rightarrow> test_state \<Rightarrow> test_state \<Rightarrow> bool" where
  "test_step thread s s' \<longleftrightarrow> s' \<in> set (main_moves thread s @ thread_moves s)"

definition test_start :: "test_op list \<Rightarrow> test_state" where
  "test_start main = \<lparr>t_main = main, t_thread = None, t_main_held = [], t_thread_held = []\<rparr>"

definition test_end :: test_state where
  "test_end = \<lparr>t_main = [], t_thread = Some [], t_main_held = [], t_thread_held = []\<rparr>"

text \<open>A sequence of states in which every state has exactly the next one as its successor.\<close>

fun forced :: "test_op list \<Rightarrow> test_state list \<Rightarrow> bool" where
  "forced thread [] = False"
| "forced thread [s] = (main_moves thread s @ thread_moves s = [])"
| "forced thread (s # s' # ss) = (main_moves thread s @ thread_moves s = [s'] \<and> forced thread (s' # ss))"

fun follow :: "test_op list \<Rightarrow> nat \<Rightarrow> test_state \<Rightarrow> test_state list" where
  "follow thread 0 s = [s]"
| "follow thread (Suc n) s = s # (case main_moves thread s @ thread_moves s of s' # _ \<Rightarrow> follow thread n s' | [] \<Rightarrow> [])"

section \<open>The programs of the two threads\<close>

lemma test_programs:
  "test_thread_locks base = Inr (map Calls [Mutex_Lock Lock1, Mutex_Lock Lock2, Mutex_Unlock Lock1, Mutex_Unlock Lock2])"
  "test_locks_methods base = Inr (map Calls [Mutex_Lock Lock2, Mutex_Lock Lock1] @ [Create] @ map Calls [Mutex_Unlock Lock2, Mutex_Unlock Lock1] @ [Join])"
  using nmutex_locks_unlocks [of "[Lock1, Lock2]" "\<lambda>_. 0" base 0 base 0] nmutex_locks_unlocks [of "[Lock2, Lock1]" "\<lambda>_. 0" base 0 base 0]
  by (simp_all add: test_thread_locks_def test_locks_methods_def mutex_locks_def mutex_unlocks_def PP_NARG_counts with_count_def)

lemma forced_step: "forced thread (s # s' # ss) \<Longrightarrow> test_step thread s t = (t = s')"
  by (simp only: test_step_def forced.simps) simp

lemma forced_reaches: "forced thread (s # ss) \<Longrightarrow> (test_step thread)\<^sup>*\<^sup>* s (last (s # ss))"
proof (induction ss arbitrary: s)
  case (Cons s' ss)
  then have "test_step thread s s'" "(test_step thread)\<^sup>*\<^sup>* s' (last (s' # ss))" using forced_step [of thread s s' ss s'] by auto
  then show ?case by (simp add: converse_rtranclp_into_rtranclp)
qed simp

lemma forced_run: "forced thread (s # ss) \<Longrightarrow> (test_step thread)\<^sup>*\<^sup>* s t \<Longrightarrow> (test_step thread)\<^sup>*\<^sup>* t (last (s # ss))"
proof (induction ss arbitrary: s)
  case Nil
  then have "t = s" by (auto simp: test_step_def elim: converse_rtranclpE)
  then show ?case by simp
next
  case (Cons s' ss)
  from Cons.prems(2) show ?case
  proof (cases rule: converse_rtranclpE)
    case base
    then show ?thesis using forced_reaches [OF Cons.prems(1)] by simp
  next
    case (step u)
    then have "u = s'" using forced_step [OF Cons.prems(1)] by simp
    then show ?thesis using Cons step(2) by auto
  qed
qed

section \<open>Properties\<close>

text \<open>
  The unit test: its first part fails the assertion, so that the program ends before the second. Run on
  its own, the second cannot deadlock although its threads take the two mutexes in opposite orders,
  since the other thread is created only after the main thread holds both: from every state it can
  reach it gets to its end, with both mutexes free.
\<close>

theorem unit_test_outcome:
  "test_leadership_time = Some (Inl Assertion_Failed)
   \<and> (\<exists>main thread. test_locks_methods base = Inr main \<and> test_thread_locks base' = Inr thread
        \<and> (\<forall>s. (test_step thread)\<^sup>*\<^sup>* (test_start main) s \<longrightarrow> (test_step thread)\<^sup>*\<^sup>* s test_end))"
proof -
  let ?main = "map Calls [Mutex_Lock Lock2, Mutex_Lock Lock1] @ [Create] @ map Calls [Mutex_Unlock Lock2, Mutex_Unlock Lock1] @ [Join]"
    and ?thread = "map Calls [Mutex_Lock Lock1, Mutex_Lock Lock2, Mutex_Unlock Lock1, Mutex_Unlock Lock2]"
  let ?path = "follow ?thread 10 (test_start ?main)"
  have path: "forced ?thread ?path" "last ?path = test_end" by code_simp+
  moreover have "?path = test_start ?main # tl ?path" by (simp add: eval_nat_numeral)
  ultimately have "(test_step ?thread)\<^sup>*\<^sup>* s test_end" if "(test_step ?thread)\<^sup>*\<^sup>* (test_start ?main) s" for s
    using forced_run [of ?thread "test_start ?main" "tl ?path" s] that by simp
  moreover have "test_leadership_time = Some (Inl Assertion_Failed)"
    using calc_leadership_time_unit_test by (simp add: test_leadership_time_def)
  ultimately show ?thesis using test_programs by blast
qed

end
