(* ===== verification/Spec2Isabelle.thy ===== *)
theory Spec2Isabelle imports Simulation Rejoin Election Notifier Output Channel Blockchain Lifecycle Methods_Test
begin

text \<open>
  Verification of PoQ, a proof-of-elapsed-time network with quantum times: a server that registers
  nodes and keeps their SGX times in a table and their order in a queue, and participants that
  compute from a copy of both when they may write a block.

  \<^bold>\<open>The parts and how they interact.\<close> A participant (\<^verbatim>\<open>poet_client/poet_client.cpp\<close>) connects
  to the server (\<^verbatim>\<open>poet_server.cpp\<close>), registers a key, gets an id and the network's parameters, draws
  a time and announces it. A thread of the server's pool serves each connection: it reads JSON
  messages and calls a handler of \<^verbatim>\<open>poet_server_functions.cpp\<close>, which changes the table and the
  queue. A change wakes the notification thread, which sends both to all secondary sockets. A
  notified participant runs the look-ahead of \<^verbatim>\<open>poet_shared_functions.cpp\<close>, sleeps until its
  leadership, and on the way reports to the server that its time is not used up, so that the server
  moves it to the back of the queue. A leader writes a block into a file that it locks
  (\<^verbatim>\<open>blockchain_work\<close>) and joins again with a new time. Times are drawn in an enclave
  (\<^verbatim>\<open>poet_client/enclave_helper.c\<close>, \<^verbatim>\<open>enclave.c\<close>). \<^verbatim>\<open>POET++.cpp\<close> is a simulation of such a network in
  one process, with its own scheduler on the same queue. Below that lie a linked queue (\<^verbatim>\<open>queue_t.c\<close>), sockets that
  frame messages (\<^verbatim>\<open>socket_t.c\<close>), helpers for several locks, and text encodings.

  \<^bold>\<open>Theories.\<close>
    \<^item> \<open>Prelude\<close>: faults as values, the result type, machine integers, shared facts.
    \<^item> \<open>Machine\<close>: the locales \<open>machine\<close> and \<open>framed_machine\<close>, step relations that keep an invariant;
      interpreted for lock takers (\<open>Locks\<close>), the thread pool (\<open>Threads\<close>), the server (\<open>Server\<close>), the
      server with its notification thread (\<open>Notifier\<close>) and the writers of the block file (\<open>Blockchain\<close>).
    \<^item> \<open>Fifo\<close>: the locale \<open>fifo\<close>, the interface of a queue to its clients.
    \<^item> \<open>Queue\<close>: \<^verbatim>\<open>queue_t.c\<close> over a heap whose freed cells are known. \<open>queue_rep q xs\<close> relates the
      object to a list; every operation refines a list operation; the interpretation \<open>linked\<close>
      discharges the laws of \<open>fifo\<close> for the C functions.
    \<^item> \<open>Float32\<close>: \<^verbatim>\<open>float\<close> as rational numbers with rounding to 24 bits.
    \<^item> \<open>Quantum\<close>, \<open>Leadership\<close>: \<^verbatim>\<open>calc_tier_number\<close>, \<^verbatim>\<open>calc_quantum_times\<close>, \<^verbatim>\<open>calc_leadership_time\<close>,
      \<^verbatim>\<open>calc_notification_times\<close> and \<^verbatim>\<open>calc_starting_time\<close>. The floating-point results are equal to
      integer formulas, the loops end, no assertion fails, the results are bounded and ordered.
    \<^item> \<open>Election\<close>: the leadership times of different nodes, compared: one leader at a time with equal
      quanta, and two leaders in one second without.
    \<^item> \<open>Json\<close>: \<^verbatim>\<open>check_json_compliance\<close>, \<^verbatim>\<open>find_value\<close>, \<^verbatim>\<open>check_json_success_status\<close>, and nodes as
      JSON (\<^verbatim>\<open>general_structs.cpp\<close>). The search is verified in the locale \<open>json_fifo\<close> for any queue
      with the laws of \<open>fifo\<close> and interpreted with the linked queue.
    \<^item> \<open>Base64\<close>: \<^verbatim>\<open>base64.c\<close> and the hexadecimal codec, with checked buffers and wrap-around of
      lengths: memory safety and round trips.
    \<^item> \<open>Locks\<close>: \<^verbatim>\<open>nmutex_locks\<close> and its relatives, the macros that count their arguments, and the interleavings of callers: when they can
      deadlock and when they cannot.
    \<^item> \<open>Registry\<close>: the shared state (\<^verbatim>\<open>struct global\<close>), \<^verbatim>\<open>queue_cleanup\<close> and
      \<^verbatim>\<open>insert_node_into_sgx_table_and_queue\<close>. \<open>registry_ok g xs\<close> is the invariant that table and
      queue satisfy together.
    \<^item> \<open>Server\<close>: the handlers, \<^verbatim>\<open>delegate_message\<close>, connections and secondary sockets, and the step
      relation \<open>server_step\<close>. The locale \<open>handler\<close> is the contract of a handler, interpreted for all
      eight; the dispatcher rests on it, so all steps keep \<open>registry_ok\<close>. The behaviour of the handlers on their
      branches, errors included.
    \<^item> \<open>Threads\<close>: the pool of thread slots, the loops that take from it, notifications, and their
      interleavings \<open>pool_step\<close>: no slot is lost or used twice; a busy pool ends the server.
    \<^item> \<open>Notifier\<close>: the notification thread between the handlers: which changes reach the subscribers and
      which are lost.
    \<^item> \<open>Socket\<close>: life cycle, framing and retries of \<^verbatim>\<open>socket_t.c\<close>.
    \<^item> \<open>Lifecycle\<close>: start and end of the server: sockets, configuration, release of the globals.
    \<^item> \<open>Client\<close>: the participant: registration, drawing, the copy of the server's state, the schedule.
    \<^item> \<open>Enclave\<close>: the launch token and its file, the messages for SGX errors, the random bytes.
    \<^item> \<open>Participant\<close>: \<^verbatim>\<open>main\<close> of the participant: start-up, announcing, waiting to join again,
      connecting again.
    \<^item> \<open>Channel\<close>: the locale \<open>channel\<close>, what the programs rely on when they exchange texts, and its
      interpretation by the sockets of \<open>Socket\<close>; what fits a receive buffer and what does not.
    \<^item> \<open>Blockchain\<close>: the writers of the block file as a state machine: blocks do not overlap, but can
      reach the file out of order.
    \<^item> \<open>Simulator\<close>, \<open>Statistics\<close>, \<open>Simulation\<close>: \<^verbatim>\<open>POET++.cpp\<close>, its scheduler, what it computes from the
      record, and its \<^verbatim>\<open>main\<close>: the simulation ends and gives every node its time; elapsed times are
      waiting times plus SGX times; means are exact up to one rounding.
    \<^item> \<open>Rejoin\<close>: the simulation with nodes that join again: it ends, but past the end of its record
      unless a limit or a signal stops it.
    \<^item> \<open>Output\<close>: what the programs print: levels of messages, tables and queues.
    \<^item> \<open>Methods_Test\<close>: \<^verbatim>\<open>poet_methods_test.cpp\<close>, the test of the leadership time and the test of the locks.
    \<^item> this theory: properties that span the server and its participants.

  \<^bold>\<open>How code becomes definitions.\<close> Definitions have the names of the functions they translate.
  State is passed explicitly (\<open>global\<close>, \<open>poet_context\<close>, \<open>client\<close>, \<open>pool\<close>, \<open>socket_t\<close>, \<open>queue_t\<close>);
  a failed assertion, an exit and undefined behaviour are values \<open>Inl f\<close>. \<^verbatim>\<open>unsigned int\<close> and
  \<^verbatim>\<open>size_t\<close> are 32-bit and 64-bit words; \<^verbatim>\<open>time_t\<close> is \<open>int\<close>. Results of system calls, the clock,
  random numbers, locks and messages of the other side are arguments. The JSON parser and checker
  are outside the repository: they are the record \<open>json_lib\<close>, and theorems that need them say what
  is read from which text.

  \<^bold>\<open>Loops and bounds.\<close> The loops of the look-ahead, of \<^verbatim>\<open>find_value\<close> and of the queue may not end
  for every input: they are partial functions into options, and the theorems prove that they
  return. A \<^verbatim>\<open>select\<close>, \<^verbatim>\<open>recv\<close> or \<^verbatim>\<open>connect\<close> that waits for ever is the end of its list of answers.
  \<open>get_parent\<close> has the address of the object as fuel, which is enough since a child is younger than its
  parent. Exact \<^verbatim>\<open>float\<close> arithmetic needs tiers times maximum and the sum of SGX times below
  \<open>2 ^ 24\<close> and fewer than \<open>2 ^ 12\<close> nodes (\<open>net_ok\<close>); the schedule of a client needs a sum below
  \<open>2 ^ 15\<close>, since the code subtracts absolute times in an \<^verbatim>\<open>int\<close>. The simulator's loop is a partial
  function too; it ends for every clock: within the bounds of \<open>answers_ok\<close> when nodes do not rejoin, and
  because its record has \<open>MAX_SIZE\<close> seconds when they do. The
  loop of a participant runs over the inputs of its rounds. Tables have fewer than \<open>2 ^ 30\<close>
  entries (\<open>registry_ok\<close>).

  \<^bold>\<open>Assumptions on runs.\<close> Handlers run one at a time, as their locks make them; nodes announce in
  the order of their ids (otherwise an assertion ends the server, which is proved); the C library
  leaves freed queue cells readable where the code reads them (\<open>tolerant\<close>; without it the read is a
  fault, which is proved). Small allocations succeed.

  A leader's lines fit the buffer of its stream and its sleep is not interrupted (\<open>Blockchain\<close>).

  \<^bold>\<open>Not modelled.\<close> Which debug messages the functions emit (their format is in \<open>Output\<close>), prompts, and the formatting of times and of
  floating-point numbers; the square roots that the
  simulator takes of the deviations it prints; \<^verbatim>\<open>get_input_from_user_and_write\<close>, which is never
  called; the SDK of the enclave. Threads are interleaved at the granularity of
  jobs (\<open>pool_step\<close>), handlers and messages (\<open>notifier_step\<close>), lock operations (\<open>Locks\<close>) and file operations
  (\<open>chain_step\<close>), not of memory accesses.
\<close>

section \<open>From the server's state to the schedule\<close>

lemma registry_net_ok:
  fixes g :: "'sock global"
  assumes reg: "registry_ok g xs" and lower: "1 \<le> unat (sgxt_lowerbound g)" and tiers: "0 < unat (n_tiers g)"
    and exact: "unat (n_tiers g) * unat (sgxmax g) < 2 ^ 24" "length (sgx_table g) < 2 ^ 12"
      "sum_list (map (\<lambda>nd. unat (sgx_time nd)) (sgx_table g)) < 2 ^ 24"
  shows "net_ok (sgx_table g) (n_tiers g) (ucast (sgxmax g))" and "queue_ok (sgx_table g) (map ucast xs)"
proof -
  have "unat (sgxmax g) \<le> unat (n_tiers g) * unat (sgxmax g)" using tiers by simp
  then have "unat (sgxmax g) < 2 ^ 24" using exact(1) by (rule le_less_trans)
  then have "unat (sgxmax g) < 2 ^ 32" by simp
  then have max: "unat (ucast (sgxmax g) :: uint) = unat (sgxmax g)" by (rule unat_ucast_uint)
  show "net_ok (sgx_table g) (n_tiers g) (ucast (sgxmax g))"
    using reg lower tiers exact
    by (auto simp: net_ok_def max registry_ok_def entry_ok_def list_all_iff word_less_nat_alt dest: order_trans)
  have small: "unat x < 2 ^ 32" if "x \<in> set xs" for x
    using reg exact(2) that by (fastforce simp: registry_ok_def)
  then have inj: "inj_on (ucast :: size_t \<Rightarrow> uint) (set xs)"
    by (auto intro!: inj_onI simp: word_unat_eq_iff unat_ucast_uint)
  have "count_list (map ucast xs) (ucast x :: uint) = count_list xs x" if "x \<in> set xs" for x
    using count_list_map_conv [of ucast xs x] inj that by (simp add: count_list_inj_map)
  then show "queue_ok (sgx_table g) (map ucast xs)"
    using reg small by (fastforce simp: queue_ok_def list_all_iff registry_ok_def unat_ucast_uint)
qed

lemma reachable_net:
  fixes g :: "'sock global"
  assumes "set_global_constants lower upper tiers (initial_global True start 0 0 0) = Some g0"
    and "(server_step lib)\<^sup>*\<^sup>* (g0, conns) (g, conns')"
    and "unat tiers * unat upper < 2 ^ 24" and "length (sgx_table g) < 2 ^ 12"
    and "sum_list (map (\<lambda>nd. unat (sgx_time nd)) (sgx_table g)) < 2 ^ 24"
  shows "\<exists>xs. registry_ok g xs \<and> queue_rep (g_queue g) xs \<and> net_ok (sgx_table g) tiers (ucast upper)
    \<and> queue_ok (sgx_table g) (map ucast xs)
    \<and> (\<forall>c < length (sgx_table g). (node_id (sgx_table g ! c) \<in> ucast ` set xs) = (of_nat c \<in> set xs))"
proof -
  have g0: "g0 = initial_global True start lower upper tiers" "1 \<le> unat lower" "0 < unat tiers"
    using assms(1) by (auto simp: set_global_constants_def initial_global_def unat_gt_0 Suc_le_eq split: if_splits)
  obtain xs where reg: "registry_ok g xs" and lim: "sgxt_lowerbound g = lower" "sgxmax g = upper" "n_tiers g = tiers"
    using server_steps_keep [OF assms(2), of "[]"] initial_registry [of start lower upper tiers] g0
    by (auto simp: same_limits_def initial_global_def)
  have ids: "\<forall>x \<in> set xs. unat x < 2 ^ 32" using reg assms(4) by (fastforce simp: registry_ok_def)
  have "(node_id (sgx_table g ! c) \<in> ucast ` set xs) = (of_nat c \<in> set xs)" if c: "c < length (sgx_table g)" for c
  proof -
    have "node_id (sgx_table g ! c) = of_nat c"
      using reg c unat_of_nat_uint [of c] assms(4) by (auto simp: registry_ok_def entry_ok_def word_unat_eq_iff)
    then show ?thesis using id_in_queue [OF _ ids, of c] assms(4) c by simp
  qed
  with reg registry_net_ok [OF reg, unfolded lim, OF g0(2,3) assms(3-5)] show ?thesis
    by (intro exI [of _ xs]) (auto simp: registry_ok_def)
qed

lemma one_node_sum:
  fixes g :: "unit global"
  assumes "(server_step lib)\<^sup>*\<^sup>* (initial_global True 0 1 9 1, conns) (g, conns')" and "length (sgx_table g) = 1"
  shows "set_global_constants 1 9 1 (initial_global True 0 0 0 0) = Some (initial_global True 0 1 9 1 :: unit global)"
    and "sum_list (map (\<lambda>nd. unat (sgx_time nd)) (sgx_table g)) \<le> 9"
proof -
  show "set_global_constants 1 9 1 (initial_global True 0 0 0 0) = Some (initial_global True 0 1 9 1 :: unit global)"
    by (simp add: set_global_constants_def initial_global_def word_le_nat_alt word_less_nat_alt)
  obtain xs where "registry_ok g xs" "sgxmax g = 9"
    using server_steps_keep [OF assms(1), of "[]"] initial_registry [of 0 1 9 1] by (auto simp: same_limits_def initial_global_def)
  then have "entry_ok g 0" "sgxmax g = 9" using assms(2) by (simp_all add: registry_ok_def)
  then show "sum_list (map (\<lambda>nd. unat (sgx_time nd)) (sgx_table g)) \<le> 9"
    using assms(2) by (cases "sgx_table g") (auto simp: entry_ok_def)
qed





section \<open>Requests of a participant at the server\<close>



text \<open>
  C3. A report that a participant's schedule sends (a time between 0 and the time left in the table
  it computed from) is taken by a server that still has that table, whoever stands at the front of
  the queue: the front is removed, repetitions are deleted, the reporting node goes to the back, and
  the table has the reported time. The parser is assumed to read the report as written.
\<close>

theorem readdition_accepted:
  fixes g :: "'sock global"
  assumes reg: "registry_ok g xs" and c: "c < length (sgx_table g)" and r: "0 < r" "r < uint (time_left (sgx_table g ! c))"
    and ints: "\<And>i. u_integer lib (JInteger i) = i" and locks: "env_table_locks env"
  defines "nd \<equiv> sgx_table g ! c"
  shows "\<exists>g' soc'. poet_unfinished_node lib env (node_json (nd\<lparr>time_left := of_int r\<rparr>)) (g, ctx, soc) = Inr (True, g', ctx, soc')
     \<and> sgx_table g' = (sgx_table g)[c := nd\<lparr>time_left := of_int r\<rparr>]
     \<and> registry_ok g' (remdups (tl xs) @ [of_nat c])"
proof -
  let ?nd = "nd\<lparr>time_left := of_int r\<rparr>"
  have e: "unat (node_id nd) = c" "unat (time_left nd) \<le> unat (sgx_time nd)"
    using reg c by (auto simp: registry_ok_def entry_ok_def nd_def)
  have "uint (of_int r :: uint) = r" using r uint_lt2p [of "time_left (sgx_table g ! c)"] by (simp add: uint_word_of_int)
  then have left: "of_int r \<le> time_left nd" using r(2) by (simp add: word_le_def nd_def)
  then have "of_int r \<le> sgx_time nd" using e(2) by (simp add: word_le_nat_alt)
  then have read: "json_to_node_t lib (node_json ?nd) zero_node = Inr (True, ?nd)"
    using read_node_json [of lib ?nd zero_node] ints by simp
  have "(ucast (node_id nd) :: size_t) = of_nat c" using e(1) by (auto simp: word_unat_eq_iff unat_ucast_size_t unat_of_nat_size_t)
  with unfinished_update_run [OF reg, of ?nd nd] e(1) c left obtain q k where
    "unfinished_update g ?nd = Inr (True, g\<lparr>sgx_table := (sgx_table g)[c := nd\<lparr>time_left := of_int r\<rparr>], g_queue := q, g_cleanup := k\<rparr>)"
    "registry_ok (g\<lparr>sgx_table := (sgx_table g)[c := nd\<lparr>time_left := of_int r\<rparr>], g_queue := q, g_cleanup := k\<rparr>) (remdups (tl xs) @ [of_nat c])"
    by (auto simp: Let_def nd_def)
  then show ?thesis using e(1) c read locks by (simp add: poet_unfinished_node_def Let_def split_beta)
qed

theorem readdition_accepted_witness:
  "\<exists>q g' soc'. poet_unfinished_node (stub_lib [] JNull) hello_env (node_json ((test_node 0 5)\<lparr>time_left := of_int 3\<rparr>))
     (one_node q, empty_context, new_conn) = Inr (True, g', empty_context, soc')
     \<and> sgx_table g' = [(test_node 0 5)\<lparr>time_left := of_int 3\<rparr>]"
proof -
  obtain q where q: "queue_rep q [0 :: size_t]" "tolerant (q_heap q)" using queue_rep_exists [of _ True] by blast
  show ?thesis
    using readdition_accepted [OF one_node_registry [OF q], of 0 3 "stub_lib [] JNull" hello_env empty_context new_conn]
    by (intro exI [of _ q]) (auto simp: one_node_def test_node_def hello_env_def)
qed

end
